(* ===== verification/OSC_Prelude.thy ===== *)
theory OSC_Prelude
  imports Main
begin

text \<open>
  Shared vocabulary of the development: how a run of the C programs can stop early, checked
  reads and writes of static arrays, C integer ranges, schedules and reachable states of
  interleaved threads, and the generic locales (an invariant of an interleaved system, a
  functional refinement of one) which the components interpret.
\<close>

section \<open>Collections\<close>

named_theorems c_defs \<open>unfolding rules for the C primitives\<close>

named_theorems step_defs \<open>definitions of thread steps and of their helper updates\<close>

section \<open>Aborted runs, arrays, integers\<close>

text \<open>
  A run of C code either yields a value or stops: a failed \<open>assert\<close> (with its line),
  an access outside an array, a signed overflow or a use of a null or freed pointer.
\<close>

datatype c_abort = Assertion nat | Out_Of_Bounds | Signed_Overflow | Bad_Pointer

type_synonym 'a c_result = "c_abort + 'a"

definition c_read :: "'a list \<Rightarrow> int \<Rightarrow> 'a c_result" where
  "c_read xs i = (if 0 \<le> i \<and> i < int (length xs) then Inr (xs ! nat i) else Inl Out_Of_Bounds)"

definition c_write :: "'a list \<Rightarrow> int \<Rightarrow> 'a \<Rightarrow> 'a list c_result" where
  "c_write xs i v =
     (if 0 \<le> i \<and> i < int (length xs) then Inr (xs[nat i := v]) else Inl Out_Of_Bounds)"

definition c_bind :: "'a c_result \<Rightarrow> ('a \<Rightarrow> 'b c_result) \<Rightarrow> 'b c_result" where
  "c_bind r f = (case r of Inl e \<Rightarrow> Inl e | Inr x \<Rightarrow> f x)"

text \<open>The range of the 32-bit \<open>int\<close>; a signed result outside it is undefined in C.\<close>

definition INT_MAX :: int where
  "INT_MAX = 2147483647"

definition INT_MIN :: int where
  "INT_MIN = - 2147483648"

definition c_int :: "int \<Rightarrow> int c_result" where
  "c_int x = (if INT_MIN \<le> x \<and> x \<le> INT_MAX then Inr x else Inl Signed_Overflow)"

text \<open>
  \<open>atoi\<close>: white space, an optional sign, the longest run of digits; C leaves a value outside
  \<open>int\<close> undefined.
\<close>

definition c_isspace :: "char \<Rightarrow> bool" where
  "c_isspace c \<longleftrightarrow> c = CHR '' '' \<or> (9 \<le> (of_char c :: int) \<and> (of_char c :: int) \<le> 13)"

definition c_isdigit :: "char \<Rightarrow> bool" where
  "c_isdigit c \<longleftrightarrow> 48 \<le> (of_char c :: int) \<and> (of_char c :: int) \<le> 57"

fun digits_value :: "int \<Rightarrow> string \<Rightarrow> int" where
  "digits_value a [] = a"
| "digits_value a (c # cs) =
     (if c_isdigit c then digits_value (10 * a + (of_char c - 48)) cs else a)"

definition c_atoi :: "string \<Rightarrow> int c_result" where
  "c_atoi s = (case dropWhile c_isspace s of
     [] \<Rightarrow> Inr 0
   | c # cs \<Rightarrow> if c = CHR ''-'' then c_int (- digits_value 0 cs)
       else if c = CHR ''+'' then c_int (digits_value 0 cs)
       else c_int (digits_value 0 (c # cs)))"

section \<open>Strings in C\<close>

definition NUL :: char where
  "NUL = CHR 0x00"

definition strlen :: "string \<Rightarrow> nat" where
  "strlen bs = length (takeWhile (\<lambda>c. c \<noteq> NUL) bs)"

text \<open>\<open>printf("%s")\<close> of an array: the bytes before the first zero; without one it runs off the end.\<close>

definition c_string :: "string \<Rightarrow> string c_result" where
  "c_string bs = (if NUL \<in> set bs then Inr (takeWhile (\<lambda>c. c \<noteq> NUL) bs) else Inl Out_Of_Bounds)"

section \<open>Schedules and reachable states\<close>

text \<open>
  A concurrent program is a function \<open>step\<close> from an event (which thread moves, and what the
  environment chooses) and a state to the next state; \<open>None\<close> means that the event is not
  possible (the thread is blocked or has finished). A schedule is a list of events.
\<close>

type_synonym tid = nat

type_synonym ('e, 's) system = "'e \<Rightarrow> 's \<Rightarrow> 's option"

fun run :: "('e, 's) system \<Rightarrow> 'e list \<Rightarrow> 's \<Rightarrow> 's option" where
  "run step [] s = Some s"
| "run step (e # es) s = (case step e s of None \<Rightarrow> None | Some s' \<Rightarrow> run step es s')"

inductive reachable :: "('e, 's) system \<Rightarrow> 's \<Rightarrow> 's \<Rightarrow> bool" for step :: "('e, 's) system" and init :: 's where
  start: "reachable step init init"
| move: "reachable step init s \<Longrightarrow> step e s = Some s' \<Longrightarrow> reachable step init s'"

definition stuck :: "('e, 's) system \<Rightarrow> 's \<Rightarrow> bool" where
  "stuck step s \<longleftrightarrow> (\<forall>e. step e s = None)"

lemma c_bind_simps [simp]:
  "c_bind (Inl e) f = Inl e"
  "c_bind (Inr x) f = f x"
  by (simp_all add: c_bind_def)

lemma c_bind_Inr_iff:
  "c_bind r f = Inr y \<longleftrightarrow> (\<exists>x. r = Inr x \<and> f x = Inr y)"
  by (cases r) auto

lemma c_read_Inr [simp]: "0 \<le> i \<Longrightarrow> i < int (length xs) \<Longrightarrow> c_read xs i = Inr (xs ! nat i)"
  by (simp add: c_read_def)

lemma c_write_Inr [simp]: "0 \<le> i \<Longrightarrow> i < int (length xs) \<Longrightarrow> c_write xs i v = Inr (xs[nat i := v])"
  by (simp add: c_write_def)

lemma run_append:
  "run step (es @ fs) s = (case run step es s of None \<Rightarrow> None | Some s' \<Rightarrow> run step fs s')"
  by (induction es arbitrary: s) (auto split: option.splits)

lemma reachable_trans: "reachable step r s \<Longrightarrow> reachable step i r \<Longrightarrow> reachable step i s"
  by (induction rule: reachable.induct) (auto intro: reachable.move)

lemma run_reachable: "reachable step i s \<Longrightarrow> run step es s = Some s' \<Longrightarrow> reachable step i s'"
  by (induction es arbitrary: s) (auto split: option.splits intro: reachable.move)

theorem reachable_iff_run: "reachable step i s \<longleftrightarrow> (\<exists>es. run step es i = Some s)"
proof
  assume "reachable step i s"
  then show "\<exists>es. run step es i = Some s"
  proof induction
    case start
    have "run step [] i = Some i" by simp
    then show ?case ..
  next
    case (move s e s')
    then obtain es where "run step es i = Some s" by blast
    with move.hyps have "run step (es @ [e]) i = Some s'" by (simp add: run_append)
    then show ?case ..
  qed
qed (auto intro: run_reachable reachable.start)

text \<open>An invariant of an interleaved program: it holds at the start and every event keeps it.\<close>

locale invariant_system =
  fixes step :: "('e, 's) system" and init :: 's and inv :: "'s \<Rightarrow> bool"
  assumes inv_init: "inv init"
    and inv_step: "inv s \<Longrightarrow> step e s = Some s' \<Longrightarrow> inv s'"
begin

lemma reachable_inv: "reachable step init s \<Longrightarrow> inv s"
  by (induction rule: reachable.induct) (auto intro: inv_init inv_step)

lemma run_inv: "run step es init = Some s \<Longrightarrow> inv s"
  using reachable_inv reachable_iff_run by metis

end

text \<open>A system in which every event uses up some of the work that is left: its runs are bounded.\<close>

locale terminating_system = invariant_system step init inv
  for step :: "('e, 's) system" and init :: 's and inv :: "'s \<Rightarrow> bool" +
  fixes work :: "'s \<Rightarrow> nat"
  assumes work_step: "inv s \<Longrightarrow> step e s = Some s' \<Longrightarrow> work s' < work s"
begin

lemma run_bounded_from: "inv s \<Longrightarrow> run step es s = Some s' \<Longrightarrow> length es + work s' \<le> work s"
proof (induction es arbitrary: s)
  case (Cons e es)
  then obtain s1 where "step e s = Some s1" "run step es s1 = Some s'" by (auto split: option.splits)
  with Cons.IH inv_step work_step Cons.prems(1) show ?case by fastforce
qed simp

lemma run_bounded: "run step es init = Some s \<Longrightarrow> length es + work s \<le> work init"
  by (rule run_bounded_from [OF inv_init])

end

text \<open>
  A refinement: under the invariant every event of the concrete system is either invisible
  or an event of the abstract one, so the image of a reachable state is reachable.
\<close>

locale refined_system = invariant_system step init inv
  for step :: "('e, 's) system" and init :: 's and inv :: "'s \<Rightarrow> bool" +
  fixes astep :: "('a, 'b) system" and abs :: "'s \<Rightarrow> 'b"
  assumes abs_step: "inv s \<Longrightarrow> step e s = Some s' \<Longrightarrow>
     abs s' = abs s \<or> (\<exists>a. astep a (abs s) = Some (abs s'))"
begin

lemma reachable_abs: "reachable step init s \<Longrightarrow> reachable astep (abs init) (abs s)"
proof (induction rule: reachable.induct)
  case start
  show ?case by (rule reachable.start)
next
  case (move s e s')
  from reachable_inv [OF move.hyps(1)] move.hyps(2)
  have "abs s' = abs s \<or> (\<exists>a. astep a (abs s) = Some (abs s'))" by (rule abs_step)
  with move.IH show ?case by (auto intro: reachable.move)
qed

end

text \<open>
  A refinement of what can be observed: \<open>label s e s'\<close> is what an event of the concrete system shows,
  \<open>None\<close> for an internal event, and \<open>visible\<close> collects what a schedule shows. Every label is an event
  of the abstract system, so that the observations of each run are a run of the abstract system.
\<close>

fun visible :: "('e, 's) system \<Rightarrow> ('s \<Rightarrow> 'e \<Rightarrow> 's \<Rightarrow> 'a option) \<Rightarrow> 'e list \<Rightarrow> 's \<Rightarrow> 'a list" where
  "visible step label [] s = []"
| "visible step label (e # es) s = (case step e s of None \<Rightarrow> []
     | Some s' \<Rightarrow> (case label s e s' of None \<Rightarrow> [] | Some a \<Rightarrow> [a]) @ visible step label es s')"

locale traced_system = invariant_system step init inv
  for step :: "('e, 's) system" and init :: 's and inv :: "'s \<Rightarrow> bool" +
  fixes label :: "'s \<Rightarrow> 'e \<Rightarrow> 's \<Rightarrow> 'a option" and astep :: "('a, 'b) system" and abs :: "'s \<Rightarrow> 'b"
  assumes internal: "inv s \<Longrightarrow> step e s = Some s' \<Longrightarrow> label s e s' = None \<Longrightarrow> abs s' = abs s"
    and labelled: "inv s \<Longrightarrow> step e s = Some s' \<Longrightarrow> label s e s' = Some a \<Longrightarrow> astep a (abs s) = Some (abs s')"
begin

lemma trace_from: "inv s \<Longrightarrow> run step es s = Some s' \<Longrightarrow> run astep (visible step label es s) (abs s) = Some (abs s')"
proof (induction es arbitrary: s)
  case (Cons e es)
  then obtain s1 where s1: "step e s = Some s1" "run step es s1 = Some s'" by (auto split: option.splits)
  have IH: "run astep (visible step label es s1) (abs s1) = Some (abs s')"
    using Cons.IH inv_step [OF Cons.prems(1) s1(1)] s1(2) by blast
  show ?case
    using internal [OF Cons.prems(1) s1(1)] labelled [OF Cons.prems(1) s1(1)] IH s1(1)
    by (cases "label s e s1") simp_all
qed simp

lemma trace: "run step es init = Some s \<Longrightarrow> run astep (visible step label es init) (abs init) = Some (abs s)"
  by (rule trace_from [OF inv_init])

end

text \<open>
  Fallible operations on a concrete state that implement partial operations on an abstract one:
  wherever the abstract operation is defined the concrete one succeeds with a related result.
\<close>

fun exec_all :: "('o \<Rightarrow> 'c \<Rightarrow> 'c c_result) \<Rightarrow> 'o list \<Rightarrow> 'c \<Rightarrow> 'c c_result" where
  "exec_all exec [] c = Inr c"
| "exec_all exec (op # ops) c = c_bind (exec op c) (exec_all exec ops)"

locale implements =
  fixes exec :: "'o \<Rightarrow> 'c \<Rightarrow> 'c c_result" and spec :: "('o, 'a) system" and rel :: "'c \<Rightarrow> 'a \<Rightarrow> bool"
  assumes impl: "rel c a \<Longrightarrow> spec op a = Some a' \<Longrightarrow> \<exists>c'. exec op c = Inr c' \<and> rel c' a'"
begin

lemma impl_all: "rel c a \<Longrightarrow> run spec ops a = Some a' \<Longrightarrow> \<exists>c'. exec_all exec ops c = Inr c' \<and> rel c' a'"
proof (induction ops arbitrary: c a)
  case (Cons op ops)
  then obtain a1 where a1: "spec op a = Some a1" "run spec ops a1 = Some a'" by (auto split: option.splits)
  with impl [OF Cons.prems(1)] Cons.IH show ?case by fastforce
qed simp

end

section \<open>Counting in arrays and cyclic indices\<close>

lemma count_list_update:
  "i < length xs \<Longrightarrow> count_list (xs[i := v]) x =
     count_list xs x - (if xs ! i = x then 1 else 0) + (if v = x then 1 else 0)"
proof (induction xs arbitrary: i)
  case (Cons a xs)
  show ?case
  proof (cases i)
    case (Suc j)
    with Cons have IH: "count_list (xs[j := v]) x =
        count_list xs x - (if xs ! j = x then 1 else 0) + (if v = x then 1 else 0)" by simp
    have "xs ! j = x \<Longrightarrow> 0 < count_list xs x"
      using Cons.prems Suc by (auto simp: count_list_0_iff intro!: gr0I)
    with IH Suc show ?thesis by auto
  qed auto
qed simp

lemma count_list_pos: "i < length xs \<Longrightarrow> xs ! i = x \<Longrightarrow> 0 < count_list xs x"
  by (metis count_list_0_iff gr0I nth_mem)

lemma count_list_less_length: "i < length xs \<Longrightarrow> xs ! i \<noteq> x \<Longrightarrow> count_list xs x < length xs"
  by (simp add: count_list_eq_length_filter) (metis (mono_tags) length_filter_less nth_mem)

lemma count_list_less_lengthE:
  assumes "count_list xs x < length xs"
  obtains i where "i < length xs" "xs ! i \<noteq> x"
proof (rule ccontr)
  assume "\<not> thesis"
  with that have "\<forall>i < length xs. x = xs ! i" by blast
  then have "\<forall>y \<in> set xs. x = y" by (simp add: all_set_conv_all_nth)
  then have "filter ((=) x) xs = xs" by (simp add: filter_id_conv)
  with assms show False by (simp add: count_list_eq_length_filter)
qed

lemma count_list_full_nth:
  "count_list xs x = length xs \<Longrightarrow> i < length xs \<Longrightarrow> xs ! i = x"
  using count_list_less_length by fastforce

lemma set_list_update_subset: "set xs \<subseteq> A \<Longrightarrow> v \<in> A \<Longrightarrow> set (xs[i := v]) \<subseteq> A"
  using set_update_subset_insert [of xs i v] by blast

section \<open>Accounts over threads\<close>

text \<open>When only one of finitely many entries changes, the total changes by its difference.\<close>

lemma sum_change:
  fixes f g :: "nat \<Rightarrow> int"
  assumes "t < N" "\<And>u. u \<noteq> t \<Longrightarrow> g u = f u"
  shows "(\<Sum>u<N. g u) = (\<Sum>u<N. f u) - f t + g t"
proof -
  have "(\<Sum>u<N. g u) = g t + (\<Sum>u\<in>{..<N} - {t}. g u)"
    using assms(1) by (intro sum.remove) auto
  moreover have "(\<Sum>u<N. f u) = f t + (\<Sum>u\<in>{..<N} - {t}. f u)"
    using assms(1) by (intro sum.remove) auto
  moreover have "(\<Sum>u\<in>{..<N} - {t}. g u) = (\<Sum>u\<in>{..<N} - {t}. f u)"
    using assms(2) by (intro sum.cong) auto
  ultimately show ?thesis by simp
qed

lemma sum_ge_two:
  fixes f :: "nat \<Rightarrow> int"
  assumes "t < N" "u < N" "t \<noteq> u" "\<And>v. 0 \<le> f v"
  shows "f t + f u \<le> (\<Sum>v<N. f v)"
proof -
  have "sum f {t, u} \<le> (\<Sum>v<N. f v)"
    using assms by (intro sum_mono2) auto
  then show ?thesis using assms(3) by simp
qed

lemma sum_ge_one:
  fixes f :: "nat \<Rightarrow> int"
  assumes "t < N" "\<And>v. 0 \<le> f v"
  shows "f t \<le> (\<Sum>v<N. f v)"
  using sum_mono2 [of "{..<N}" "{t}" f] assms by simp

lemma sum_pos_ex:
  fixes f :: "nat \<Rightarrow> int"
  assumes "0 < (\<Sum>v<N. f v)"
  shows "\<exists>v<N. 0 < f v"
  using assms sum_nonpos [of "{..<N}" f] by (meson leD lessThan_iff not_le)

text \<open>The weight of the first \<open>N\<close> threads, each weighed by its program point.\<close>

definition tally :: "nat \<Rightarrow> ('p \<Rightarrow> int) \<Rightarrow> (tid \<Rightarrow> 'p) \<Rightarrow> int" where
  "tally N w f = (\<Sum>u<N. w (f u))"

lemma tally_upd [simp]:
  assumes "t < N"
  shows "tally N w (f(t := p)) = tally N w f - w (f t) + w p"
  unfolding tally_def using sum_change [OF assms, of "\<lambda>u. w ((f(t := p)) u)" "\<lambda>u. w (f u)"] by simp

lemma tally_ge_one: "(\<And>p. 0 \<le> w p) \<Longrightarrow> t < N \<Longrightarrow> w (f t) \<le> tally N w f"
  unfolding tally_def by (rule sum_ge_one)

lemma tally_ge_two: "(\<And>p. 0 \<le> w p) \<Longrightarrow> t < N \<Longrightarrow> u < N \<Longrightarrow> t \<noteq> u \<Longrightarrow> w (f t) + w (f u) \<le> tally N w f"
  unfolding tally_def by (rule sum_ge_two)

lemma tally_nonneg: "(\<And>p. 0 \<le> w p) \<Longrightarrow> 0 \<le> tally N w f"
  unfolding tally_def by (intro sum_nonneg)

lemma tally_le: "(\<And>p. w p \<le> 1) \<Longrightarrow> tally N w f \<le> int N"
  unfolding tally_def using sum_mono [of "{..<N}" "\<lambda>u. w (f u)" "\<lambda>_. 1"] by simp

lemma tally_pos: "0 < tally N w f \<Longrightarrow> \<exists>t<N. 0 < w (f t)"
  unfolding tally_def by (rule sum_pos_ex)

end
