(* ===== verification/Pid_Manager.thy ===== *)
theory Pid_Manager
  imports OSC_Prelude
begin

text \<open>
  The sequential PID manager of \<open>ch3/programming_problems/pp3_20\<close>: a byte array of allocation
  states, a roving index and a counter. The state record \<open>pid_mgr\<close> holds the three static
  variables of \<open>pid_manager.c\<close>; \<open>allocate_pid\<close> and \<open>release_pid\<close> are the two public functions
  with every \<open>assert\<close> as an error branch, \<open>pid_search\<close> is the search loop, and \<open>pp320_main\<close>
  is the test program. The locale \<open>id_allocator\<close> states what a client may rely on.
\<close>

section \<open>State and operations\<close>

definition MIN_PID :: int where
  "MIN_PID = 300"

definition MAX_PID :: int where
  "MAX_PID = 500"

definition PID_IS_AVAILABLE :: int where
  "PID_IS_AVAILABLE = 0"

definition PID_IS_IN_USE :: int where
  "PID_IS_IN_USE = 1"

definition PID_STATE_BUF_SIZE :: int where
  "PID_STATE_BUF_SIZE = MAX_PID - MIN_PID + 1"

record pid_mgr =
  pid_alloc_state :: "int list"
  next_free_pid_index :: int
  pid_in_use_count :: int

definition pid_mgr_init :: pid_mgr where
  "pid_mgr_init = \<lparr>pid_alloc_state = replicate (nat PID_STATE_BUF_SIZE) 0,
     next_free_pid_index = 0, pid_in_use_count = 0\<rparr>"

definition allocate_map :: "pid_mgr \<Rightarrow> int \<times> pid_mgr" where
  "allocate_map m = (0, m)"

text \<open>The search loop (the array is read before the iteration bound is tested, as in C).\<close>

function pid_search :: "int list \<Rightarrow> int \<Rightarrow> int \<Rightarrow> (int \<times> int) c_result" where
  "pid_search st idx iter_count =
     (case c_read st idx of
        Inl e \<Rightarrow> Inl e
      | Inr v \<Rightarrow>
          if v = PID_IS_IN_USE \<and> iter_count < PID_STATE_BUF_SIZE
          then pid_search st ((idx + 1) mod PID_STATE_BUF_SIZE) (iter_count + 1)
          else Inr (idx, iter_count))"
  by pat_completeness auto
termination
  by (relation "measure (\<lambda>(st, idx, it). nat (PID_STATE_BUF_SIZE - it))") auto

declare pid_search.simps [simp del]

definition allocate_pid :: "pid_mgr \<Rightarrow> (int \<times> pid_mgr) c_result" where
  "allocate_pid m =
     (if \<not> (0 \<le> pid_in_use_count m \<and> pid_in_use_count m \<le> PID_STATE_BUF_SIZE)
      then Inl (Assertion 33)
      else if pid_in_use_count m \<ge> PID_STATE_BUF_SIZE then Inr (-1, m)
      else c_bind (pid_search (pid_alloc_state m) (next_free_pid_index m) 0) (\<lambda>(idx, it).
           c_bind (c_read (pid_alloc_state m) idx) (\<lambda>v.
             if v \<noteq> PID_IS_AVAILABLE then Inl (Assertion 53)
             else c_bind (c_write (pid_alloc_state m) idx PID_IS_IN_USE) (\<lambda>st.
               Inr (idx + MIN_PID,
                    m\<lparr>pid_alloc_state := st,
                      pid_in_use_count := pid_in_use_count m + 1,
                      next_free_pid_index := (idx + 1) mod PID_STATE_BUF_SIZE\<rparr>)))))"

definition release_pid :: "int \<Rightarrow> pid_mgr \<Rightarrow> pid_mgr c_result" where
  "release_pid pid m =
     (if \<not> pid_in_use_count m > 0 then Inl (Assertion 74)
      else if \<not> pid_in_use_count m \<le> PID_STATE_BUF_SIZE then Inl (Assertion 75)
      else if \<not> (pid \<ge> MIN_PID \<and> pid \<le> MAX_PID) then Inl (Assertion 77)
      else c_bind (c_read (pid_alloc_state m) (pid - MIN_PID)) (\<lambda>v.
             if v \<noteq> PID_IS_IN_USE then Inl (Assertion 83)
             else c_bind (c_write (pid_alloc_state m) (pid - MIN_PID) PID_IS_AVAILABLE) (\<lambda>st.
               Inr (m\<lparr>pid_alloc_state := st,
                      pid_in_use_count := pid_in_use_count m - 1\<rparr>))))"

text \<open>
  The test program: \<open>while ((pid0 = allocate_pid()) != -1) ;\<close> has no bound of its own, so the
  loop is a partial function; the result of the program is its exit code, the last values of
  \<open>pid0\<close> and \<open>pid1\<close> and the manager.
\<close>

partial_function (option) drain_pids :: "pid_mgr \<Rightarrow> (pid_mgr c_result) option" where
  "drain_pids m =
     (case allocate_pid m of
        Inl e \<Rightarrow> Some (Inl e)
      | Inr (pid0, m') \<Rightarrow> if pid0 \<noteq> -1 then drain_pids m' else Some (Inr m'))"

definition pp320_tail :: "pid_mgr \<Rightarrow> (int \<times> int \<times> int \<times> pid_mgr) c_result" where
  "pp320_tail m =
     c_bind (release_pid 500 m) (\<lambda>m1.
     c_bind (allocate_pid m1) (\<lambda>(pid0, m2).
     c_bind (release_pid 400 m2) (\<lambda>m3.
     c_bind (allocate_pid m3) (\<lambda>(pid1, m4). Inr (0, pid0, pid1, m4)))))"

definition pp320_main :: "(int \<times> int \<times> int \<times> pid_mgr) c_result option" where
  "pp320_main = map_option (\<lambda>r. c_bind r pp320_tail) (drain_pids pid_mgr_init)"

section \<open>Invariant and abstraction\<close>

definition pid_inv :: "pid_mgr \<Rightarrow> bool" where
  "pid_inv m \<longleftrightarrow>
     length (pid_alloc_state m) = nat PID_STATE_BUF_SIZE \<and>
     set (pid_alloc_state m) \<subseteq> {PID_IS_AVAILABLE, PID_IS_IN_USE} \<and>
     0 \<le> next_free_pid_index m \<and> next_free_pid_index m < PID_STATE_BUF_SIZE \<and>
     pid_in_use_count m = int (count_list (pid_alloc_state m) PID_IS_IN_USE)"

definition pids :: "int set" where
  "pids = {MIN_PID..MAX_PID}"

definition in_use :: "pid_mgr \<Rightarrow> int set" where
  "in_use m = {p \<in> pids. pid_alloc_state m ! nat (p - MIN_PID) = PID_IS_IN_USE}"

text \<open>
  The contract of an identifier allocator, independent of its representation: identifiers
  are handed out fresh, taken back only when in use, and the allocator refuses exactly when
  nothing is left.
\<close>

datatype id_op = Alloc | Free int

fun exec_ops :: "('s \<Rightarrow> (int \<times> 's) c_result) \<Rightarrow> (int \<Rightarrow> 's \<Rightarrow> 's c_result) \<Rightarrow>
    id_op list \<Rightarrow> 's \<Rightarrow> (int list \<times> 's) c_result" where
  "exec_ops al fr [] s = Inr ([], s)"
| "exec_ops al fr (Alloc # ops) s =
     (case al s of Inl e \<Rightarrow> Inl e
      | Inr (p, s') \<Rightarrow> (case exec_ops al fr ops s' of Inl e \<Rightarrow> Inl e
          | Inr (ps, s'') \<Rightarrow> Inr (p # ps, s'')))"
| "exec_ops al fr (Free p # ops) s =
     (case fr p s of Inl e \<Rightarrow> Inl e | Inr s' \<Rightarrow> exec_ops al fr ops s')"

locale id_allocator =
  fixes alloc :: "'s \<Rightarrow> (int \<times> 's) c_result"
    and release :: "int \<Rightarrow> 's \<Rightarrow> 's c_result"
    and inv :: "'s \<Rightarrow> bool"
    and used :: "'s \<Rightarrow> int set"
    and ids :: "int set"
  assumes ids_finite: "finite ids"
    and ids_valid: "-1 \<notin> ids"
    and used_ids: "inv s \<Longrightarrow> used s \<subseteq> ids"
    and alloc_full: "inv s \<Longrightarrow> used s = ids \<Longrightarrow> alloc s = Inr (-1, s)"
    and alloc_fresh: "inv s \<Longrightarrow> used s \<noteq> ids \<Longrightarrow>
      \<exists>p s'. alloc s = Inr (p, s') \<and> p \<in> ids - used s \<and> used s' = insert p (used s) \<and> inv s'"
    and release_used: "inv s \<Longrightarrow> p \<in> used s \<Longrightarrow>
      \<exists>s'. release p s = Inr s' \<and> used s' = used s - {p} \<and> inv s'"
    and release_unused: "inv s \<Longrightarrow> p \<notin> used s \<Longrightarrow> \<exists>e. release p s = Inl e"
begin

lemma alloc_cases:
  assumes "inv s"
  obtains (full) "used s = ids" "alloc s = Inr (-1, s)"
  | (fresh) p s' where "alloc s = Inr (p, s')" "p \<in> ids" "p \<notin> used s" "p \<noteq> -1"
      "used s' = insert p (used s)" "inv s'"
proof (cases "used s = ids")
  case True
  with assms show thesis using full alloc_full by blast
next
  case False
  with assms obtain p s' where *: "alloc s = Inr (p, s')" "p \<in> ids - used s"
      "used s' = insert p (used s)" "inv s'" using alloc_fresh by blast
  moreover have "p \<noteq> -1" using *(2) ids_valid by blast
  ultimately show thesis using fresh by blast
qed

lemma alloc_total: "inv s \<Longrightarrow> \<exists>p s'. alloc s = Inr (p, s') \<and> inv s'"
  by (metis alloc_cases)

lemma alloc_release:
  assumes "inv s" "alloc s = Inr (p, s')" "p \<noteq> -1"
  shows "\<exists>s''. release p s' = Inr s'' \<and> used s'' = used s \<and> inv s''"
  using assms(1)
proof (cases rule: alloc_cases)
  case full
  with assms(2,3) show ?thesis by simp
next
  case (fresh q t)
  with assms(2) have "p \<in> used s'" "inv s'" "used s' = insert p (used s)" "p \<notin> used s" by auto
  moreover from this release_used obtain s'' where
    "release p s' = Inr s''" "used s'' = used s' - {p}" "inv s''" by blast
  ultimately show ?thesis by auto
qed

lemma used_finite: "inv s \<Longrightarrow> finite (used s)"
  using used_ids ids_finite finite_subset by blast

lemma free_count_fresh:
  assumes "inv s" "p \<in> ids" "p \<notin> used s" "used s' = insert p (used s)"
  shows "card (ids - used s) = Suc (card (ids - used s'))"
proof -
  have "ids - used s = insert p (ids - used s')" using assms by auto
  moreover have "card (insert p (ids - used s')) = Suc (card (ids - used s'))"
    using assms(4) ids_finite by (intro card_insert_disjoint) auto
  ultimately show ?thesis by (simp only:)
qed

lemma allocs_distinct:
  assumes "inv s" "k \<le> card (ids - used s)"
  shows "\<exists>ps s'. exec_ops alloc release (replicate k Alloc) s = Inr (ps, s') \<and>
    length ps = k \<and> distinct ps \<and> set ps \<subseteq> ids - used s \<and>
    used s' = used s \<union> set ps \<and> inv s'"
  using assms
proof (induction k arbitrary: s)
  case 0
  then show ?case by simp
next
  case (Suc k)
  have "used s \<noteq> ids" using Suc.prems by auto
  with Suc.prems(1) obtain p t where pt: "alloc s = Inr (p, t)" "p \<in> ids" "p \<notin> used s"
      "used t = insert p (used s)" "inv t"
    by (metis alloc_cases)
  have "k \<le> card (ids - used t)"
    using Suc.prems(2) free_count_fresh [OF Suc.prems(1) pt(2,3,4)] by simp
  with Suc.IH [OF pt(5)] obtain ps s' where
    IH: "exec_ops alloc release (replicate k Alloc) t = Inr (ps, s')" "length ps = k"
      "distinct ps" "set ps \<subseteq> ids - used t" "used s' = used t \<union> set ps" "inv s'" by blast
  have "exec_ops alloc release (replicate (Suc k) Alloc) s = Inr (p # ps, s')"
    using pt(1) IH(1) by simp
  moreover have "distinct (p # ps)" "set (p # ps) \<subseteq> ids - used s"
      "used s' = used s \<union> set (p # ps)"
    using IH pt by auto
  ultimately show ?case using IH(2,6) by (metis length_Cons)
qed

lemma alloc_inv: "inv s \<Longrightarrow> alloc s = Inr (p, s') \<Longrightarrow> inv s'"
  using alloc_total [of s] by auto

lemma release_inv: "inv s \<Longrightarrow> release p s = Inr s' \<Longrightarrow> inv s'"
  using release_used [of s p] release_unused [of s p] by (cases "p \<in> used s") auto

lemma exec_ops_inv:
  "inv s \<Longrightarrow> exec_ops alloc release ops s = Inr (ps, s') \<Longrightarrow> inv s'"
proof (induction ops arbitrary: s ps)
  case (Cons op ops)
  show ?case
  proof (cases op)
    case Alloc
    with Cons.prems obtain q t qs where "alloc s = Inr (q, t)"
      "exec_ops alloc release ops t = Inr (qs, s')" by (auto split: sum.splits)
    with Cons.IH Cons.prems(1) alloc_inv show ?thesis by blast
  next
    case (Free q)
    with Cons show ?thesis by (auto split: sum.splits dest: release_inv)
  qed
qed simp

end

section \<open>The manager implements the contract\<close>

lemmas pid_consts = MIN_PID_def MAX_PID_def PID_IS_AVAILABLE_def PID_IS_IN_USE_def
  PID_STATE_BUF_SIZE_def

lemma PID_STATE_BUF_SIZE_eq [simp]: "PID_STATE_BUF_SIZE = 201"
  by (simp add: pid_consts)

lemma pid_search_spec:
  assumes "length st = 201" "0 \<le> idx" "idx < 201"
    and "\<forall>j < k. st ! nat ((idx + int j) mod 201) = PID_IS_IN_USE"
    and "st ! nat ((idx + int k) mod 201) \<noteq> PID_IS_IN_USE"
    and "it + int k \<le> 201"
  shows "pid_search st idx it = Inr ((idx + int k) mod 201, it + int k)"
  using assms
proof (induction k arbitrary: idx it)
  case 0
  then show ?case by (subst pid_search.simps) simp
next
  case (Suc k)
  let ?i = "(idx + 1) mod 201"
  have shift: "(?i + int j) mod 201 = (idx + int (Suc j)) mod 201" for j
    by (simp add: mod_simps algebra_simps)
  have "pid_search st ?i (it + 1) = Inr ((?i + int k) mod 201, it + 1 + int k)"
    by (rule Suc.IH) (use Suc.prems in \<open>auto simp: shift\<close>)
  moreover have "st ! nat idx = PID_IS_IN_USE"
    using Suc.prems(2,3,4) by force
  ultimately show ?case
    using Suc.prems shift [of k] by (subst pid_search.simps) simp
qed

text \<open>A free slot exists whenever the counter is below the size of the array.\<close>

lemma next_free_exists:
  fixes st :: "int list"
  assumes "length st = 201" "count_list st x < 201" "0 \<le> idx" "idx < 201"
  obtains k where "k < 201" "\<forall>j < k. st ! nat ((idx + int j) mod 201) = x"
    "st ! nat ((idx + int k) mod 201) \<noteq> x"
proof -
  obtain i where i: "i < 201" "st ! i \<noteq> x"
    using assms(1,2) by (metis count_list_less_lengthE)
  define d where "d = nat ((int i - idx) mod 201)"
  have "(idx + int d) mod 201 = int i"
    using i(1) assms(3,4) by (simp add: d_def mod_simps)
  then have d: "st ! nat ((idx + int d) mod 201) \<noteq> x" "d < 201"
    using i by (simp_all add: d_def nat_less_iff)
  define k where "k = (LEAST k. st ! nat ((idx + int k) mod 201) \<noteq> x)"
  have "k \<le> d" unfolding k_def by (rule Least_le) (rule d(1))
  moreover have "st ! nat ((idx + int k) mod 201) \<noteq> x"
    unfolding k_def by (rule LeastI) (rule d(1))
  moreover have "\<forall>j < k. st ! nat ((idx + int j) mod 201) = x"
    unfolding k_def using not_less_Least by blast
  ultimately show thesis using that [of k] d(2) by simp
qed

lemma pid_invD:
  assumes "pid_inv m"
  shows "length (pid_alloc_state m) = 201"
    "set (pid_alloc_state m) \<subseteq> {PID_IS_AVAILABLE, PID_IS_IN_USE}"
    "0 \<le> next_free_pid_index m" "next_free_pid_index m < 201"
    "pid_in_use_count m = int (count_list (pid_alloc_state m) PID_IS_IN_USE)"
  using assms by (simp_all add: pid_inv_def)

lemma pid_slot_cases:
  assumes "pid_inv m" "i < 201"
  shows "pid_alloc_state m ! i = PID_IS_AVAILABLE \<or> pid_alloc_state m ! i = PID_IS_IN_USE"
proof -
  have "pid_alloc_state m ! i \<in> set (pid_alloc_state m)"
    using pid_invD(1) [OF assms(1)] assms(2) by simp
  then show ?thesis using pid_invD(2) [OF assms(1)] by blast
qed

lemma pid_count_le: "pid_inv m \<Longrightarrow> 0 \<le> pid_in_use_count m \<and> pid_in_use_count m \<le> 201"
  using pid_invD(1,5) count_le_length [of "pid_alloc_state m" PID_IS_IN_USE] by simp

lemma pid_states_differ [simp]: "PID_IS_AVAILABLE \<noteq> PID_IS_IN_USE" "PID_IS_IN_USE \<noteq> PID_IS_AVAILABLE"
  by (simp_all add: pid_consts)

lemma in_use_full_iff:
  assumes "pid_inv m"
  shows "in_use m = pids \<longleftrightarrow> pid_in_use_count m = 201"
proof
  assume full: "in_use m = pids"
  show "pid_in_use_count m = 201"
  proof (rule ccontr)
    assume "pid_in_use_count m \<noteq> 201"
    with pid_count_le [OF assms] pid_invD(1,5) [OF assms]
    obtain i where i: "i < 201" "pid_alloc_state m ! i \<noteq> PID_IS_IN_USE"
      by (metis count_list_less_lengthE nless_le of_nat_le_iff of_nat_numeral)
    from i(1) have "int i + MIN_PID \<in> pids" by (simp add: pids_def pid_consts)
    with full have "int i + MIN_PID \<in> in_use m" by simp
    with i(2) show False by (simp add: in_use_def)
  qed
next
  assume "pid_in_use_count m = 201"
  then have "count_list (pid_alloc_state m) PID_IS_IN_USE = length (pid_alloc_state m)"
    using pid_invD(1,5) [OF assms] by simp
  note full = count_list_full_nth [OF this]
  show "in_use m = pids"
    using full pid_invD(1) [OF assms] by (auto simp: in_use_def pids_def pid_consts)
qed

lemma in_use_update:
  assumes "length (pid_alloc_state m) = 201" "0 \<le> i" "i < 201"
    "pid_alloc_state m' = (pid_alloc_state m)[nat i := v]"
  shows "in_use m' =
    (if v = PID_IS_IN_USE then insert (i + MIN_PID) (in_use m) else in_use m - {i + MIN_PID})"
  using assms by (auto simp: in_use_def pids_def nth_list_update pid_consts nat_eq_iff2)

text \<open>The result of a successful allocation: the first free slot from the roving index on.\<close>

lemma allocate_pid_next_fit:
  assumes inv: "pid_inv m" and not_full: "pid_in_use_count m < 201"
  obtains k where "k < 201"
    "\<forall>j < k. pid_alloc_state m ! nat ((next_free_pid_index m + int j) mod 201) = PID_IS_IN_USE"
    "pid_alloc_state m ! nat ((next_free_pid_index m + int k) mod 201) = PID_IS_AVAILABLE"
    "allocate_pid m = Inr ((next_free_pid_index m + int k) mod 201 + MIN_PID,
       m\<lparr>pid_alloc_state := (pid_alloc_state m)
           [nat ((next_free_pid_index m + int k) mod 201) := PID_IS_IN_USE],
         pid_in_use_count := pid_in_use_count m + 1,
         next_free_pid_index := (next_free_pid_index m + int k + 1) mod 201\<rparr>)"
proof -
  note D = pid_invD [OF inv]
  from D not_full obtain k where k: "k < 201"
    "\<forall>j < k. pid_alloc_state m ! nat ((next_free_pid_index m + int j) mod 201) = PID_IS_IN_USE"
    "pid_alloc_state m ! nat ((next_free_pid_index m + int k) mod 201) \<noteq> PID_IS_IN_USE"
    by (metis next_free_exists of_nat_less_numeral_iff)
  let ?i = "(next_free_pid_index m + int k) mod 201"
  have free: "pid_alloc_state m ! nat ?i = PID_IS_AVAILABLE"
    using pid_slot_cases [OF inv, of "nat ?i"] k(3) by (simp add: nat_less_iff)
  have "pid_search (pid_alloc_state m) (next_free_pid_index m) 0 = Inr (?i, 0 + int k)"
    by (rule pid_search_spec) (use D k in auto)
  then have "allocate_pid m = Inr (?i + MIN_PID,
       m\<lparr>pid_alloc_state := (pid_alloc_state m)[nat ?i := PID_IS_IN_USE],
         pid_in_use_count := pid_in_use_count m + 1,
         next_free_pid_index := (?i + 1) mod 201\<rparr>)"
    using free not_full pid_count_le [OF inv] D(1) by (simp add: allocate_pid_def)
  then show thesis using that k(1,2) free by (simp add: mod_simps add.assoc)
qed

lemma allocate_pid_full:
  "pid_inv m \<Longrightarrow> pid_in_use_count m = 201 \<Longrightarrow> allocate_pid m = Inr (-1, m)"
  by (simp add: allocate_pid_def)

lemma allocate_pid_fresh:
  assumes inv: "pid_inv m" and not_full: "in_use m \<noteq> pids"
  shows "\<exists>p m'. allocate_pid m = Inr (p, m') \<and> p \<in> pids - in_use m \<and>
     in_use m' = insert p (in_use m) \<and> pid_inv m'"
proof -
  note D = pid_invD [OF inv]
  have cnt: "pid_in_use_count m < 201"
    using in_use_full_iff [OF inv] not_full pid_count_le [OF inv] by auto
  from inv cnt obtain k where k: "k < 201"
    "pid_alloc_state m ! nat ((next_free_pid_index m + int k) mod 201) = PID_IS_AVAILABLE"
    "allocate_pid m = Inr ((next_free_pid_index m + int k) mod 201 + MIN_PID,
       m\<lparr>pid_alloc_state := (pid_alloc_state m)
           [nat ((next_free_pid_index m + int k) mod 201) := PID_IS_IN_USE],
         pid_in_use_count := pid_in_use_count m + 1,
         next_free_pid_index := (next_free_pid_index m + int k + 1) mod 201\<rparr>)"
    by (rule allocate_pid_next_fit)
  define i where "i = (next_free_pid_index m + int k) mod 201"
  have i: "0 \<le> i" "i < 201" by (simp_all add: i_def)
  let ?m = "m\<lparr>pid_alloc_state := (pid_alloc_state m)[nat i := PID_IS_IN_USE],
         pid_in_use_count := pid_in_use_count m + 1,
         next_free_pid_index := (next_free_pid_index m + int k + 1) mod 201\<rparr>"
  have "set ((pid_alloc_state m)[nat i := PID_IS_IN_USE]) \<subseteq> {PID_IS_AVAILABLE, PID_IS_IN_USE}"
    by (rule set_list_update_subset) (use D(2) in auto)
  then have "pid_inv ?m"
    using D k(2) i unfolding pid_inv_def
    by (simp add: count_list_update i_def [symmetric] nat_less_iff)
  moreover have "in_use ?m = insert (i + MIN_PID) (in_use m)"
    using in_use_update [OF D(1) i, of ?m PID_IS_IN_USE] by simp
  moreover have "i + MIN_PID \<in> pids - in_use m"
    using i k(2) by (simp add: pids_def in_use_def i_def [symmetric] pid_consts)
  ultimately show ?thesis using k(3) by (auto simp: i_def)
qed

lemma release_pid_used:
  assumes inv: "pid_inv m" and used: "p \<in> in_use m"
  shows "\<exists>m'. release_pid p m = Inr m' \<and> in_use m' = in_use m - {p} \<and> pid_inv m'"
proof -
  note D = pid_invD [OF inv]
  define i where "i = p - MIN_PID"
  have i: "0 \<le> i" "i < 201" "pid_alloc_state m ! nat i = PID_IS_IN_USE" "p \<in> pids"
    using used by (auto simp: in_use_def pids_def i_def pid_consts)
  have pos: "0 < count_list (pid_alloc_state m) PID_IS_IN_USE"
    by (rule count_list_pos [of "nat i"]) (use i D(1) in \<open>simp_all add: nat_less_iff\<close>)
  let ?m = "m\<lparr>pid_alloc_state := (pid_alloc_state m)[nat i := PID_IS_AVAILABLE],
              pid_in_use_count := pid_in_use_count m - 1\<rparr>"
  have "release_pid p m = Inr ?m"
    using i pos D(1,5) pid_count_le [OF inv]
    by (simp add: release_pid_def i_def [symmetric] pids_def)
  moreover have "set ((pid_alloc_state m)[nat i := PID_IS_AVAILABLE]) \<subseteq>
      {PID_IS_AVAILABLE, PID_IS_IN_USE}"
    by (rule set_list_update_subset) (use D(2) in auto)
  then have "pid_inv ?m"
    using D i pos unfolding pid_inv_def
    by (simp add: count_list_update nat_less_iff of_nat_diff)
  moreover have "in_use ?m = in_use m - {p}"
    using in_use_update [OF D(1) i(1,2), of ?m PID_IS_AVAILABLE] by (simp add: i_def)
  ultimately show ?thesis by blast
qed

text \<open>Each way in which a release is refused, with the assertion that refuses it.\<close>

lemma release_pid_unused:
  assumes inv: "pid_inv m" and unused: "p \<notin> in_use m"
  shows "release_pid p m = Inl (Assertion
     (if in_use m = {} then 74 else if p \<notin> pids then 77 else 83))"
proof -
  note D = pid_invD [OF inv]
  have empty: "in_use m = {} \<longleftrightarrow> pid_in_use_count m = 0"
  proof
    assume none: "in_use m = {}"
    have "\<forall>i < 201. pid_alloc_state m ! i \<noteq> PID_IS_IN_USE"
    proof (intro allI impI notI)
      fix i :: nat
      assume "i < 201" "pid_alloc_state m ! i = PID_IS_IN_USE"
      then have "int i + MIN_PID \<in> in_use m" by (simp add: in_use_def pids_def pid_consts)
      with none show False by simp
    qed
    then have "PID_IS_IN_USE \<notin> set (pid_alloc_state m)" using D(1) by (auto simp: in_set_conv_nth)
    then show "pid_in_use_count m = 0" using D(5) by (simp add: count_list_0_iff)
  next
    assume "pid_in_use_count m = 0"
    then have none: "PID_IS_IN_USE \<notin> set (pid_alloc_state m)" using D(5) by (simp add: count_list_0_iff)
    show "in_use m = {}"
    proof (intro equals0I)
      fix q assume "q \<in> in_use m"
      then have "pid_alloc_state m ! nat (q - MIN_PID) = PID_IS_IN_USE" "nat (q - MIN_PID) < 201"
        by (auto simp: in_use_def pids_def pid_consts)
      with none D(1) show False by (metis nth_mem)
    qed
  qed
  have "p \<in> pids \<Longrightarrow> pid_alloc_state m ! nat (p - MIN_PID) \<noteq> PID_IS_IN_USE"
    using unused by (auto simp: in_use_def)
  then show ?thesis
    using empty pid_count_le [OF inv] D(1)
    by (auto simp: release_pid_def pids_def pid_consts)
qed

interpretation pm: id_allocator allocate_pid release_pid pid_inv in_use pids
proof unfold_locales
  show "finite pids" "-1 \<notin> pids" by (simp_all add: pids_def pid_consts)
  show "in_use m \<subseteq> pids" for m by (auto simp: in_use_def)
  show "allocate_pid m = Inr (-1, m)" if "pid_inv m" "in_use m = pids" for m
    using that allocate_pid_full in_use_full_iff by blast
  show "\<exists>p m'. allocate_pid m = Inr (p, m') \<and> p \<in> pids - in_use m \<and>
      in_use m' = insert p (in_use m) \<and> pid_inv m'" if "pid_inv m" "in_use m \<noteq> pids" for m
    using that by (rule allocate_pid_fresh)
  show "\<exists>m'. release_pid p m = Inr m' \<and> in_use m' = in_use m - {p} \<and> pid_inv m'"
    if "pid_inv m" "p \<in> in_use m" for m p
    using that by (rule release_pid_used)
  show "\<exists>e. release_pid p m = Inl e" if "pid_inv m" "p \<notin> in_use m" for m p
    using release_pid_unused [OF that] by blast
qed

section \<open>The test program\<close>

lemma pid_mgr_init_inv: "pid_inv pid_mgr_init" "in_use pid_mgr_init = {}"
proof -
  show "pid_inv pid_mgr_init"
    by (simp add: pid_inv_def pid_mgr_init_def PID_IS_AVAILABLE_def PID_IS_IN_USE_def
        count_list_0_iff)
  show "in_use pid_mgr_init = {}"
    by (auto simp: in_use_def pids_def pid_mgr_init_def pid_consts)
qed

lemma drain_pids_full:
  assumes "pid_inv m"
  shows "\<exists>m'. drain_pids m = Some (Inr m') \<and> pid_inv m' \<and> in_use m' = pids"
  using assms
proof (induction "card (pids - in_use m)" arbitrary: m rule: less_induct)
  case less
  from less.prems show ?case
  proof (cases rule: pm.alloc_cases)
    case full
    with less.prems show ?thesis by (subst drain_pids.simps) simp
  next
    case (fresh p m')
    have "card (pids - in_use m') < card (pids - in_use m)"
      using pm.free_count_fresh [OF less.prems fresh(2,3,5)] by simp
    with less.hyps fresh(6) obtain m'' where
      "drain_pids m' = Some (Inr m'')" "pid_inv m''" "in_use m'' = pids" by blast
    with fresh show ?thesis by (subst drain_pids.simps) simp
  qed
qed

text \<open>When exactly one identifier is free, that is the one the next request gets.\<close>

lemma allocate_last_pid:
  assumes "pid_inv m" "p \<in> pids" "in_use m = pids - {p}"
  shows "\<exists>m'. allocate_pid m = Inr (p, m') \<and> pid_inv m' \<and> in_use m' = pids"
proof -
  have "in_use m \<noteq> pids" using assms(2,3) by blast
  with assms(1) obtain q m' where "allocate_pid m = Inr (q, m')" "q \<in> pids - in_use m"
    "in_use m' = insert q (in_use m)" "pid_inv m'"
    by (meson allocate_pid_fresh)
  with assms(2,3) show ?thesis by auto
qed

lemma release_then_allocate:
  assumes "pid_inv m" "in_use m = pids" "p \<in> pids"
  shows "\<exists>m1 m2. release_pid p m = Inr m1 \<and> allocate_pid m1 = Inr (p, m2) \<and>
     pid_inv m2 \<and> in_use m2 = pids"
  using release_pid_used [OF assms(1), of p] allocate_last_pid [of _ p] assms(2,3) by metis

lemma pp320_tail_result:
  assumes "pid_inv m" "in_use m = pids"
  shows "\<exists>m'. pp320_tail m = Inr (0, 500, 400, m') \<and> pid_inv m' \<and> in_use m' = pids"
proof -
  have mem: "500 \<in> pids" "400 \<in> pids" by (simp_all add: pids_def pid_consts)
  from release_then_allocate [OF assms mem(1)] obtain m1 m2 where
    1: "release_pid 500 m = Inr m1" "allocate_pid m1 = Inr (500, m2)" "pid_inv m2" "in_use m2 = pids"
    by blast
  from release_then_allocate [OF 1(3,4) mem(2)] obtain m3 m4 where
    "release_pid 400 m2 = Inr m3" "allocate_pid m3 = Inr (400, m4)" "pid_inv m4" "in_use m4 = pids"
    by blast
  with 1 show ?thesis by (simp add: pp320_tail_def)
qed

section \<open>Properties\<close>

text \<open>C20: A request on a consistent manager: when all 201 identifiers are in use it answers -1 and
  changes nothing; otherwise it hands out the first free identifier at or after the roving index
  (cyclically), which was not in use, marks exactly that one, and leaves the manager consistent.\<close>

theorem allocate_pid_correct:
  assumes "pid_inv m"
  shows "if in_use m = pids then allocate_pid m = Inr (-1, m)
    else \<exists>k < 201. \<exists>m'. let idx = \<lambda>j. (next_free_pid_index m + int j) mod 201 in
      (\<forall>j < k. idx j + MIN_PID \<in> in_use m) \<and> idx k + MIN_PID \<in> pids - in_use m \<and>
      allocate_pid m = Inr (idx k + MIN_PID, m') \<and>
      in_use m' = insert (idx k + MIN_PID) (in_use m) \<and>
      next_free_pid_index m' = idx (k + 1) \<and> pid_inv m'"
proof (cases "in_use m = pids")
  case True
  then show ?thesis using assms pm.alloc_full by simp
next
  case False
  have "pid_in_use_count m < 201"
    using in_use_full_iff [OF assms] False pid_count_le [OF assms] by auto
  from assms this obtain k where k: "k < 201"
    "\<forall>j < k. pid_alloc_state m ! nat ((next_free_pid_index m + int j) mod 201) = PID_IS_IN_USE"
    "allocate_pid m = Inr ((next_free_pid_index m + int k) mod 201 + MIN_PID,
       m\<lparr>pid_alloc_state := (pid_alloc_state m)
           [nat ((next_free_pid_index m + int k) mod 201) := PID_IS_IN_USE],
         pid_in_use_count := pid_in_use_count m + 1,
         next_free_pid_index := (next_free_pid_index m + int k + 1) mod 201\<rparr>)"
    by (rule allocate_pid_next_fit)
  have before: "(next_free_pid_index m + int j) mod 201 + MIN_PID \<in> in_use m" if "j < k" for j
    using k(2) that by (simp add: in_use_def pids_def MIN_PID_def MAX_PID_def)
  from allocate_pid_fresh [OF assms False] k(3) obtain m' where
    "allocate_pid m = Inr ((next_free_pid_index m + int k) mod 201 + MIN_PID, m')"
    "(next_free_pid_index m + int k) mod 201 + MIN_PID \<in> pids - in_use m"
    "in_use m' = insert ((next_free_pid_index m + int k) mod 201 + MIN_PID) (in_use m)" "pid_inv m'"
    "next_free_pid_index m' = (next_free_pid_index m + int (k + 1)) mod 201"
    by (fastforce simp: algebra_simps)
  then show ?thesis using False k(1) before by (auto simp: Let_def)
qed

theorem allocate_pid_correct_witness:
  "pid_inv pid_mgr_init \<and> (\<exists>p m'. allocate_pid pid_mgr_init = Inr (p, m') \<and> p \<in> pids \<and> pid_inv m')"
proof -
  have "in_use pid_mgr_init \<noteq> pids"
    unfolding pid_mgr_init_inv(2) by (simp add: pids_def pid_consts)
  with allocate_pid_correct [OF pid_mgr_init_inv(1)] show ?thesis
    using pid_mgr_init_inv(1) by (auto simp: Let_def)
qed

text \<open>C21: A release on a consistent manager frees exactly the identifier given when it is in use;
  every other argument stops the program at the assertion that guards it: line 74 when nothing is
  in use, line 77 when the argument is outside the range, line 83 when it is not in use.\<close>

theorem release_pid_correct:
  assumes "pid_inv m"
  shows "if p \<in> in_use m
    then \<exists>m'. release_pid p m = Inr m' \<and> in_use m' = in_use m - {p} \<and> pid_inv m' \<and>
           next_free_pid_index m' = next_free_pid_index m
    else release_pid p m = Inl (Assertion (if in_use m = {} then 74 else if p \<notin> pids then 77 else 83))"
proof (cases "p \<in> in_use m")
  case True
  from release_pid_used [OF assms True] obtain m' where
    m': "release_pid p m = Inr m'" "in_use m' = in_use m - {p}" "pid_inv m'" by blast
  moreover have "next_free_pid_index m' = next_free_pid_index m"
    using m'(1) by (auto simp: release_pid_def c_bind_Inr_iff split: if_splits)
  ultimately show ?thesis using True by simp
next
  case False
  with release_pid_unused [OF assms False] show ?thesis by simp
qed

theorem release_pid_correct_witness:
  "pid_inv pid_mgr_init \<and> release_pid 300 pid_mgr_init = Inl (Assertion 74)"
  using release_pid_correct [OF pid_mgr_init_inv(1), of 300] pid_mgr_init_inv by simp

text \<open>C22: The manager's state is well-formed and stays so: after any sequence of requests and releases from a consistent manager
  every byte of the array is 0 or 1, the index is inside the array and the counter is the number of bytes that are 1; the answers
  are identifiers in range or -1; and nothing stops the run but the three assertions of \<open>release_pid\<close> on a wrong argument, never
  an access outside the array, an overflow or an assertion of \<open>allocate_pid\<close>.\<close>

theorem pid_manager_type:
  assumes "pid_inv m"
  shows "case exec_ops allocate_pid release_pid ops m of
      Inr (ps, m') \<Rightarrow> pid_inv m' \<and> set ps \<subseteq> insert (-1) pids
    | Inl e \<Rightarrow> e \<in> Assertion ` {74, 77, 83}"
  using assms
proof (induction ops arbitrary: m)
  case (Cons op ops)
  show ?case
  proof (cases op)
    case Alloc
    obtain p m1 where m1: "allocate_pid m = Inr (p, m1)" "p \<in> insert (-1) pids" "pid_inv m1"
      using pm.alloc_cases [OF Cons.prems] Cons.prems by (metis insertCI)
    then show ?thesis using Alloc Cons.IH [OF m1(3)] by (auto split: sum.splits)
  next
    case (Free p)
    show ?thesis
    proof (cases "p \<in> in_use m")
      case True
      then obtain m1 where "release_pid p m = Inr m1" "pid_inv m1" using release_pid_used [OF Cons.prems] by blast
      then show ?thesis using Free Cons.IH by simp
    qed (use Free release_pid_unused [OF Cons.prems, of p] in simp)
  qed
qed simp

theorem pid_manager_type_witness:
  "pid_inv pid_mgr_init \<and> (\<exists>m. exec_ops allocate_pid release_pid [Alloc] pid_mgr_init = Inr ([300], m) \<and> pid_inv m \<and> 300 \<in> insert (-1) pids)"
proof -
  have "\<exists>m. exec_ops allocate_pid release_pid [Alloc] pid_mgr_init = Inr ([300], m)"
    by (subst exec_ops.simps) (simp add: allocate_pid_def pid_search.simps pid_mgr_init_def pid_consts)
  then obtain m where "exec_ops allocate_pid release_pid [Alloc] pid_mgr_init = Inr ([300], m)" by blast
  with pid_manager_type [OF pid_mgr_init_inv(1), of "[Alloc]"] show ?thesis using pid_mgr_init_inv(1) by auto
qed

text \<open>From any consistent manager, \<open>k\<close> requests in a row, for \<open>k\<close> at most the number of free
  identifiers, are all answered and the answers are \<open>k\<close> different identifiers that were free.\<close>

theorem allocations_distinct:
  assumes "pid_inv m" "k \<le> card (pids - in_use m)"
  shows "\<exists>ps m'. exec_ops allocate_pid release_pid (replicate k Alloc) m = Inr (ps, m') \<and>
    length ps = k \<and> distinct ps \<and> set ps \<subseteq> pids - in_use m \<and>
    in_use m' = in_use m \<union> set ps \<and> pid_inv m'"
  using assms by (rule pm.allocs_distinct)

theorem allocations_distinct_witness:
  "201 \<le> card (pids - in_use pid_mgr_init) \<and>
   (\<exists>ps m'. exec_ops allocate_pid release_pid (replicate 201 Alloc) pid_mgr_init = Inr (ps, m') \<and>
      length ps = 201 \<and> distinct ps)"
proof -
  have "201 \<le> card (pids - in_use pid_mgr_init)"
    unfolding pid_mgr_init_inv(2) by (simp add: pids_def pid_consts)
  with allocations_distinct [OF pid_mgr_init_inv(1) this] show ?thesis by blast
qed

text \<open>The test program ends: its loop drains the manager, then the release of 500 is answered by
  500 and the release of 400 by 400, every identifier is in use and the exit code is 0.\<close>

theorem pp320_main_result:
  "\<exists>m. pp320_main = Some (Inr (0, 500, 400, m)) \<and> pid_inv m \<and> in_use m = pids"
proof -
  from drain_pids_full [OF pid_mgr_init_inv(1)] obtain m where
    m: "drain_pids pid_mgr_init = Some (Inr m)" "pid_inv m" "in_use m = pids" by blast
  from pp320_tail_result [OF m(2,3)] m(1) show ?thesis by (auto simp: pp320_main_def)
qed

text \<open>The comment on the index ("always points to the next free PID if a free PID is
  available") does not hold: after the manager is drained and one identifier is released, a free
  identifier exists but the one at the index is in use.\<close>

theorem next_free_index_stale:
  "\<exists>m p m'. drain_pids pid_mgr_init = Some (Inr m) \<and> release_pid p m = Inr m' \<and>
     in_use m' = pids - {p} \<and> p \<in> pids \<and> next_free_pid_index m' + MIN_PID \<in> in_use m'"
proof -
  from drain_pids_full [OF pid_mgr_init_inv(1)] obtain m where
    m: "drain_pids pid_mgr_init = Some (Inr m)" "pid_inv m" "in_use m = pids" by blast
  define q where "q = next_free_pid_index m + MIN_PID"
  have q: "q \<in> pids" using pid_invD(3,4) [OF m(2)] by (simp add: q_def pids_def pid_consts)
  obtain p where p: "p \<in> pids" "p \<noteq> q"
  proof (cases "q = MIN_PID")
    case True
    then show thesis using that [of MAX_PID] by (simp add: pids_def pid_consts)
  next
    case False
    then show thesis using that [of MIN_PID] by (simp add: pids_def pid_consts)
  qed
  with release_pid_used [OF m(2), of p] m(3) obtain m' where
    m': "release_pid p m = Inr m'" "in_use m' = pids - {p}" by blast
  moreover have "next_free_pid_index m' = next_free_pid_index m"
    using m'(1) by (auto simp: release_pid_def c_bind_Inr_iff split: if_splits)
  ultimately have "next_free_pid_index m' + MIN_PID \<in> in_use m'" using p q by (simp add: q_def)
  with m(1) m' p(1) show ?thesis by blast
qed


end
