(* ===== verification/Posix_Sync.thy ===== *)
theory Posix_Sync
  imports OSC_Prelude
begin

text \<open>
  What the programs use of POSIX synchronisation. A mutex is its owner, a semaphore its value.
  A call that would block yields \<open>None\<close> from its enabling function, so that the thread's step
  is not possible in that state; a call that POSIX lets fail (an unlock by a thread that does
  not own the mutex, the destruction of a locked mutex, a post at the largest value) yields an
  error that the programs turn into \<open>assert(0)\<close>.
\<close>

type_synonym mutex = "tid option"

definition mutex_lock :: "tid \<Rightarrow> mutex \<Rightarrow> mutex option" where
  "mutex_lock t m = (if m = None then Some (Some t) else None)"

definition mutex_unlock :: "tid \<Rightarrow> mutex \<Rightarrow> mutex option" where
  "mutex_unlock t m = (if m = Some t then Some None else None)"

definition mutex_destroy_ok :: "mutex \<Rightarrow> bool" where
  "mutex_destroy_ok m \<longleftrightarrow> m = None"

type_synonym sem = nat

definition SEM_VALUE_MAX :: int where
  "SEM_VALUE_MAX = 2147483647"

definition sem_wait :: "sem \<Rightarrow> sem option" where
  "sem_wait n = (if 0 < n then Some (n - 1) else None)"

definition sem_post :: "sem \<Rightarrow> sem option" where
  "sem_post n = (if int n < SEM_VALUE_MAX then Some (n + 1) else None)"

text \<open>
  Initialising or destroying several objects one after the other: \<open>rc k\<close> is the return code of the
  \<open>k\<close>-th call, and a call that fails runs into the assertion at its line.
\<close>

fun checked_calls :: "(nat \<Rightarrow> int) \<Rightarrow> nat \<Rightarrow> nat list \<Rightarrow> unit c_result" where
  "checked_calls rc k [] = Inr ()"
| "checked_calls rc k (l # ls) = (if rc k \<noteq> 0 then Inl (Assertion l) else checked_calls rc (Suc k) ls)"

lemma checked_calls_ok: "checked_calls rc k ls = Inr () \<longleftrightarrow> (\<forall>j < length ls. rc (k + j) = 0)"
  by (induction ls arbitrary: k) (simp_all add: All_less_Suc2)

text \<open>The first call that fails decides.\<close>

lemma checked_calls_fail:
  "checked_calls rc k ls = Inl e \<longleftrightarrow>
     (\<exists>j < length ls. rc (k + j) \<noteq> 0 \<and> (\<forall>i < j. rc (k + i) = 0) \<and> e = Assertion (ls ! j))"
proof (induction ls arbitrary: k)
  case (Cons l ls)
  have "(\<exists>j < length (l # ls). rc (k + j) \<noteq> 0 \<and> (\<forall>i < j. rc (k + i) = 0) \<and> e = Assertion ((l # ls) ! j)) \<longleftrightarrow>
      (rc k \<noteq> 0 \<and> e = Assertion l) \<or> (rc k = 0 \<and>
        (\<exists>j < length ls. rc (Suc k + j) \<noteq> 0 \<and> (\<forall>i < j. rc (Suc k + i) = 0) \<and> e = Assertion (ls ! j)))"
    by (auto simp: Ex_less_Suc2 All_less_Suc2)
  with Cons.IH [of "Suc k"] show ?case by auto
qed simp

definition no_error :: "nat \<Rightarrow> int" where
  "no_error = (\<lambda>_. 0)"

lemma checked_calls_no_error [simp]: "checked_calls no_error k ls = Inr ()"
  by (simp add: checked_calls_ok no_error_def)

lemma checked_calls_eq_no_error:
  "(\<forall>j < length ls. rc (k + j) = 0) \<Longrightarrow> checked_calls rc k ls = checked_calls no_error k ls"
  using checked_calls_ok [of rc k ls] by simp

text \<open>
  A program whose main thread initialises its objects before anything else: \<open>lines\<close> are the assertions
  behind the calls, \<open>step rc\<close> the program when these calls return \<open>rc\<close>. If they all succeed the codes do
  not matter any more; otherwise the first step of the program is its last.
\<close>

locale initialised_system =
  fixes step :: "(nat \<Rightarrow> int) \<Rightarrow> 'e \<Rightarrow> 's \<Rightarrow> 's option"
    and s0 :: 's
    and lines :: "nat list"
    and stopped_by :: "c_abort \<Rightarrow> 's \<Rightarrow> bool"
  assumes succeeds: "checked_calls rc 0 lines = Inr () \<Longrightarrow> step rc = step no_error"
    and fails: "checked_calls rc 0 lines = Inl e \<Longrightarrow> step rc ev s0 = Some s \<Longrightarrow> stopped_by e s"
    and final: "stopped_by e s \<Longrightarrow> step rc ev s = None"
begin

lemma reachable_cases:
  assumes "reachable (step rc) s0 s"
  shows "reachable (step no_error) s0 s \<and> (s = s0 \<or> step rc = step no_error) \<or>
    (\<exists>e. checked_calls rc 0 lines = Inl e \<and> stopped_by e s)"
proof (cases "checked_calls rc 0 lines")
  case (Inl e)
  from assms have "s = s0 \<or> stopped_by e s"
  proof induction
    case (move s ev s')
    from move.IH move.hyps(2) have "s = s0" using final [of e s rc ev] by auto
    with fails [OF Inl] move.hyps(2) show ?case by blast
  qed simp
  then show ?thesis using Inl reachable.start [of "step no_error" s0] by auto
next
  case (Inr u)
  then have "step rc = step no_error" using succeeds [of rc] by simp
  then show ?thesis using assms by metis
qed

end

text \<open>
  A program whose threads look for their own identifier in an array. POSIX does not say whether
  \<open>pthread_create\<close> stores the identifier before the new thread runs: \<open>step True\<close> is the program when it
  does, \<open>step False\<close> when the thread is started first. Then \<open>stored s\<close> is the state \<open>s\<close> after the stores
  that are still to come, and \<open>lost s s'\<close> holds when in \<open>s\<close> a thread does not find itself and the program stops in \<open>s'\<close>. As long as no thread is lost, the late program does nothing that the other cannot do.
\<close>

locale late_identifiers = invariant_system "step True" s0 inv
  for step :: "bool \<Rightarrow> ('e, 's) system" and s0 :: 's and inv :: "'s \<Rightarrow> bool" +
  fixes stored :: "'s \<Rightarrow> 's" and lost :: "'s \<Rightarrow> 's \<Rightarrow> bool"
  assumes stored_init: "stored s0 = s0"
    and late_step: "inv (stored s) \<Longrightarrow> step False e s = Some s' \<Longrightarrow>
      lost s s' \<or> reachable (step True) (stored s) (stored s')"
    and lost_final: "lost r s \<Longrightarrow> step False e s = None"
begin

lemma reachable_stored:
  "reachable (step False) s0 s \<Longrightarrow> reachable (step True) s0 (stored s) \<or>
    (\<exists>r. lost r s \<and> reachable (step False) s0 r \<and> reachable (step True) s0 (stored r))"
proof (induction rule: reachable.induct)
  case start
  show ?case by (simp add: stored_init reachable.start)
next
  case (move s e s')
  then have r: "reachable (step True) s0 (stored s)" using lost_final by auto
  from late_step [OF reachable_inv [OF r] move.hyps(2)] show ?case
    using reachable_trans [OF _ r] r move.hyps(1) by metis
qed

text \<open>Both orders in one: the state that decides is reachable with the identifiers stored in time.\<close>

lemma reachable_order:
  assumes "reachable (step sf) s0 s"
  obtains (known) "sf" "inv s" "reachable (step True) s0 s"
  | (late) "\<not> sf" "inv (stored s)" "reachable (step True) s0 (stored s)"
  | (lost) r where "\<not> sf" "lost r s" "inv (stored r)" "reachable (step False) s0 r"
proof (cases sf)
  case True
  with assms known reachable_inv show thesis by simp
next
  case False
  with assms have "reachable (step False) s0 s" by simp
  from reachable_stored [OF this] show thesis using False late that(3) reachable_inv by blast
qed

end

lemma mutex_lock_eq_Some [simp]: "mutex_lock t m = Some m' \<longleftrightarrow> m = None \<and> m' = Some t"
  by (auto simp: mutex_lock_def)

lemma mutex_unlock_eq_Some [simp]: "mutex_unlock t m = Some m' \<longleftrightarrow> m = Some t \<and> m' = None"
  by (auto simp: mutex_unlock_def)

lemma mutex_lock_simps [simp]: "mutex_lock t None = Some (Some t)" "mutex_lock t (Some u) = None"
  by (simp_all add: mutex_lock_def)

lemma mutex_unlock_simps [simp]: "mutex_unlock t (Some t) = Some None"
  by (simp add: mutex_unlock_def)

lemma sem_wait_eq_Some [simp]: "sem_wait n = Some n' \<longleftrightarrow> n = Suc n'"
  by (auto simp: sem_wait_def)

lemma sem_wait_pos [simp]: "0 < n \<Longrightarrow> sem_wait n = Some (n - 1)"
  by (simp add: sem_wait_def)

lemma sem_post_eq_Some [simp]: "sem_post n = Some n' \<longleftrightarrow> n' = Suc n \<and> int n < SEM_VALUE_MAX"
  by (auto simp: sem_post_def)

lemma sem_post_ok [simp]: "int k < SEM_VALUE_MAX \<Longrightarrow> sem_post k = Some (Suc k)"
  by (simp add: sem_post_def)

end
