(* ===== verification/Pid_Threads.thy ===== *)
theory Pid_Threads
  imports Pid_Manager Posix_Sync
begin

text \<open>
  The multithreaded PID manager of \<open>ch5/problems/pp5_36\<close>: \<open>pid_manager.c\<close> with a mutex around
  both operations, and the program \<open>pp5.36.c\<close> whose main thread creates
  \<open>NUM_WORKER_THREADS\<close> workers, joins them and destroys the mutex. Every C statement that
  touches shared data is one step, so the interleavings of the model are the interleavings of
  the statements. \<open>worker_step\<close> is \<open>Worker_thread_func\<close> with \<open>allocate_pid\<close> and \<open>release_pid\<close>
  inlined at their calls, \<open>main_step\<close> is \<open>main\<close>.
\<close>

section \<open>State\<close>

definition NUM_WORKER_THREADS :: nat where
  "NUM_WORKER_THREADS = 500"

definition MAX_SLEEP_TIME :: int where
  "MAX_SLEEP_TIME = 7"

datatype worker_pc =
    W_unborn
  | W_cnt_read | W_cnt_write
  | A_lock | A_assert | A_full
  | A_loop | A_loop_inc | A_loop_wrap
  | A_found | A_mark | A_inc | A_ret | A_adv | A_wrap | A_unlock
  | W_got | W_sleep
  | R_lock | R_assert | R_assert_used | R_mark | R_dec | R_unlock
  | W_exited

datatype main_pc = M_init | M_create nat | M_join nat | M_cleanup | M_exit

record pt_state =
  mgr :: pid_mgr
  mtx :: mutex
  thread_counter :: int
  main_at :: main_pc
  at :: "tid \<Rightarrow> worker_pc"
  tmp :: "tid \<Rightarrow> int"
  iter_count :: "tid \<Rightarrow> int"
  ret_pid :: "tid \<Rightarrow> int"
  my_pid :: "tid \<Rightarrow> int"
  crashed :: bool

text \<open>An event is a step of main or of a worker; the worker's second component is the value a
  call of \<open>rand()\<close> in that step returns.\<close>

datatype pt_event = Main | Worker tid int

definition pt_init :: pt_state where
  "pt_init = \<lparr>mgr = pid_mgr_init, mtx = None, thread_counter = 0, main_at = M_init,
     at = (\<lambda>_. W_unborn), tmp = (\<lambda>_. 0), iter_count = (\<lambda>_. 0), ret_pid = (\<lambda>_. 0),
     my_pid = (\<lambda>_. 0), crashed = False\<rparr>"

section \<open>Steps\<close>

definition goto :: "tid \<Rightarrow> worker_pc \<Rightarrow> pt_state \<Rightarrow> pt_state" where
  "goto t p s = s\<lparr>at := (at s)(t := p)\<rparr>"

definition crash :: "pt_state \<Rightarrow> pt_state" where
  "crash s = s\<lparr>crashed := True\<rparr>"

definition check :: "bool \<Rightarrow> tid \<Rightarrow> worker_pc \<Rightarrow> pt_state \<Rightarrow> pt_state" where
  "check b t p s = (if b then goto t p s else crash s)"

text \<open>\<open>rand_sleep\<close>: the time slept, for the value \<open>r\<close> of \<open>rand()\<close>.\<close>

definition rand_sleep :: "int \<Rightarrow> bool \<Rightarrow> int \<Rightarrow> int c_result" where
  "rand_sleep mx use_rand r =
     (if \<not> mx > 0 then Inl (Assertion 94) else Inr (if use_rand then r mod mx + 1 else mx))"

text \<open>\<open>allocate_pid\<close>, lines 56 to 102, one statement per step.\<close>

definition alloc_step :: "tid \<Rightarrow> pt_state \<Rightarrow> pt_state option" where
  "alloc_step t s = (let m = mgr s in case at s t of
     A_lock \<Rightarrow> map_option (\<lambda>l. goto t A_assert (s\<lparr>mtx := l\<rparr>)) (mutex_lock t (mtx s))
   | A_assert \<Rightarrow> Some (check (0 \<le> pid_in_use_count m \<and> pid_in_use_count m \<le> PID_STATE_BUF_SIZE)
        t A_full s)
   | A_full \<Rightarrow> Some (if pid_in_use_count m \<ge> PID_STATE_BUF_SIZE
        then goto t A_unlock (s\<lparr>ret_pid := (ret_pid s)(t := -1)\<rparr>)
        else goto t A_loop (s\<lparr>iter_count := (iter_count s)(t := 0)\<rparr>))
   | A_loop \<Rightarrow> Some (case c_read (pid_alloc_state m) (next_free_pid_index m) of
        Inl e \<Rightarrow> crash s
      | Inr v \<Rightarrow> if v = PID_IS_IN_USE \<and> iter_count s t < PID_STATE_BUF_SIZE
          then goto t A_loop_inc (s\<lparr>iter_count := (iter_count s)(t := iter_count s t + 1)\<rparr>)
          else goto t A_found s)
   | A_loop_inc \<Rightarrow> Some (goto t A_loop_wrap
        (s\<lparr>mgr := m\<lparr>next_free_pid_index := next_free_pid_index m + 1\<rparr>\<rparr>))
   | A_loop_wrap \<Rightarrow> Some (goto t A_loop
        (s\<lparr>mgr := m\<lparr>next_free_pid_index := next_free_pid_index m mod PID_STATE_BUF_SIZE\<rparr>\<rparr>))
   | A_found \<Rightarrow> Some (case c_read (pid_alloc_state m) (next_free_pid_index m) of
        Inl e \<Rightarrow> crash s | Inr v \<Rightarrow> check (v = PID_IS_AVAILABLE) t A_mark s)
   | A_mark \<Rightarrow> Some (case c_write (pid_alloc_state m) (next_free_pid_index m) PID_IS_IN_USE of
        Inl e \<Rightarrow> crash s | Inr st \<Rightarrow> goto t A_inc (s\<lparr>mgr := m\<lparr>pid_alloc_state := st\<rparr>\<rparr>))
   | A_inc \<Rightarrow> Some (goto t A_ret (s\<lparr>mgr := m\<lparr>pid_in_use_count := pid_in_use_count m + 1\<rparr>\<rparr>))
   | A_ret \<Rightarrow> Some (goto t A_adv (s\<lparr>ret_pid := (ret_pid s)(t := next_free_pid_index m + MIN_PID)\<rparr>))
   | A_adv \<Rightarrow> Some (goto t A_wrap (s\<lparr>mgr := m\<lparr>next_free_pid_index := next_free_pid_index m + 1\<rparr>\<rparr>))
   | A_wrap \<Rightarrow> Some (goto t A_unlock
        (s\<lparr>mgr := m\<lparr>next_free_pid_index := next_free_pid_index m mod PID_STATE_BUF_SIZE\<rparr>\<rparr>))
   | A_unlock \<Rightarrow> Some (case mutex_unlock t (mtx s) of
        None \<Rightarrow> crash s
      | Some l \<Rightarrow> goto t W_got (s\<lparr>mtx := l, my_pid := (my_pid s)(t := ret_pid s t)\<rparr>))
   | _ \<Rightarrow> None)"

text \<open>\<open>release_pid\<close>, lines 109 to 136.\<close>

definition release_step :: "tid \<Rightarrow> pt_state \<Rightarrow> pt_state option" where
  "release_step t s = (let m = mgr s in case at s t of
     R_lock \<Rightarrow> map_option (\<lambda>l. goto t R_assert (s\<lparr>mtx := l\<rparr>)) (mutex_lock t (mtx s))
   | R_assert \<Rightarrow> Some (check (pid_in_use_count m > 0 \<and> pid_in_use_count m \<le> PID_STATE_BUF_SIZE \<and>
        my_pid s t \<ge> MIN_PID \<and> my_pid s t \<le> MAX_PID) t R_assert_used s)
   | R_assert_used \<Rightarrow> Some (case c_read (pid_alloc_state m) (my_pid s t - MIN_PID) of
        Inl e \<Rightarrow> crash s | Inr v \<Rightarrow> check (v = PID_IS_IN_USE) t R_mark s)
   | R_mark \<Rightarrow> Some (case c_write (pid_alloc_state m) (my_pid s t - MIN_PID) PID_IS_AVAILABLE of
        Inl e \<Rightarrow> crash s | Inr st \<Rightarrow> goto t R_dec (s\<lparr>mgr := m\<lparr>pid_alloc_state := st\<rparr>\<rparr>))
   | R_dec \<Rightarrow> Some (goto t R_unlock (s\<lparr>mgr := m\<lparr>pid_in_use_count := pid_in_use_count m - 1\<rparr>\<rparr>))
   | R_unlock \<Rightarrow> Some (case mutex_unlock t (mtx s) of
        None \<Rightarrow> crash s | Some l \<Rightarrow> goto t W_exited (s\<lparr>mtx := l\<rparr>))
   | _ \<Rightarrow> None)"

text \<open>\<open>Worker_thread_func\<close>: the counter increment is a read and a write.\<close>

definition worker_step :: "tid \<Rightarrow> int \<Rightarrow> pt_state \<Rightarrow> pt_state option" where
  "worker_step t r s = (case at s t of
     W_unborn \<Rightarrow> None
   | W_exited \<Rightarrow> None
   | W_cnt_read \<Rightarrow> Some (goto t W_cnt_write (s\<lparr>tmp := (tmp s)(t := thread_counter s)\<rparr>))
   | W_cnt_write \<Rightarrow> Some (goto t A_lock (s\<lparr>thread_counter := tmp s t + 1\<rparr>))
   | W_got \<Rightarrow> Some (goto t (if my_pid s t = -1 then W_exited else W_sleep) s)
   | W_sleep \<Rightarrow> if r < 0 then None else Some (case rand_sleep MAX_SLEEP_TIME True r of
        Inl e \<Rightarrow> crash s | Inr _ \<Rightarrow> goto t R_lock s)
   | R_lock \<Rightarrow> release_step t s
   | R_assert \<Rightarrow> release_step t s
   | R_assert_used \<Rightarrow> release_step t s
   | R_mark \<Rightarrow> release_step t s
   | R_dec \<Rightarrow> release_step t s
   | R_unlock \<Rightarrow> release_step t s
   | _ \<Rightarrow> alloc_step t s)"

text \<open>
  \<open>main\<close>: \<open>rc k\<close> is the return code of its \<open>k\<close>-th checked call, which initialise the mutex
  (\<open>allocate_map\<close>) and the attributes and create the threads. A join waits for the thread's exit;
  \<open>cleanup_state\<close> destroys the mutex.
\<close>

definition allocate_map_sync :: "(nat \<Rightarrow> int) \<Rightarrow> pt_state \<Rightarrow> pt_state c_result" where
  "allocate_map_sync rc s = c_bind (checked_calls rc 0 [41]) (\<lambda>_. Inr (s\<lparr>mtx := None\<rparr>))"

definition free_map_sync :: "pt_state \<Rightarrow> pt_state c_result" where
  "free_map_sync s = (if mutex_destroy_ok (mtx s) then Inr s else Inl (Assertion 30))"

definition init_state :: "(nat \<Rightarrow> int) \<Rightarrow> pt_state \<Rightarrow> pt_state c_result" where
  "init_state rc s = c_bind (allocate_map_sync rc s) (\<lambda>s. Inr (s\<lparr>thread_counter := 0\<rparr>))"

lemmas start_defs = init_state_def allocate_map_sync_def free_map_sync_def

definition main_step :: "(nat \<Rightarrow> int) \<Rightarrow> pt_state \<Rightarrow> pt_state option" where
  "main_step rc s = (case main_at s of
     M_init \<Rightarrow> Some (case c_bind (init_state rc s) (\<lambda>s. c_bind (checked_calls rc 1 [59]) (\<lambda>_. Inr s)) of
       Inl e \<Rightarrow> crash s | Inr s' \<Rightarrow> s'\<lparr>main_at := M_create 0\<rparr>)
   | M_create i \<Rightarrow> Some (
       if i < NUM_WORKER_THREADS
       then if rc (i + 2) \<noteq> 0 then crash s
            else s\<lparr>at := (at s)(i := W_cnt_read), main_at := M_create (i + 1)\<rparr>
       else s\<lparr>main_at := M_join 0\<rparr>)
   | M_join i \<Rightarrow>
       if i < NUM_WORKER_THREADS
       then if at s i = W_exited then Some (s\<lparr>main_at := M_join (i + 1)\<rparr>) else None
       else Some (s\<lparr>main_at := M_cleanup\<rparr>)
   | M_cleanup \<Rightarrow> Some (case free_map_sync s of Inl e \<Rightarrow> crash s | Inr s' \<Rightarrow> s'\<lparr>main_at := M_exit\<rparr>)
   | M_exit \<Rightarrow> None)"

fun pt_step :: "(nat \<Rightarrow> int) \<Rightarrow> pt_event \<Rightarrow> pt_state \<Rightarrow> pt_state option" where
  "pt_step rc Main s = (if crashed s then None else main_step rc s)"
| "pt_step rc (Worker t r) s = (if crashed s then None else worker_step t r s)"

section \<open>Invariant\<close>

text \<open>
  The statements between a lock and the matching unlock, and the slot a thread owns: from the
  moment its slot is marked until the statement that marks it available again.
\<close>

definition in_cs :: "worker_pc \<Rightarrow> bool" where
  "in_cs p \<longleftrightarrow> p \<in> {A_assert, A_full, A_loop, A_loop_inc, A_loop_wrap, A_found, A_mark, A_inc,
     A_ret, A_adv, A_wrap, A_unlock, R_assert, R_assert_used, R_mark, R_dec, R_unlock}"

definition slot_of :: "worker_pc \<Rightarrow> int \<Rightarrow> int \<Rightarrow> int \<Rightarrow> int option" where
  "slot_of p idx ret my = (case p of
     A_inc \<Rightarrow> Some idx
   | A_ret \<Rightarrow> Some idx
   | A_adv \<Rightarrow> Some (ret - MIN_PID)
   | A_wrap \<Rightarrow> Some (ret - MIN_PID)
   | A_unlock \<Rightarrow> if ret = -1 then None else Some (ret - MIN_PID)
   | W_got \<Rightarrow> if my = -1 then None else Some (my - MIN_PID)
   | W_sleep \<Rightarrow> Some (my - MIN_PID)
   | R_lock \<Rightarrow> Some (my - MIN_PID)
   | R_assert \<Rightarrow> Some (my - MIN_PID)
   | R_assert_used \<Rightarrow> Some (my - MIN_PID)
   | R_mark \<Rightarrow> Some (my - MIN_PID)
   | _ \<Rightarrow> None)"

definition owned :: "pt_state \<Rightarrow> tid \<Rightarrow> int option" where
  "owned s t = slot_of (at s t) (next_free_pid_index (mgr s)) (ret_pid s t) (my_pid s t)"

text \<open>Some free slot lies \<open>k\<close> places from the index and within the bound of the loop.\<close>

definition free_ahead :: "int list \<Rightarrow> int \<Rightarrow> int \<Rightarrow> bool" where
  "free_ahead st idx it \<longleftrightarrow> 0 \<le> it \<and>
     (\<exists>k::nat. it + int k < 201 \<and> st ! nat ((idx + int k) mod 201) \<noteq> PID_IS_IN_USE)"

definition counted :: "pid_mgr \<Rightarrow> int \<Rightarrow> bool" where
  "counted m d \<longleftrightarrow> pid_in_use_count m + d = int (count_list (pid_alloc_state m) PID_IS_IN_USE)"

definition index_ok :: "pid_mgr \<Rightarrow> bool" where
  "index_ok m \<longleftrightarrow> 0 \<le> next_free_pid_index m \<and> next_free_pid_index m < 201"

definition shape :: "pid_mgr \<Rightarrow> bool" where
  "shape m \<longleftrightarrow> length (pid_alloc_state m) = 201 \<and>
     set (pid_alloc_state m) \<subseteq> {PID_IS_AVAILABLE, PID_IS_IN_USE}"

text \<open>What the thread inside the critical section knows of the manager at each statement.\<close>

definition mgr_at :: "worker_pc \<Rightarrow> pid_mgr \<Rightarrow> int \<Rightarrow> bool" where
  "mgr_at p m it = (let i = next_free_pid_index m; st = pid_alloc_state m in case p of
     A_loop \<Rightarrow> counted m 0 \<and> index_ok m \<and> free_ahead st i it
   | A_loop_inc \<Rightarrow> counted m 0 \<and> index_ok m \<and> free_ahead st (i + 1) it
   | A_loop_wrap \<Rightarrow> counted m 0 \<and> 0 \<le> i \<and> free_ahead st i it
   | A_found \<Rightarrow> counted m 0 \<and> index_ok m \<and> st ! nat i = PID_IS_AVAILABLE
   | A_mark \<Rightarrow> counted m 0 \<and> index_ok m \<and> st ! nat i = PID_IS_AVAILABLE
   | A_inc \<Rightarrow> counted m 1 \<and> index_ok m
   | A_wrap \<Rightarrow> counted m 0 \<and> 0 \<le> i
   | R_dec \<Rightarrow> counted m (-1) \<and> index_ok m
   | _ \<Rightarrow> counted m 0 \<and> index_ok m)"

definition mgr_ok :: "pt_state \<Rightarrow> bool" where
  "mgr_ok s \<longleftrightarrow> shape (mgr s) \<and>
     (case mtx s of None \<Rightarrow> counted (mgr s) 0 \<and> index_ok (mgr s)
      | Some h \<Rightarrow> mgr_at (at s h) (mgr s) (iter_count s h))"

definition owners_ok :: "pt_state \<Rightarrow> bool" where
  "owners_ok s \<longleftrightarrow>
     (\<forall>t i. owned s t = Some i \<longrightarrow>
        0 \<le> i \<and> i < 201 \<and> pid_alloc_state (mgr s) ! nat i = PID_IS_IN_USE) \<and>
     (\<forall>t u i. owned s t = Some i \<longrightarrow> owned s u = Some i \<longrightarrow> t = u) \<and>
     (\<forall>i < 201. pid_alloc_state (mgr s) ! i = PID_IS_IN_USE \<longrightarrow> (\<exists>t. owned s t = Some (int i)))"

definition ret_at :: "worker_pc \<Rightarrow> int \<Rightarrow> int \<Rightarrow> bool" where
  "ret_at p ret my = (case p of
     A_adv \<Rightarrow> ret \<noteq> -1
   | A_wrap \<Rightarrow> ret \<noteq> -1
   | W_sleep \<Rightarrow> my \<noteq> -1
   | R_lock \<Rightarrow> my \<noteq> -1
   | R_assert \<Rightarrow> my \<noteq> -1
   | R_assert_used \<Rightarrow> my \<noteq> -1
   | R_mark \<Rightarrow> my \<noteq> -1
   | _ \<Rightarrow> True)"

definition ret_ok :: "pt_state \<Rightarrow> bool" where
  "ret_ok s \<longleftrightarrow> (\<forall>t. ret_at (at s t) (ret_pid s t) (my_pid s t))"

definition lock_ok :: "pt_state \<Rightarrow> bool" where
  "lock_ok s \<longleftrightarrow> (\<forall>t. in_cs (at s t) \<longleftrightarrow> mtx s = Some t)"

definition main_ok :: "pt_state \<Rightarrow> bool" where
  "main_ok s \<longleftrightarrow> (\<forall>t \<ge> NUM_WORKER_THREADS. at s t = W_unborn) \<and>
     (case main_at s of
        M_init \<Rightarrow> \<forall>t. at s t = W_unborn
      | M_create i \<Rightarrow> i \<le> NUM_WORKER_THREADS \<and> (\<forall>t. at s t = W_unborn \<longleftrightarrow> i \<le> t)
      | M_join i \<Rightarrow> i \<le> NUM_WORKER_THREADS \<and> (\<forall>t < NUM_WORKER_THREADS. at s t \<noteq> W_unborn) \<and>
          (\<forall>t < i. at s t = W_exited)
      | _ \<Rightarrow> \<forall>t < NUM_WORKER_THREADS. at s t = W_exited)"

definition pt_inv :: "pt_state \<Rightarrow> bool" where
  "pt_inv s \<longleftrightarrow> \<not> crashed s \<and> lock_ok s \<and> mgr_ok s \<and> owners_ok s \<and> ret_ok s \<and> main_ok s"

lemmas pc_defs = goto_def crash_def check_def alloc_step_def release_step_def worker_step_def
  main_step_def Let_def

lemma pt_in_cs_simps [simp]:
  "in_cs A_assert" "in_cs A_full" "in_cs A_loop" "in_cs A_loop_inc" "in_cs A_loop_wrap"
  "in_cs A_found" "in_cs A_mark" "in_cs A_inc" "in_cs A_ret" "in_cs A_adv" "in_cs A_wrap"
  "in_cs A_unlock" "in_cs R_assert" "in_cs R_assert_used" "in_cs R_mark" "in_cs R_dec"
  "in_cs R_unlock" "\<not> in_cs W_unborn" "\<not> in_cs W_cnt_read" "\<not> in_cs W_cnt_write" "\<not> in_cs A_lock"
  "\<not> in_cs W_got" "\<not> in_cs W_sleep" "\<not> in_cs R_lock" "\<not> in_cs W_exited"
  by (simp_all add: in_cs_def)

lemma slot_of_outside: "\<not> in_cs p \<Longrightarrow> slot_of p i r m = slot_of p j r m"
  by (cases p) (simp_all add: slot_of_def)

lemma pt_inv_init: "pt_inv pt_init"
  using pid_mgr_init_inv(1)
  by (auto simp: pt_inv_def pt_init_def lock_ok_def mgr_ok_def owners_ok_def ret_ok_def ret_at_def main_ok_def
      owned_def slot_of_def pid_inv_def shape_def counted_def index_ok_def pid_mgr_init_def pid_consts)


lemma pt_lock_okD: "lock_ok s \<Longrightarrow> in_cs (at s t) \<longleftrightarrow> mtx s = Some t"
  by (simp add: lock_ok_def)


lemma worker_lock_ok:
  assumes "lock_ok s" "worker_step t r s = Some s'"
  shows "lock_ok s'"
  unfolding lock_ok_def
proof
  fix u
  show "in_cs (at s' u) \<longleftrightarrow> mtx s' = Some u"
    using assms(2) pt_lock_okD [OF assms(1), of t] pt_lock_okD [OF assms(1), of u]
    by (cases "at s t"; cases "u = t")
       (auto simp: pc_defs split: if_splits sum.splits option.splits)
qed

lemma worker_move:
  assumes "worker_step t r s = Some s'"
  shows "at s t \<noteq> W_unborn" "at s t \<noteq> W_exited" "main_at s' = main_at s" "at s' t \<noteq> W_unborn"
    "u \<noteq> t \<Longrightarrow> at s' u = at s u" 
  using assms
  by (cases "at s t"; auto simp: pc_defs split: if_splits sum.splits option.splits)+

lemma worker_main_ok:
  assumes "main_ok s" "worker_step t r s = Some s'"
  shows "main_ok s'"
proof -
  note m = worker_move [OF assms(2)]
  have "at s' u = W_unborn \<longleftrightarrow> at s u = W_unborn" "at s u = W_exited \<Longrightarrow> at s' u = W_exited" for u
    using m(1,2,4,5) by (cases "u = t"; auto)+
  with assms(1) m(3) show ?thesis
    by (auto simp: main_ok_def split: main_pc.splits)
qed
lemma shape_nth:
  "shape m \<Longrightarrow> i < 201 \<Longrightarrow>
    pid_alloc_state m ! i \<noteq> PID_IS_IN_USE \<Longrightarrow> pid_alloc_state m ! i = PID_IS_AVAILABLE"
  unfolding shape_def by (metis insertE nth_mem singletonD subset_iff)

lemma free_ahead_advance:
  assumes "free_ahead st i it" "st ! nat i = PID_IS_IN_USE" "0 \<le> i" "i < 201"
  shows "free_ahead st (i + 1) (it + 1)" "it < 201"
proof -
  from assms(1) obtain k :: nat where k: "0 \<le> it" "it + int k < 201"
    "st ! nat ((i + int k) mod 201) \<noteq> PID_IS_IN_USE" by (auto simp: free_ahead_def)
  then show "it < 201" by simp
  from k assms(2-4) obtain j where "k = Suc j" by (cases k) auto
  with k show "free_ahead st (i + 1) (it + 1)"
    unfolding free_ahead_def by (auto intro!: exI [of _ j] simp: algebra_simps)
qed

lemma free_ahead_mod: "free_ahead st (i mod 201) it = free_ahead st i it"
  by (simp add: free_ahead_def mod_simps)

lemma free_ahead_start:
  assumes "shape m" "counted m 0" "index_ok m" "pid_in_use_count m < 201"
  shows "free_ahead (pid_alloc_state m) (next_free_pid_index m) 0"
proof -
  have "count_list (pid_alloc_state m) PID_IS_IN_USE < 201"
    using assms(2,4) by (simp add: counted_def)
  then obtain k where "k < 201" "pid_alloc_state m !
      nat ((next_free_pid_index m + int k) mod 201) \<noteq> PID_IS_IN_USE"
    using next_free_exists [of "pid_alloc_state m"] assms(1,3) unfolding shape_def index_ok_def
    by metis
  then show ?thesis unfolding free_ahead_def by (auto intro!: exI [of _ k])
qed

lemma free_ahead_bound: "free_ahead st i it \<Longrightarrow> it < 201"
  by (auto simp: free_ahead_def)

lemma shape_update:
  "shape m \<Longrightarrow> v \<in> {PID_IS_AVAILABLE, PID_IS_IN_USE} \<Longrightarrow>
    shape (m\<lparr>pid_alloc_state := (pid_alloc_state m)[i := v]\<rparr>)"
  unfolding shape_def using set_list_update_subset [of "pid_alloc_state m"] by simp

lemma counted_mark:
  "shape m \<Longrightarrow> counted m 0 \<Longrightarrow> index_ok m \<Longrightarrow>
    pid_alloc_state m ! nat (next_free_pid_index m) = PID_IS_AVAILABLE \<Longrightarrow>
    counted (m\<lparr>pid_alloc_state :=
      (pid_alloc_state m)[nat (next_free_pid_index m) := PID_IS_IN_USE]\<rparr>) 1"
  by (simp add: counted_def shape_def index_ok_def count_list_update nat_less_iff)

lemma counted_unmark:
  assumes "shape m" "counted m 0" "0 \<le> i" "i < 201" "pid_alloc_state m ! nat i = PID_IS_IN_USE"
  shows "counted (m\<lparr>pid_alloc_state := (pid_alloc_state m)[nat i := PID_IS_AVAILABLE]\<rparr>) (-1)"
proof -
  have "0 < count_list (pid_alloc_state m) PID_IS_IN_USE"
    by (rule count_list_pos [of "nat i"]) (use assms in \<open>simp_all add: shape_def nat_less_iff\<close>)
  then show ?thesis using assms
    by (simp add: counted_def shape_def count_list_update nat_less_iff of_nat_diff)
qed


lemma worker_no_crash:
  assumes "pt_inv s" "worker_step t r s = Some s'"
  shows "\<not> crashed s'"
proof -
  have inv: "\<not> crashed s" "in_cs (at s t) \<longleftrightarrow> mtx s = Some t" "mgr_ok s" "owners_ok s"
    using assms(1) pt_lock_okD by (auto simp: pt_inv_def)
  then have own: "owned s t = Some i \<Longrightarrow>
      0 \<le> i \<and> i < 201 \<and> pid_alloc_state (mgr s) ! nat i = PID_IS_IN_USE" for i
    by (auto simp: owners_ok_def)
  have pos: "0 \<le> i \<Longrightarrow> i < 201 \<Longrightarrow> pid_alloc_state (mgr s) ! nat i = PID_IS_IN_USE \<Longrightarrow>
      0 < count_list (pid_alloc_state (mgr s)) PID_IS_IN_USE" for i
    using inv(3) count_list_pos [of "nat i" "pid_alloc_state (mgr s)" PID_IS_IN_USE] by (simp add: mgr_ok_def shape_def nat_less_iff)
  have le: "count_list (pid_alloc_state (mgr s)) PID_IS_IN_USE \<le> 201"
    using inv(3) count_le_length [of "pid_alloc_state (mgr s)" PID_IS_IN_USE]
    by (simp add: mgr_ok_def shape_def)
  show ?thesis
    using assms(2) inv(1,2,3) own pos [of "my_pid s t - MIN_PID"] le
    by (cases "at s t")
      (auto simp: pc_defs mgr_ok_def mgr_at_def owned_def slot_of_def shape_def counted_def index_ok_def rand_sleep_def
         MAX_SLEEP_TIME_def pids_def MIN_PID_def MAX_PID_def
         split: if_splits sum.splits option.splits)
qed


lemma mgr_at_simps [simp]:
  "mgr_at A_assert m it = (counted m 0 \<and> index_ok m)"
  "mgr_at A_full m it = (counted m 0 \<and> index_ok m)"
  "mgr_at A_loop m it = (counted m 0 \<and> index_ok m \<and>
     free_ahead (pid_alloc_state m) (next_free_pid_index m) it)"
  "mgr_at A_loop_inc m it = (counted m 0 \<and> index_ok m \<and>
     free_ahead (pid_alloc_state m) (next_free_pid_index m + 1) it)"
  "mgr_at A_loop_wrap m it = (counted m 0 \<and> 0 \<le> next_free_pid_index m \<and>
     free_ahead (pid_alloc_state m) (next_free_pid_index m) it)"
  "mgr_at A_found m it = (counted m 0 \<and> index_ok m \<and>
     pid_alloc_state m ! nat (next_free_pid_index m) = PID_IS_AVAILABLE)"
  "mgr_at A_mark m it = (counted m 0 \<and> index_ok m \<and>
     pid_alloc_state m ! nat (next_free_pid_index m) = PID_IS_AVAILABLE)"
  "mgr_at A_inc m it = (counted m 1 \<and> index_ok m)"
  "mgr_at A_ret m it = (counted m 0 \<and> index_ok m)"
  "mgr_at A_adv m it = (counted m 0 \<and> index_ok m)"
  "mgr_at A_wrap m it = (counted m 0 \<and> 0 \<le> next_free_pid_index m)"
  "mgr_at A_unlock m it = (counted m 0 \<and> index_ok m)"
  "mgr_at R_assert m it = (counted m 0 \<and> index_ok m)"
  "mgr_at R_assert_used m it = (counted m 0 \<and> index_ok m)"
  "mgr_at R_mark m it = (counted m 0 \<and> index_ok m)"
  "mgr_at R_dec m it = (counted m (-1) \<and> index_ok m)"
  "mgr_at R_unlock m it = (counted m 0 \<and> index_ok m)"
  by (simp_all add: mgr_at_def Let_def)

lemma mgr_atD:
  assumes "mgr_ok s" "lock_ok s" "in_cs (at s t)"
  shows "mtx s = Some t" "mgr_at (at s t) (mgr s) (iter_count s t)" "shape (mgr s)"
  using assms pt_lock_okD [of s t] by (auto simp: mgr_ok_def)

lemma mgr_parts_simps [simp]:
  "counted (m\<lparr>next_free_pid_index := i\<rparr>) d = counted m d"
  "counted (m\<lparr>pid_in_use_count := c\<rparr>) d =
     (c + d = int (count_list (pid_alloc_state m) PID_IS_IN_USE))"
  "index_ok (m\<lparr>next_free_pid_index := i\<rparr>) = (0 \<le> i \<and> i < 201)"
  "index_ok (m\<lparr>pid_in_use_count := c\<rparr>) = index_ok m"
  "index_ok (m\<lparr>pid_alloc_state := st\<rparr>) = index_ok m"
  "shape (m\<lparr>next_free_pid_index := i\<rparr>) = shape m"
  "shape (m\<lparr>pid_in_use_count := c\<rparr>) = shape m"
  by (simp_all add: counted_def index_ok_def shape_def)

lemma worker_mgr_ok:
  assumes "pt_inv s" "worker_step t r s = Some s'"
  shows "mgr_ok s'"
proof -
  have inv: "lock_ok s" "mgr_ok s" "owners_ok s" "ret_ok s" using assms(1) by (auto simp: pt_inv_def)
  have own: "owned s t = Some i \<Longrightarrow>
      0 \<le> i \<and> i < 201 \<and> pid_alloc_state (mgr s) ! nat i = PID_IS_IN_USE" for i
    using inv(3) by (auto simp: owners_ok_def)
  show ?thesis
  proof (cases "in_cs (at s t)")
    case True
    note D = mgr_atD [OF inv(2,1) True]
    have len: "length (pid_alloc_state (mgr s)) = 201" using D(3) by (simp add: shape_def)
    have slot: "index_ok (mgr s) \<Longrightarrow>
        pid_alloc_state (mgr s) ! nat (next_free_pid_index (mgr s)) \<noteq> PID_IS_IN_USE \<Longrightarrow>
        pid_alloc_state (mgr s) ! nat (next_free_pid_index (mgr s)) = PID_IS_AVAILABLE"
      using shape_nth [OF D(3)] by (simp add: index_ok_def nat_less_iff)
    have start: "counted (mgr s) 0 \<Longrightarrow> index_ok (mgr s) \<Longrightarrow> pid_in_use_count (mgr s) < 201 \<Longrightarrow>
        free_ahead (pid_alloc_state (mgr s)) (next_free_pid_index (mgr s)) 0"
      using free_ahead_start [OF D(3)] .
    note step = assms(2) and simps = pc_defs mgr_ok_def
    show ?thesis
    proof (cases "at s t")
      case A_full
      with D start step show ?thesis by (auto simp: simps)
    next
      case A_loop
      with D have c: "counted (mgr s) 0" "index_ok (mgr s)"
        "free_ahead (pid_alloc_state (mgr s)) (next_free_pid_index (mgr s)) (iter_count s t)" by auto
      then show ?thesis
        using A_loop D(1,3) step len slot free_ahead_advance(1) [OF c(3)] free_ahead_bound [OF c(3)]
        by (auto simp: simps index_ok_def split: if_splits)
    next
      case A_mark
      with D step len counted_mark [OF D(3)] shape_update [OF D(3)] show ?thesis
        by (auto simp: simps index_ok_def)
    next
      case R_mark
      with own [of "my_pid s t - MIN_PID"] have "0 \<le> my_pid s t - MIN_PID" "my_pid s t - MIN_PID < 201"
        "pid_alloc_state (mgr s) ! nat (my_pid s t - MIN_PID) = PID_IS_IN_USE"
        by (simp_all add: owned_def slot_of_def)
      with R_mark D step len counted_unmark [OF D(3)] shape_update [OF D(3)] show ?thesis
        by (auto simp: simps)
    qed (use D step True in \<open>auto simp: simps free_ahead_mod index_ok_def counted_def
           split: if_splits sum.splits option.splits\<close>)
  next
    case False
    then have "mtx s \<noteq> Some t" using pt_lock_okD [OF inv(1)] by simp
    with assms(2) inv(2) False show ?thesis
      by (cases "at s t")
        (auto simp: pc_defs mgr_ok_def split: if_splits sum.splits option.splits)
  qed
qed

lemma worker_ret_ok:
  assumes "pt_inv s" "worker_step t r s = Some s'"
  shows "ret_ok s'"
  unfolding ret_ok_def
proof
  fix u
  have inv: "ret_at (at s v) (ret_pid s v) (my_pid s v)" for v
    using assms(1) by (simp add: pt_inv_def ret_ok_def)
  have idx: "at s t = A_ret \<Longrightarrow> 0 \<le> next_free_pid_index (mgr s)"
    using assms(1) mgr_atD(2) [of s t] by (auto simp: pt_inv_def index_ok_def)
  show "ret_at (at s' u) (ret_pid s' u) (my_pid s' u)"
  proof (cases "u = t")
    case True
    with assms(2) inv [of t] idx show ?thesis
      by (cases "at s t")
        (auto simp: ret_at_def pc_defs MIN_PID_def split: if_splits sum.splits option.splits)
  next
    case False
    with assms(2) inv [of u] show ?thesis
      by (cases "at s t") (auto simp: pc_defs split: if_splits sum.splits option.splits)
  qed
qed

lemma owned_other:
  assumes "lock_ok s" "worker_step t r s = Some s'" "u \<noteq> t"
  shows "owned s' u = owned s u"
  using assms pt_lock_okD [OF assms(1), of t] pt_lock_okD [OF assms(1), of u] slot_of_outside [of "at s u"]
  by (cases "at s t"; cases "in_cs (at s u)")
    (auto simp: pc_defs owned_def split: if_splits sum.splits option.splits)

lemma slot_of_none [simp]:
  "slot_of W_unborn i r m = None" "slot_of W_cnt_read i r m = None" "slot_of W_exited i r m = None"
  by (simp_all add: slot_of_def)

lemma owners_okD:
  assumes "owners_ok s"
  shows "owned s t = Some i \<Longrightarrow> 0 \<le> i \<and> i < 201 \<and> pid_alloc_state (mgr s) ! nat i = PID_IS_IN_USE"
    "owned s t = Some i \<Longrightarrow> owned s u = Some i \<Longrightarrow> t = u"
    "j < 201 \<Longrightarrow> pid_alloc_state (mgr s) ! j = PID_IS_IN_USE \<Longrightarrow> \<exists>t. owned s t = Some (int j)"
  using assms unfolding owners_ok_def by blast+

text \<open>
  What a step does to the ownership of slots: nothing, or it takes an available slot, or it
  gives up the slot the thread owns.
\<close>

lemma worker_slot:
  assumes "pt_inv s" "worker_step t r s = Some s'"
  obtains (same) "owned s' t = owned s t" "pid_alloc_state (mgr s') = pid_alloc_state (mgr s)"
  | (take) i where "0 \<le> i" "i < 201" "pid_alloc_state (mgr s) ! nat i = PID_IS_AVAILABLE"
      "owned s t = None" "owned s' t = Some i"
      "pid_alloc_state (mgr s') = (pid_alloc_state (mgr s))[nat i := PID_IS_IN_USE]"
  | (give) i where "owned s t = Some i" "owned s' t = None"
      "pid_alloc_state (mgr s') = (pid_alloc_state (mgr s))[nat i := PID_IS_AVAILABLE]"
proof -
  have inv: "lock_ok s" "mgr_ok s" "owners_ok s" "ret_at (at s t) (ret_pid s t) (my_pid s t)"
    using assms(1) by (auto simp: pt_inv_def ret_ok_def)
  show thesis
  proof (cases "at s t = A_mark \<or> at s t = R_mark")
    case True
    then have cs: "in_cs (at s t)" by auto
    note D = mgr_atD [OF inv(2,1) cs]
    have len: "length (pid_alloc_state (mgr s)) = 201" using D(3) by (simp add: shape_def)
    from True show thesis
    proof
      assume "at s t = A_mark"
      with D len assms(2) show thesis
        by (intro take [of "next_free_pid_index (mgr s)"])
          (auto simp: pc_defs owned_def slot_of_def index_ok_def)
    next
      assume R: "at s t = R_mark"
      then have "owned s t = Some (my_pid s t - MIN_PID)" by (simp add: owned_def slot_of_def)
      moreover from this have "0 \<le> my_pid s t - MIN_PID" "my_pid s t - MIN_PID < 201"
        using owners_okD(1) [OF inv(3), of t "my_pid s t - MIN_PID"] by auto
      ultimately show thesis
        using R len assms(2)
        by (intro give [of "my_pid s t - MIN_PID"]) (auto simp: pc_defs owned_def slot_of_def)
    qed
  next
    case False
    with assms(2) inv(4) show thesis
      by (intro same; cases "at s t")
        (auto simp: pc_defs owned_def slot_of_def ret_at_def MIN_PID_def
          split: if_splits sum.splits option.splits)
  qed
qed

lemma owners_ok_same:
  assumes "owners_ok s" "owned s' = owned s" "pid_alloc_state (mgr s') = pid_alloc_state (mgr s)"
  shows "owners_ok s'"
  using assms by (simp add: owners_ok_def)

lemma owners_ok_take:
  assumes "owners_ok s" "length (pid_alloc_state (mgr s)) = 201" "0 \<le> i" "i < 201"
    "pid_alloc_state (mgr s) ! nat i = PID_IS_AVAILABLE"
    "owned s' = (owned s)(t := Some i)" "owned s t = None"
    "pid_alloc_state (mgr s') = (pid_alloc_state (mgr s))[nat i := PID_IS_IN_USE]"
  shows "owners_ok s'"
proof -
  have free: "owned s u \<noteq> Some i" for u
    using owners_okD(1) [OF assms(1), of u i] assms(5) by auto
  show ?thesis unfolding owners_ok_def
  proof (intro conjI allI impI)
    fix u j assume "owned s' u = Some j"
    then show "0 \<le> j" "j < 201" "pid_alloc_state (mgr s') ! nat j = PID_IS_IN_USE"
      using owners_okD(1) [OF assms(1), of u j] assms(2-4,6,8)
      by (auto split: if_splits simp: nth_list_update nat_less_iff)
  next
    fix u v j assume "owned s' u = Some j" "owned s' v = Some j"
    then show "u = v"
      using owners_okD(2) [OF assms(1), of u j v] free assms(6) by (auto split: if_splits)
  next
    fix j :: nat assume "j < 201" "pid_alloc_state (mgr s') ! j = PID_IS_IN_USE"
    then show "\<exists>u. owned s' u = Some (int j)"
    proof (cases "j = nat i")
      case True
      with assms(3,6) show ?thesis by (intro exI [of _ t]) simp
    next
      case False
      with owners_okD(3) [OF assms(1), of j] \<open>j < 201\<close> \<open>pid_alloc_state (mgr s') ! j = PID_IS_IN_USE\<close>
      obtain u where "owned s u = Some (int j)" using assms(8) by auto
      with assms(6,7) show ?thesis by (intro exI [of _ u]) auto
    qed
  qed
qed

lemma owners_ok_give:
  assumes "owners_ok s" "length (pid_alloc_state (mgr s)) = 201" "owned s t = Some i"
    "owned s' = (owned s)(t := None)"
    "pid_alloc_state (mgr s') = (pid_alloc_state (mgr s))[nat i := PID_IS_AVAILABLE]"
  shows "owners_ok s'"
proof -
  have i: "0 \<le> i" "i < 201" using owners_okD(1) [OF assms(1,3)] by auto
  have other: "owned s u = Some j \<Longrightarrow> u \<noteq> t \<Longrightarrow> j \<noteq> i" for u j
    using owners_okD(2) [OF assms(1,3)] by blast
  show ?thesis unfolding owners_ok_def
  proof (intro conjI allI impI)
    fix u j assume "owned s' u = Some j"
    then have "owned s u = Some j" "u \<noteq> t" using assms(4) by (auto split: if_splits)
    with owners_okD(1) [OF assms(1), of u j] other
    show "0 \<le> j" "j < 201" "pid_alloc_state (mgr s') ! nat j = PID_IS_IN_USE"
      using i assms(2,5) by (auto simp: nth_list_update nat_eq_iff)
  next
    fix u v j assume "owned s' u = Some j" "owned s' v = Some j"
    then show "u = v"
      using owners_okD(2) [OF assms(1), of u j v] assms(4) by (auto split: if_splits)
  next
    fix j :: nat assume j: "j < 201" "pid_alloc_state (mgr s') ! j = PID_IS_IN_USE"
    then have "j \<noteq> nat i" using i assms(2,5) by auto
    moreover from this j have "pid_alloc_state (mgr s) ! j = PID_IS_IN_USE" using assms(5) by simp
    then obtain u where "owned s u = Some (int j)" using owners_okD(3) [OF assms(1) j(1)] by blast
    ultimately show "\<exists>u. owned s' u = Some (int j)"
      using assms(3,4) by (intro exI [of _ u]) auto
  qed
qed

lemma owned_upd:
  "lock_ok s \<Longrightarrow> worker_step t r s = Some s' \<Longrightarrow> owned s' = (owned s)(t := owned s' t)"
  using owned_other by fastforce

lemma worker_owners_ok:
  assumes "pt_inv s" "worker_step t r s = Some s'"
  shows "owners_ok s'"
proof -
  have inv: "lock_ok s" "owners_ok s" "length (pid_alloc_state (mgr s)) = 201"
    using assms(1) by (auto simp: pt_inv_def mgr_ok_def shape_def)
  note upd = owned_upd [OF inv(1) assms(2)]
  from assms show ?thesis
  proof (cases rule: worker_slot)
    case same
    from upd same(1) have "owned s' = owned s" by (simp add: fun_upd_idem)
    then show ?thesis using inv(2) same(2) by (intro owners_ok_same [of s s'])
  next
    case (take i)
    then show ?thesis using owners_ok_take [OF inv(2,3)] upd by simp
  next
    case (give i)
    then show ?thesis using owners_ok_give [OF inv(2,3)] upd by simp
  qed
qed

lemma pt_worker_inv: "pt_inv s \<Longrightarrow> worker_step t r s = Some s' \<Longrightarrow> pt_inv s'"
  unfolding pt_inv_def
  using worker_lock_ok worker_main_ok worker_mgr_ok [unfolded pt_inv_def]
    worker_owners_ok [unfolded pt_inv_def] worker_ret_ok [unfolded pt_inv_def]
    worker_no_crash [unfolded pt_inv_def] by metis

lemma main_at_frame [simp]:
  "lock_ok (s\<lparr>main_at := m\<rparr>) = lock_ok s"
  "mgr_ok (s\<lparr>main_at := m\<rparr>) = mgr_ok s"
  "owners_ok (s\<lparr>main_at := m\<rparr>) = owners_ok s"
  "ret_ok (s\<lparr>main_at := m\<rparr>) = ret_ok s"
  "lock_ok (s\<lparr>thread_counter := c\<rparr>) = lock_ok s"
  "mgr_ok (s\<lparr>thread_counter := c\<rparr>) = mgr_ok s"
  "owners_ok (s\<lparr>thread_counter := c\<rparr>) = owners_ok s"
  "ret_ok (s\<lparr>thread_counter := c\<rparr>) = ret_ok s"
  by (simp_all add: lock_ok_def mgr_ok_def owners_ok_def owned_def ret_ok_def split: option.splits)

lemma pt_create_inv:
  assumes "pt_inv s" "main_step rc s = Some s'" "\<forall>i. rc i = 0" "main_at s = M_create i" "i < NUM_WORKER_THREADS"
  shows "pt_inv s'"
proof -
  have unborn: "at s i = W_unborn"
    using assms(1) assms(4) by (auto simp: pt_inv_def main_ok_def)
  have s': "s' = s\<lparr>at := (at s)(i := W_cnt_read), main_at := M_create (i + 1)\<rparr>"
    using assms(2,3) assms(4) assms(5) by (simp add: main_step_def)
  have lock: "mtx s \<noteq> Some i"
    using assms(1) unborn pt_lock_okD [of s i] by (simp add: pt_inv_def)
  have "owned s' = owned s"
    using unborn by (auto simp: s' owned_def slot_of_def)
  then have "owners_ok s'" using assms(1) by (intro owners_ok_same [of s s']) (simp_all add: pt_inv_def s')
  moreover have "lock_ok s'" using assms(1) lock by (auto simp: pt_inv_def lock_ok_def s')
  moreover have "mgr_ok s'" using assms(1) lock by (auto simp: pt_inv_def mgr_ok_def s' split: option.splits)
  moreover have "ret_ok s'" using assms(1) by (auto simp: pt_inv_def ret_ok_def ret_at_def s')
  moreover have "main_ok s'" using assms(1) assms(4) assms(5) by (auto simp: pt_inv_def main_ok_def s')
  ultimately show ?thesis using assms(1) by (simp add: pt_inv_def s')
qed

lemma pt_main_inv:
  assumes "pt_inv s" "main_step rc s = Some s'" "\<forall>i. rc i = 0"
  shows "pt_inv s'"
proof (cases "main_at s")
  case (M_create i)
  show ?thesis
  proof (cases "i < NUM_WORKER_THREADS")
    case True
    then show ?thesis using pt_create_inv [OF assms M_create] by blast
  next
    case False
    with assms M_create show ?thesis by (auto simp: main_step_def pt_inv_def main_ok_def)
  qed
next
  case M_init
  have "mtx s = None"
  proof (rule ccontr)
    assume "mtx s \<noteq> None"
    then obtain h where "in_cs (at s h)" using assms(1) pt_lock_okD [of s] by (auto simp: pt_inv_def)
    with assms(1) M_init show False by (simp add: pt_inv_def main_ok_def)
  qed
  then have "s' = s\<lparr>thread_counter := 0, main_at := M_create 0\<rparr>"
    using assms(2,3) M_init by (cases s) (simp add: main_step_def start_defs)
  then show ?thesis using assms M_init by (auto simp: pt_inv_def main_ok_def)
next
  case (M_join i)
  with assms show ?thesis
    by (auto simp: main_step_def pt_inv_def main_ok_def less_Suc_eq split: if_splits)
next
  case M_cleanup
  have "mtx s = None"
  proof (rule ccontr)
    assume "mtx s \<noteq> None"
    then obtain h where "in_cs (at s h)" using assms(1) pt_lock_okD [of s] by (auto simp: pt_inv_def)
    moreover have "at s h = W_exited \<or> at s h = W_unborn"
      using assms(1) M_cleanup by (cases "h < NUM_WORKER_THREADS") (auto simp: pt_inv_def main_ok_def)
    ultimately show False by auto
  qed
  with M_cleanup assms show ?thesis
    by (auto simp: main_step_def mutex_destroy_ok_def free_map_sync_def pt_inv_def main_ok_def)
qed (use assms in \<open>simp add: main_step_def\<close>)

lemma pt_step_inv:
  assumes "\<forall>i. rc i = 0" "pt_inv s" "pt_step rc e s = Some s'"
  shows "pt_inv s'"
proof (cases e)
  case Main
  with assms show ?thesis using pt_main_inv [of s rc s'] by (simp split: if_splits)
next
  case (Worker t r)
  with assms show ?thesis using pt_worker_inv [of s t r s'] by (simp split: if_splits)
qed

interpretation pt: invariant_system "pt_step no_error" pt_init pt_inv
  by unfold_locales (rule pt_inv_init, rule pt_step_inv [of no_error], auto simp: no_error_def)

text \<open>
  The specification: an assignment of slots to threads in which a thread may take a slot that
  nobody has and give its slot back.
\<close>

datatype slot_event = Grab tid int | Drop tid

fun slot_step :: "slot_event \<Rightarrow> (tid \<Rightarrow> int option) \<Rightarrow> (tid \<Rightarrow> int option) option" where
  "slot_step (Grab t i) m =
     (if m t = None \<and> 0 \<le> i \<and> i < PID_STATE_BUF_SIZE \<and> i \<notin> ran m then Some (m(t := Some i)) else None)"
| "slot_step (Drop t) m = (if m t \<noteq> None then Some (m(t := None)) else None)"

lemma worker_refines:
  assumes "pt_inv s" "worker_step t r s = Some s'"
  shows "owned s' = owned s \<or> (\<exists>a. slot_step a (owned s) = Some (owned s'))"
proof -
  have inv: "lock_ok s" "owners_ok s" using assms(1) by (auto simp: pt_inv_def)
  note upd = owned_upd [OF inv(1) assms(2)]
  from assms show ?thesis
  proof (cases rule: worker_slot)
    case same
    with upd show ?thesis by (simp add: fun_upd_idem)
  next
    case (take i)
    have "i \<notin> ran (owned s)"
    proof
      assume "i \<in> ran (owned s)"
      then obtain u where "owned s u = Some i" by (auto simp: ran_def)
      with owners_okD(1) [OF inv(2)] take(3) show False by fastforce
    qed
    with take upd have "slot_step (Grab t i) (owned s) = Some (owned s')" by simp
    then show ?thesis by blast
  next
    case (give i)
    with upd have "slot_step (Drop t) (owned s) = Some (owned s')" by simp
    then show ?thesis by blast
  qed
qed

lemma main_owned:
  assumes "pt_inv s" "main_step rc s = Some s'"
  shows "owned s' = owned s"
proof (cases "main_at s")
  case (M_create i)
  then have "i < NUM_WORKER_THREADS \<Longrightarrow> at s i = W_unborn"
    using assms(1) by (auto simp: pt_inv_def main_ok_def)
  with M_create assms(2) show ?thesis
    by (auto simp: main_step_def crash_def owned_def split: if_splits)
qed (use assms(2) in \<open>auto simp: main_step_def start_defs crash_def owned_def split: if_splits\<close>)

interpretation pt_spec: refined_system "pt_step no_error" pt_init pt_inv slot_step owned
proof unfold_locales
  fix s e s'
  assume *: "pt_inv s" "pt_step no_error e s = Some s'"
  show "owned s' = owned s \<or> (\<exists>a. slot_step a (owned s) = Some (owned s'))"
  proof (cases e)
    case Main
    with * show ?thesis using main_owned [of s no_error s'] by (simp split: if_splits)
  next
    case (Worker t r)
    with * show ?thesis using worker_refines [of s t r s'] by (simp split: if_splits)
  qed
qed

section \<open>Termination\<close>

text \<open>Statements left to a thread at most, and to main.\<close>

fun pc_rank :: "worker_pc \<Rightarrow> int \<Rightarrow> nat" where
  "pc_rank W_unborn it = 626"
| "pc_rank W_cnt_read it = 625"
| "pc_rank W_cnt_write it = 624"
| "pc_rank A_lock it = 623"
| "pc_rank A_assert it = 622"
| "pc_rank A_full it = 621"
| "pc_rank A_loop it = 17 + 3 * nat (201 - it)"
| "pc_rank A_loop_inc it = 19 + 3 * nat (201 - it)"
| "pc_rank A_loop_wrap it = 18 + 3 * nat (201 - it)"
| "pc_rank A_found it = 15"
| "pc_rank A_mark it = 14"
| "pc_rank A_inc it = 13"
| "pc_rank A_ret it = 12"
| "pc_rank A_adv it = 11"
| "pc_rank A_wrap it = 10"
| "pc_rank A_unlock it = 9"
| "pc_rank W_got it = 8"
| "pc_rank W_sleep it = 7"
| "pc_rank R_lock it = 6"
| "pc_rank R_assert it = 5"
| "pc_rank R_assert_used it = 4"
| "pc_rank R_mark it = 3"
| "pc_rank R_dec it = 2"
| "pc_rank R_unlock it = 1"
| "pc_rank W_exited it = 0"

fun main_rank :: "main_pc \<Rightarrow> nat" where
  "main_rank M_init = 2 * NUM_WORKER_THREADS + 4"
| "main_rank (M_create i) = NUM_WORKER_THREADS + 3 + (NUM_WORKER_THREADS - i)"
| "main_rank (M_join i) = 2 + (NUM_WORKER_THREADS - i)"
| "main_rank M_cleanup = 1"
| "main_rank M_exit = 0"

definition pt_measure :: "pt_state \<Rightarrow> nat" where
  "pt_measure s = main_rank (main_at s) +
     (\<Sum>t < NUM_WORKER_THREADS. pc_rank (at s t) (iter_count s t))"

lemma sum_less_at:
  fixes f g :: "nat \<Rightarrow> nat"
  assumes "t < n" "f t < g t" "\<And>u. u \<noteq> t \<Longrightarrow> f u = g u"
  shows "(\<Sum>u < n. f u) < (\<Sum>u < n. g u)"
proof (rule sum_strict_mono_ex1)
  show "\<forall>u \<in> {..<n}. f u \<le> g u" using assms(2,3) by (metis le_refl less_imp_le)
qed (use assms(1,2) in auto)

lemma worker_rank:
  assumes "worker_step t r s = Some s'" "\<not> crashed s" "\<not> crashed s'"
  shows "pc_rank (at s' t) (iter_count s' t) < pc_rank (at s t) (iter_count s t)"
    "u \<noteq> t \<Longrightarrow> pc_rank (at s' u) (iter_count s' u) = pc_rank (at s u) (iter_count s u)"
  using assms
  by (cases "at s t"; auto simp: pc_defs split: if_splits sum.splits option.splits)+

lemma pt_measure_decreases:
  assumes "pt_inv s" "pt_step rc e s = Some s'" "\<forall>i. rc i = 0"
  shows "pt_measure s' < pt_measure s"
proof (cases e)
  case Main
  with assms have step: "main_step rc s = Some s'" by (simp split: if_splits)
  have ok: "main_ok s" using assms(1) by (simp add: pt_inv_def)
  show ?thesis
  proof (cases "\<exists>i. main_at s = M_create i \<and> i < NUM_WORKER_THREADS")
    case True
    then obtain i where i: "main_at s = M_create i" "i < NUM_WORKER_THREADS" by blast
    then have "at s i = W_unborn" using ok by (auto simp: main_ok_def)
    then have "(\<Sum>t < NUM_WORKER_THREADS. pc_rank (at s' t) (iter_count s' t)) <
        (\<Sum>t < NUM_WORKER_THREADS. pc_rank (at s t) (iter_count s t))"
      using i step assms(3) by (intro sum_less_at [of i]) (auto simp: main_step_def)
    then show ?thesis using i step assms(3) by (auto simp: pt_measure_def main_step_def)
  next
    case False
    then have "at s' = at s" "iter_count s' = iter_count s"
      using step by (auto simp: main_step_def start_defs crash_def split: main_pc.splits if_splits)
    then show ?thesis
      using step False pt_step_inv [OF assms(3,1,2)] assms(1)
      by (auto simp: pt_measure_def main_step_def start_defs crash_def pt_inv_def main_ok_def
          split: main_pc.splits if_splits)
  qed
next
  case (Worker t r)
  with assms have step: "worker_step t r s = Some s'" by (simp split: if_splits)
  have nc: "\<not> crashed s" "\<not> crashed s'"
    using assms(1) pt_worker_inv [OF assms(1) step] by (simp_all add: pt_inv_def)
  have "t < NUM_WORKER_THREADS"
    using assms(1) worker_move(1) [OF step] by (auto simp: pt_inv_def main_ok_def not_le [symmetric])
  then have "(\<Sum>t < NUM_WORKER_THREADS. pc_rank (at s' t) (iter_count s' t)) <
      (\<Sum>t < NUM_WORKER_THREADS. pc_rank (at s t) (iter_count s t))"
    using worker_rank [OF step nc] by (intro sum_less_at [of t]) auto
  then show ?thesis using worker_move(3) [OF step] by (simp add: pt_measure_def)
qed

lemma pt_run_bound:
  assumes "pt_inv s" "run (pt_step no_error) es s = Some s'"
  shows "length es + pt_measure s' \<le> pt_measure s"
  using assms
proof (induction es arbitrary: s)
  case (Cons e es)
  then obtain s1 where s1: "pt_step no_error e s = Some s1" "run (pt_step no_error) es s1 = Some s'"
    by (auto split: option.splits)
  have "length es + pt_measure s' \<le> pt_measure s1"
    by (rule Cons.IH) (use pt_step_inv [of no_error, OF _ Cons.prems(1) s1(1)] s1(2) in \<open>auto simp: no_error_def\<close>)
  with pt_measure_decreases [OF Cons.prems(1) s1(1)] show ?case by (simp add: no_error_def)
qed simp

lemma worker_enabled:
  assumes "at s t \<noteq> W_unborn" "at s t \<noteq> W_exited" "mtx s = None \<or> in_cs (at s t)"
  shows "\<exists>s'. worker_step t 0 s = Some s'"
  using assms by (cases "at s t") (auto simp: pc_defs)

lemma pt_progress:
  assumes "pt_inv s" "main_at s \<noteq> M_exit"
  shows "\<exists>e s'. pt_step rc e s = Some s'"
proof (cases "\<exists>s'. main_step rc s = Some s'")
  case True
  then obtain s' where "main_step rc s = Some s'" by blast
  with assms(1) have "pt_step rc Main s = Some s'" by (simp add: pt_inv_def)
  then show ?thesis by blast
next
  case False
  with assms(2) obtain i where i: "main_at s = M_join i" "i < NUM_WORKER_THREADS" "at s i \<noteq> W_exited"
    by (auto simp: main_step_def split: main_pc.splits if_splits)
  then have born: "at s i \<noteq> W_unborn" using assms(1) by (auto simp: pt_inv_def main_ok_def)
  obtain t where "at s t \<noteq> W_unborn" "at s t \<noteq> W_exited" "mtx s = None \<or> in_cs (at s t)"
  proof (cases "mtx s")
    case None
    with i(3) born that show thesis by blast
  next
    case (Some h)
    then have cs: "in_cs (at s h)" using assms(1) pt_lock_okD [of s h] by (simp add: pt_inv_def)
    then have "at s h \<noteq> W_unborn" "at s h \<noteq> W_exited" by auto
    with cs that show thesis by blast
  qed
  from worker_enabled [OF this] obtain s' where "worker_step t 0 s = Some s'" by blast
  with assms(1) have "pt_step rc (Worker t 0) s = Some s'" by (simp add: pt_inv_def)
  then show ?thesis by blast
qed

lemma pt_final:
  assumes "pt_inv s" "main_at s = M_exit"
  shows "in_use (mgr s) = {}" "pid_inv (mgr s)"
proof -
  have out: "at s t = W_exited \<or> at s t = W_unborn" for t
    using assms by (cases "t < NUM_WORKER_THREADS") (auto simp: pt_inv_def main_ok_def)
  have none: "owned s t = None" for t
    using out [of t] by (auto simp: owned_def)
  have "mtx s \<noteq> Some t" for t
    using out [of t] assms(1) pt_lock_okD [of s t] by (auto simp: pt_inv_def)
  then have "mtx s = None" by (cases "mtx s") auto
  then show "pid_inv (mgr s)"
    using assms(1) by (auto simp: pt_inv_def mgr_ok_def pid_inv_def shape_def counted_def index_ok_def)
  show "in_use (mgr s) = {}"
  proof (rule equals0I)
    fix p assume "p \<in> in_use (mgr s)"
    then have "nat (p - MIN_PID) < 201"
      "pid_alloc_state (mgr s) ! nat (p - MIN_PID) = PID_IS_IN_USE"
      by (auto simp: in_use_def pids_def pid_consts)
    with none show False
      using owners_okD(3) [of s "nat (p - MIN_PID)"] assms(1) by (auto simp: pt_inv_def)
  qed
qed

section \<open>Calls that fail\<close>

text \<open>
  A checked call of \<open>main\<close> that fails stops the program where it is. Up to that moment the run is one
  of the program whose calls succeed.
\<close>

lemma pt_step_any_rc:
  assumes "pt_step rc e s = Some s'"
  shows "pt_step no_error e s = Some s' \<or>
    e = Main \<and> s' = crash s \<and> \<not> crashed s \<and> main_at s \<noteq> M_exit \<and> (\<exists>k < 502. rc k \<noteq> 0)"
proof (cases e)
  case Main
  with assms have st: "main_step rc s = Some s'" and nc: "\<not> crashed s" by (simp_all split: if_splits)
  show ?thesis
  proof (cases "\<exists>k < 502. rc k \<noteq> 0")
    case True
    with Main st nc show ?thesis
      by (cases "main_at s") (auto simp: main_step_def start_defs no_error_def split: if_splits)
  next
    case False
    then have "rc 0 = 0" "rc 1 = 0" "i < 500 \<Longrightarrow> rc (i + 2) = 0" for i by auto
    with Main st nc show ?thesis
      by (cases "main_at s") (auto simp: main_step_def start_defs no_error_def NUM_WORKER_THREADS_def split: if_splits)
  qed
qed (use assms in simp)

lemma pt_run_any_rc:
  assumes "run (pt_step rc) es pt_init = Some s"
  obtains (runs) "run (pt_step no_error) es pt_init = Some s"
  | (fails) fs t k where "run (pt_step no_error) fs pt_init = Some t" "es = fs @ [Main]" "s = crash t"
      "main_at t \<noteq> M_exit" "k < 502" "rc k \<noteq> 0"
proof -
  have "run (pt_step no_error) es pt_init = Some s \<or> (\<exists>fs t. run (pt_step no_error) fs pt_init = Some t \<and>
      es = fs @ [Main] \<and> s = crash t \<and> main_at t \<noteq> M_exit \<and> (\<exists>k < 502. rc k \<noteq> 0))"
    using assms
  proof (induction es arbitrary: s rule: rev_induct)
    case (snoc e es)
    then obtain t where t: "run (pt_step rc) es pt_init = Some t" "pt_step rc e t = Some s"
      by (auto simp: run_append split: option.splits)
    have "\<not> crashed t" using t(2) by (cases e) (simp_all split: if_splits)
    with snoc.IH [OF t(1)] have r: "run (pt_step no_error) es pt_init = Some t" by (auto simp: crash_def)
    from pt_step_any_rc [OF t(2)] show ?case
    proof (elim disjE)
      assume "pt_step no_error e t = Some s"
      with r show ?thesis by (simp add: run_append)
    next
      assume "e = Main \<and> s = crash t \<and> \<not> crashed t \<and> main_at t \<noteq> M_exit \<and> (\<exists>k < 502. rc k \<noteq> 0)"
      with r show ?thesis by blast
    qed
  qed simp
  with runs fails show thesis by blast
qed

lemma pt_reachable_any_rc:
  assumes "reachable (pt_step rc) pt_init s"
  obtains t where "reachable (pt_step no_error) pt_init t" "s = t \<or> s = crash t"
proof -
  from assms obtain es where es: "run (pt_step rc) es pt_init = Some s" unfolding reachable_iff_run by blast
  from es show thesis
  proof (cases rule: pt_run_any_rc)
    case runs
    from run_reachable [OF reachable.start runs] that show thesis by blast
  next
    case (fails fs t)
    from run_reachable [OF reachable.start fails(1)] that fails(3) show thesis by blast
  qed
qed

lemma owned_crash: "owned (crash s) = owned s"
  by (intro ext) (simp add: owned_def crash_def)

section \<open>Properties\<close>

text \<open>
  A worker holds an identifier from the return of \<open>allocate_pid\<close> with a value other than -1 until the
  statement of \<open>release_pid\<close> that marks it as available.
\<close>

definition holds_pid :: "pt_state \<Rightarrow> tid \<Rightarrow> bool" where
  "holds_pid s t \<longleftrightarrow> at s t = W_got \<and> my_pid s t \<noteq> -1 \<or>
     at s t \<in> {W_sleep, R_lock, R_assert, R_assert_used, R_mark}"

lemma holds_pid_owned: "holds_pid s t \<Longrightarrow> owned s t = Some (my_pid s t - MIN_PID)"
  by (auto simp: holds_pid_def owned_def slot_of_def)

text \<open>C1: At any moment of any interleaving of the 500 workers and for all return codes, two different workers that
  hold an identifier, that is from the return of \<open>allocate_pid\<close> until \<open>release_pid\<close> marks it as available, hold
  different ones, both within the managed range.\<close>

theorem pt_pids_unique:
  assumes "reachable (pt_step rc) pt_init s" "t \<noteq> u" "holds_pid s t" "holds_pid s u"
  shows "my_pid s t \<noteq> my_pid s u \<and> my_pid s t \<in> pids \<and> my_pid s u \<in> pids"
proof -
  obtain s0 where "reachable (pt_step no_error) pt_init s0" "s = s0 \<or> s = crash s0"
    using pt_reachable_any_rc [OF assms(1)] .
  then have own: "owners_ok s" using pt.reachable_inv [of s0]
    by (auto simp: pt_inv_def owners_ok_def owned_crash) (simp_all add: crash_def)
  note o = holds_pid_owned [OF assms(3)] holds_pid_owned [OF assms(4)]
  have "my_pid s t \<noteq> my_pid s u" using owners_okD(2) [OF own o(1), of u] o(2) assms(2) by auto
  with owners_okD(1) [OF own o(1)] owners_okD(1) [OF own o(2)] show ?thesis
    by (simp add: pids_def pid_consts)
qed

text \<open>A worker that is not interrupted takes the slot at the roving index when it is free.\<close>

definition alone :: "tid \<Rightarrow> pt_event list" where
  "alone t = map (\<lambda>_. Worker t 0) [W_cnt_read, W_cnt_write, A_lock, A_assert, A_full, A_loop, A_found,
     A_mark, A_inc, A_ret, A_adv, A_wrap, A_unlock, W_got]"

lemma alone_run:
  assumes "\<not> crashed s" "mtx s = None" "at s t = W_cnt_read" "pid_inv (mgr s)"
    "pid_in_use_count (mgr s) < 201" "next_free_pid_index (mgr s) = i"
    "pid_alloc_state (mgr s) ! nat i = PID_IS_AVAILABLE"
  shows "\<exists>s'. run (pt_step rc) (alone t) s = Some s' \<and> at s' = (at s)(t := W_sleep) \<and>
     my_pid s' = (my_pid s)(t := i + MIN_PID) \<and> \<not> crashed s' \<and> mtx s' = None \<and>
     mgr s' = (mgr s)\<lparr>pid_alloc_state := (pid_alloc_state (mgr s))[nat i := PID_IS_IN_USE],
       next_free_pid_index := (i + 1) mod 201, pid_in_use_count := pid_in_use_count (mgr s) + 1\<rparr>"
  using assms pid_invD(1,3,4) [OF assms(4)] pid_count_le [OF assms(4)]
  by (simp add: alone_def pc_defs MIN_PID_def)

definition two_sleepers :: "pt_event list" where
  "two_sleepers = [Main, Main, Main] @ alone 0 @ alone 1"

lemma two_sleepers_run:
  "\<exists>s. run (pt_step no_error) two_sleepers pt_init = Some s \<and>
    at s 0 = W_sleep \<and> at s 1 = W_sleep \<and> my_pid s 0 = 300 \<and> my_pid s 1 = 301"
proof -
  let ?step = "pt_step no_error"
  let ?s0 = "pt_init\<lparr>at := (at pt_init)(0 := W_cnt_read, 1 := W_cnt_read), main_at := M_create 2\<rparr>"
  have s0: "run ?step [Main, Main, Main] pt_init = Some ?s0"
    by (simp add: pt_init_def main_step_def start_defs NUM_WORKER_THREADS_def no_error_def)
  obtain s1 where s1: "run ?step (alone 0) ?s0 = Some s1" "at s1 = (at ?s0)(0 := W_sleep)"
    "my_pid s1 = (my_pid ?s0)(0 := 300)" "\<not> crashed s1" "mtx s1 = None"
    "mgr s1 = (mgr ?s0)\<lparr>pid_alloc_state := (pid_alloc_state (mgr ?s0))[0 := PID_IS_IN_USE],
       next_free_pid_index := 1, pid_in_use_count := 1\<rparr>"
    using alone_run [of ?s0 0 0 no_error] pid_mgr_init_inv(1)
    by (auto simp: pt_init_def pid_mgr_init_def pid_consts)
  have "pid_inv (mgr s1)"
    unfolding s1(6) by (simp add: pid_inv_def pt_init_def pid_mgr_init_def count_list_update
        pid_consts set_list_update_subset)
  then obtain s2 where s2: "run ?step (alone 1) s1 = Some s2" "at s2 = (at s1)(1 := W_sleep)"
    "my_pid s2 = (my_pid s1)(1 := 301)"
    using alone_run [of s1 1 1 no_error] s1(2,4,5,6)
    by (auto simp: pt_init_def pid_mgr_init_def pid_consts)
  have "run ?step two_sleepers pt_init = Some s2"
    unfolding two_sleepers_def run_append s0 option.case s1(1) s2(1) by (rule refl)
  moreover have "at s2 0 = W_sleep" "at s2 1 = W_sleep" "my_pid s2 0 = 300" "my_pid s2 1 = 301"
    unfolding s2(2,3) s1(2,3) by simp_all
  ultimately show ?thesis by blast
qed

theorem pt_pids_unique_witness:
  "\<exists>s. reachable (pt_step no_error) pt_init s \<and> at s 0 = W_sleep \<and> at s 1 = W_sleep \<and>
     my_pid s 0 \<noteq> my_pid s 1 \<and> my_pid s 0 \<in> pids \<and> my_pid s 1 \<in> pids"
proof -
  obtain s where s: "run (pt_step no_error) two_sleepers pt_init = Some s"
    "at s 0 = W_sleep" "at s 1 = W_sleep"
    using two_sleepers_run by blast
  have r: "reachable (pt_step no_error) pt_init s" by (rule run_reachable [OF reachable.start s(1)])
  have "holds_pid s 0" "holds_pid s 1" using s(2,3) by (simp_all add: holds_pid_def)
  from r s(2,3) pt_pids_unique [OF r zero_neq_one this] show ?thesis by (intro exI conjI) blast+
qed

text \<open>C2: Under the mutex the program always ends: every schedule has at most 314004 steps, an
  assertion fails only after a call that initialises or creates something has failed, and a state in
  which nothing can move is otherwise the end of \<open>main\<close> with the mutex destroyed and every identifier
  returned.\<close>

theorem pt_terminates:
  assumes "run (pt_step rc) es pt_init = Some s"
  shows "length es \<le> 314004 \<and> (crashed s \<longrightarrow> (\<exists>k < 502. rc k \<noteq> 0)) \<and>
    (stuck (pt_step rc) s \<and> \<not> crashed s \<longrightarrow> main_at s = M_exit \<and> in_use (mgr s) = {} \<and> pid_inv (mgr s))"
proof -
  have m: "pt_measure pt_init = 314004"
    by (simp add: pt_measure_def pt_init_def NUM_WORKER_THREADS_def)
  from assms show ?thesis
  proof (cases rule: pt_run_any_rc)
    case runs
    have inv: "pt_inv s" using pt.run_inv [OF runs] .
    have "stuck (pt_step rc) s \<Longrightarrow> main_at s = M_exit"
      using pt_progress [OF inv, of rc] unfolding stuck_def by (metis option.distinct(1))
    then show ?thesis using inv pt_final [OF inv] pt_run_bound [OF pt_inv_init runs] m by (auto simp: pt_inv_def)
  next
    case (fails fs t k)
    have "pt_inv t" using pt.run_inv [OF fails(1)] .
    from pt_progress [OF this fails(4), of no_error] obtain e t' where "pt_step no_error e t = Some t'" by blast
    from pt_measure_decreases [OF \<open>pt_inv t\<close> this] have "0 < pt_measure t" by (simp add: no_error_def)
    then show ?thesis using pt_run_bound [OF pt_inv_init fails(1)] m fails by (auto simp: crash_def)
  qed
qed

theorem pt_terminates_witness:
  "\<exists>s. run (pt_step no_error) two_sleepers pt_init = Some s \<and> length two_sleepers \<le> 314004 \<and> \<not> crashed s"
proof -
  obtain s where s: "run (pt_step no_error) two_sleepers pt_init = Some s"
    using two_sleepers_run by blast
  have "no_error k = 0" for k by (simp add: no_error_def)
  with pt_terminates [OF s] s show ?thesis by blast
qed

text \<open>C3: The program refines the specification in which slots are taken only when nobody has
  them: the ownership of every reachable state is reachable by grabs and drops.\<close>

theorem pt_refines_slots:
  assumes "reachable (pt_step rc) pt_init s"
  shows "reachable slot_step (\<lambda>_. None) (owned s)"
proof -
  obtain t where t: "reachable (pt_step no_error) pt_init t" "s = t \<or> s = crash t"
    using pt_reachable_any_rc [OF assms] .
  have "owned pt_init = (\<lambda>_. None)" by (auto simp: pt_init_def owned_def)
  with pt_spec.reachable_abs [OF t(1)] t(2) owned_crash [of t] show ?thesis by auto
qed

theorem pt_refines_slots_witness:
  "\<exists>s. owned s 0 = Some 0 \<and> owned s 1 = Some 1 \<and> reachable slot_step (\<lambda>_. None) (owned s)"
proof -
  obtain s where s: "run (pt_step no_error) two_sleepers pt_init = Some s"
    "at s 0 = W_sleep" "at s 1 = W_sleep" "my_pid s 0 = 300" "my_pid s 1 = 301"
    using two_sleepers_run by blast
  have "reachable (pt_step no_error) pt_init s" by (rule run_reachable [OF reachable.start s(1)])
  from pt_refines_slots [OF this] have "reachable slot_step (\<lambda>_. None) (owned s)" .
  moreover have "owned s 0 = Some 0" "owned s 1 = Some 1"
    unfolding owned_def s(2-5) by (simp_all add: slot_of_def MIN_PID_def)
  ultimately show ?thesis by blast
qed

end
