(* ===== verification/Bounded_Buffer.thy ===== *)
theory Bounded_Buffer
  imports Posix_Sync
begin

text \<open>
  The producer/consumer program of \<open>ch5/projects/proj3/ch5_pp3_pcp.c\<close>: a ring buffer of
  \<open>BUFFER_SIZE\<close> items protected by a mutex and counted twice, by the variable \<open>n\<close> and by the
  semaphores \<open>full_sem\<close> and \<open>empty_sem\<close>. Each statement on shared data is one step. The
  history variables \<open>inserted\<close> and \<open>consumed\<close> record the items in the order in which
  \<open>insert_item\<close> counts them in and \<open>remove_item\<close> reads them out; no step reads them.
\<close>

section \<open>State\<close>

definition BUFFER_SIZE :: int where
  "BUFFER_SIZE = 5"

definition DEFAULT_MAIN_SLEEP_TIME :: int where
  "DEFAULT_MAIN_SLEEP_TIME = 5"

definition DEFAULT_NUM_PRODUCER_THREADS :: int where
  "DEFAULT_NUM_PRODUCER_THREADS = 1"

definition DEFAULT_NUM_CONSUMER_THREADS :: int where
  "DEFAULT_NUM_CONSUMER_THREADS = 1"

definition MAX_PC_SLEEP_TIME :: int where
  "MAX_PC_SLEEP_TIME = 3"

text \<open>The data shared by \<open>insert_item\<close> and \<open>remove_item\<close>.\<close>

record ring =
  buffer :: "int list"
  head_index :: int
  tail_index :: int
  n :: int
  full_sem :: sem
  empty_sem :: sem

datatype bb_pc =
    B_unborn
  | P_sleep | P_gen | I_lock | I_test | I_wait | I_store | I_tail | I_wrap | I_n | I_post
  | I_unlock | P_while
  | C_sleep | R_lock | R_test | R_wait | R_read | R_clear | R_head | R_wrap | R_n | R_post
  | R_unlock | C_while
  | B_exited

datatype bb_main_pc =
  BM_init | BM_create nat | BM_sleep | BM_wake | BM_join nat | BM_cleanup | BM_exit

text \<open>\<open>Producer_tid\<close> and \<open>Consumer_tid\<close>: the length of the array the pointer points to, \<open>None\<close> for \<open>NULL\<close>.\<close>

record bb_state =
  ring :: ring
  mutex :: mutex
  is_main_sleeping :: bool
  Producer_tid :: "nat option"
  Consumer_tid :: "nat option"
  bb_main :: bb_main_pc
  at :: "tid \<Rightarrow> bb_pc"
  item :: "tid \<Rightarrow> int"
  result :: "tid \<Rightarrow> int"
  bb_crashed :: bool
  inserted :: "int list"
  consumed :: "int list"

text \<open>A step of main, or of a thread with the value its call of \<open>rand()\<close> returns.\<close>

datatype bb_event = Main | Thread tid int

definition ring_init :: ring where
  "ring_init = \<lparr>buffer = replicate (nat BUFFER_SIZE) 0, head_index = 0, tail_index = 0, n = 0,
     full_sem = 0, empty_sem = nat BUFFER_SIZE\<rparr>"

definition bb_init :: bb_state where
  "bb_init = \<lparr>ring = ring_init, mutex = None, is_main_sleeping = False, Producer_tid = None, Consumer_tid = None, bb_main = BM_init,
     at = (\<lambda>_. B_unborn), item = (\<lambda>_. 0), result = (\<lambda>_. 0), bb_crashed = False,
     inserted = [], consumed = []\<rparr>"

section \<open>Steps\<close>

definition goto :: "tid \<Rightarrow> bb_pc \<Rightarrow> bb_state \<Rightarrow> bb_state" where
  "goto t p s = s\<lparr>at := (at s)(t := p)\<rparr>"

definition crash :: "bb_state \<Rightarrow> bb_state" where
  "crash s = s\<lparr>bb_crashed := True\<rparr>"

definition rand_sleep :: "int \<Rightarrow> int \<Rightarrow> bool \<Rightarrow> int \<Rightarrow> int c_result" where
  "rand_sleep caller_id mx use_rand r =
     (if \<not> (caller_id \<ge> -1 \<and> mx > 0) then Inl (Assertion 244)
      else Inr (if use_rand then r mod mx + 1 else mx))"

text \<open>\<open>insert_item\<close>, with \<open>item s t\<close> its argument and \<open>result s t\<close> its result.\<close>

definition insert_step :: "tid \<Rightarrow> bb_state \<Rightarrow> bb_state option" where
  "insert_step t s = (let b = ring s in case at s t of
     I_lock \<Rightarrow> map_option (\<lambda>l. goto t I_test (s\<lparr>mutex := l, result := (result s)(t := 0)\<rparr>))
       (mutex_lock t (mutex s))
   | I_test \<Rightarrow> Some (if n b < BUFFER_SIZE then goto t I_wait s
       else goto t I_unlock (s\<lparr>result := (result s)(t := -1)\<rparr>))
   | I_wait \<Rightarrow> map_option (\<lambda>v. goto t I_store (s\<lparr>ring := b\<lparr>empty_sem := v\<rparr>\<rparr>))
       (sem_wait (empty_sem b))
   | I_store \<Rightarrow> Some (case c_write (buffer b) (tail_index b) (item s t) of
       Inl e \<Rightarrow> crash s | Inr bs \<Rightarrow> goto t I_tail (s\<lparr>ring := b\<lparr>buffer := bs\<rparr>\<rparr>))
   | I_tail \<Rightarrow> Some (goto t I_wrap (s\<lparr>ring := b\<lparr>tail_index := tail_index b + 1\<rparr>\<rparr>))
   | I_wrap \<Rightarrow> Some (goto t I_n (s\<lparr>ring := b\<lparr>tail_index := tail_index b mod BUFFER_SIZE\<rparr>\<rparr>))
   | I_n \<Rightarrow> Some (goto t I_post (s\<lparr>ring := b\<lparr>n := n b + 1\<rparr>, inserted := inserted s @ [item s t]\<rparr>))
   | I_post \<Rightarrow> Some (case sem_post (full_sem b) of
       None \<Rightarrow> crash s | Some v \<Rightarrow> goto t I_unlock (s\<lparr>ring := b\<lparr>full_sem := v\<rparr>\<rparr>))
   | I_unlock \<Rightarrow> Some (case mutex_unlock t (mutex s) of
       None \<Rightarrow> crash s | Some l \<Rightarrow> goto t P_while (s\<lparr>mutex := l\<rparr>))
   | _ \<Rightarrow> None)"

text \<open>\<open>remove_item\<close>, with \<open>item s t\<close> the variable its argument points to.\<close>

definition remove_step :: "tid \<Rightarrow> bb_state \<Rightarrow> bb_state option" where
  "remove_step t s = (let b = ring s in case at s t of
     R_lock \<Rightarrow> map_option (\<lambda>l. goto t R_test (s\<lparr>mutex := l, result := (result s)(t := 0)\<rparr>))
       (mutex_lock t (mutex s))
   | R_test \<Rightarrow> Some (if n b > 0 then goto t R_wait s
       else goto t R_unlock (s\<lparr>result := (result s)(t := -1)\<rparr>))
   | R_wait \<Rightarrow> map_option (\<lambda>v. goto t R_read (s\<lparr>ring := b\<lparr>full_sem := v\<rparr>\<rparr>))
       (sem_wait (full_sem b))
   | R_read \<Rightarrow> Some (case c_read (buffer b) (head_index b) of
       Inl e \<Rightarrow> crash s
     | Inr x \<Rightarrow> goto t R_clear (s\<lparr>item := (item s)(t := x), consumed := consumed s @ [x]\<rparr>))
   | R_clear \<Rightarrow> Some (case c_write (buffer b) (head_index b) (-1) of
       Inl e \<Rightarrow> crash s | Inr bs \<Rightarrow> goto t R_head (s\<lparr>ring := b\<lparr>buffer := bs\<rparr>\<rparr>))
   | R_head \<Rightarrow> Some (goto t R_wrap (s\<lparr>ring := b\<lparr>head_index := head_index b + 1\<rparr>\<rparr>))
   | R_wrap \<Rightarrow> Some (goto t R_n (s\<lparr>ring := b\<lparr>head_index := head_index b mod BUFFER_SIZE\<rparr>\<rparr>))
   | R_n \<Rightarrow> Some (goto t R_post (s\<lparr>ring := b\<lparr>n := n b - 1\<rparr>\<rparr>))
   | R_post \<Rightarrow> Some (case sem_post (empty_sem b) of
       None \<Rightarrow> crash s | Some v \<Rightarrow> goto t R_unlock (s\<lparr>ring := b\<lparr>empty_sem := v\<rparr>\<rparr>))
   | R_unlock \<Rightarrow> Some (case mutex_unlock t (mutex s) of
       None \<Rightarrow> crash s | Some l \<Rightarrow> goto t C_while (s\<lparr>mutex := l\<rparr>))
   | _ \<Rightarrow> None)"

text \<open>The loops of the producers and consumers around the two operations.\<close>

definition Producer_thread_func :: "tid \<Rightarrow> int \<Rightarrow> bb_state \<Rightarrow> bb_state option" where
  "Producer_thread_func t r s = (case at s t of
     P_sleep \<Rightarrow> if r < 0 then None else Some (case rand_sleep 0 MAX_PC_SLEEP_TIME True r of
       Inl e \<Rightarrow> crash s | Inr _ \<Rightarrow> goto t P_gen s)
   | P_gen \<Rightarrow> if r < 0 then None else Some (goto t I_lock
       (if result s t = 0 then s\<lparr>item := (item s)(t := r)\<rparr> else s))
   | P_while \<Rightarrow> Some (goto t (if is_main_sleeping s then P_sleep else B_exited) s)
   | _ \<Rightarrow> insert_step t s)"

definition Consumer_thread_func :: "tid \<Rightarrow> int \<Rightarrow> bb_state \<Rightarrow> bb_state option" where
  "Consumer_thread_func t r s = (case at s t of
     C_sleep \<Rightarrow> if r < 0 then None else Some (case rand_sleep 1 MAX_PC_SLEEP_TIME True r of
       Inl e \<Rightarrow> crash s | Inr _ \<Rightarrow> goto t R_lock s)
   | C_while \<Rightarrow> Some (goto t (if is_main_sleeping s then C_sleep else B_exited) s)
   | _ \<Rightarrow> remove_step t s)"

text \<open>
  \<open>main\<close> after its arguments are read (\<open>mst\<close> is \<open>main_sleep_time\<close>): thread \<open>i\<close> is a producer for \<open>i < np\<close> and a consumer for
  \<open>np \<le> i < np + nc\<close>. The program ignores the result of \<open>pthread_create\<close>; \<open>created i\<close> says
  whether the \<open>i\<close>-th one succeeds, and joining a thread that does not exist is undefined. In
  \<open>init_state\<close> \<open>rc 0\<close> and \<open>rc 1\<close> are zero when the two allocations succeed, \<open>rc 2\<close> to \<open>rc 4\<close> are the
  return codes of the calls that initialise the semaphores and the mutex; in \<open>cleanup_state\<close> \<open>rc 5\<close> and \<open>rc 6\<close>
  are those of the two calls of \<open>sem_destroy\<close>.
\<close>

definition init_lines :: "nat list" where
  "init_lines = [146, 148, 153, 159, 165]"

definition init_state :: "(nat \<Rightarrow> int) \<Rightarrow> int \<Rightarrow> int \<Rightarrow> int \<Rightarrow> bb_state \<Rightarrow> bb_state c_result" where
  "init_state rc num_producer_threads num_consumer_threads buff_size s =
     (if \<not> buff_size > 0 then Inl (Assertion 134)
      else if \<not> num_producer_threads > 0 then Inl (Assertion 135)
      else if \<not> num_consumer_threads > 0 then Inl (Assertion 136)
      else c_bind (checked_calls rc 0 init_lines) (\<lambda>_. Inr (s\<lparr>is_main_sleeping := True, mutex := None,
        Producer_tid := Some (nat num_producer_threads), Consumer_tid := Some (nat num_consumer_threads),
        ring := (ring s)\<lparr>head_index := 0, tail_index := 0, n := 0, full_sem := 0,
          empty_sem := nat buff_size\<rparr>\<rparr>)))"

definition cleanup_state :: "(nat \<Rightarrow> int) \<Rightarrow> bb_state \<Rightarrow> bb_state c_result" where
  "cleanup_state rc s =
     (if Producer_tid s = None then Inl (Assertion 112)
      else if Consumer_tid s = None then Inl (Assertion 114)
      else c_bind (checked_calls rc 5 [119, 124]) (\<lambda>_.
        if mutex_destroy_ok (mutex s) then Inr s else Inl (Assertion 129)))"

definition main_step :: "(nat \<Rightarrow> bool) \<Rightarrow> (nat \<Rightarrow> int) \<Rightarrow> int \<Rightarrow> nat \<Rightarrow> nat \<Rightarrow> bb_state \<Rightarrow> bb_state option" where
  "main_step created rc mst np nc s = (case bb_main s of
     BM_init \<Rightarrow> Some (case init_state rc (int np) (int nc) BUFFER_SIZE s of
       Inl e \<Rightarrow> crash s | Inr s' \<Rightarrow> s'\<lparr>bb_main := BM_create 0\<rparr>)
   | BM_create i \<Rightarrow> Some (
       if i < np + nc
       then s\<lparr>at := (at s)(i := if \<not> created i then B_unborn else if i < np then P_sleep else C_sleep),
              bb_main := BM_create (i + 1)\<rparr>
       else s\<lparr>bb_main := BM_sleep\<rparr>)
   | BM_sleep \<Rightarrow> Some (case rand_sleep (-1) mst False 0 of
       Inl e \<Rightarrow> crash s | Inr _ \<Rightarrow> s\<lparr>bb_main := BM_wake\<rparr>)
   | BM_wake \<Rightarrow> Some (s\<lparr>is_main_sleeping := False, bb_main := BM_join 0\<rparr>)
   | BM_join i \<Rightarrow>
       if i < np + nc
       then if at s i = B_unborn then Some (crash s)
            else if at s i = B_exited then Some (s\<lparr>bb_main := BM_join (i + 1)\<rparr>) else None
       else Some (s\<lparr>bb_main := BM_cleanup\<rparr>)
   | BM_cleanup \<Rightarrow> Some (case cleanup_state rc s of
       Inl e \<Rightarrow> crash s | Inr s' \<Rightarrow> s'\<lparr>bb_main := BM_exit\<rparr>)
   | BM_exit \<Rightarrow> None)"

fun bb_step :: "(nat \<Rightarrow> bool) \<Rightarrow> (nat \<Rightarrow> int) \<Rightarrow> int \<Rightarrow> nat \<Rightarrow> nat \<Rightarrow> bb_event \<Rightarrow> bb_state \<Rightarrow> bb_state option" where
  "bb_step cr rc mst np nc Main s = (if bb_crashed s then None else main_step cr rc mst np nc s)"
| "bb_step cr rc mst np nc (Thread t r) s = (if bb_crashed s then None
     else if t < np then Producer_thread_func t r s else Consumer_thread_func t r s)"

text \<open>The arguments of \<open>main\<close>: \<open>None\<close> is the usage error, an early return of -1.\<close>

definition main_args :: "string list \<Rightarrow> (int \<times> int \<times> int) option c_result" where
  "main_args argv =
     (if length argv = 1
      then Inr (Some (DEFAULT_MAIN_SLEEP_TIME, DEFAULT_NUM_PRODUCER_THREADS, DEFAULT_NUM_CONSUMER_THREADS))
      else if length argv = 4
      then c_bind (c_atoi (argv ! 1)) (\<lambda>t. if t \<le> 0 then Inr None else
           c_bind (c_atoi (argv ! 2)) (\<lambda>np. if np \<le> 0 then Inr None else
           c_bind (c_atoi (argv ! 3)) (\<lambda>nc. if nc \<le> 0 then Inr None else Inr (Some (t, np, nc)))))
      else Inr None)"

section \<open>Invariant\<close>

definition in_cs :: "bb_pc \<Rightarrow> bool" where
  "in_cs p \<longleftrightarrow> p \<in> {I_test, I_wait, I_store, I_tail, I_wrap, I_n, I_post, I_unlock,
     R_test, R_wait, R_read, R_clear, R_head, R_wrap, R_n, R_post, R_unlock}"

definition producer_pc :: "bb_pc \<Rightarrow> bool" where
  "producer_pc p \<longleftrightarrow> p \<in> {P_sleep, P_gen, I_lock, I_test, I_wait, I_store, I_tail, I_wrap, I_n,
     I_post, I_unlock, P_while}"

definition consumer_pc :: "bb_pc \<Rightarrow> bool" where
  "consumer_pc p \<longleftrightarrow> p \<in> {C_sleep, R_lock, R_test, R_wait, R_read, R_clear, R_head, R_wrap, R_n,
     R_post, R_unlock, C_while}"

text \<open>Indices of the ring, kept folded in the proofs.\<close>

definition wrap :: "int \<Rightarrow> int" where
  "wrap x = x mod 5"

text \<open>The \<open>k\<close> items from position \<open>h\<close> on, cyclically.\<close>

definition items :: "int list \<Rightarrow> int \<Rightarrow> nat \<Rightarrow> int list" where
  "items bs h k = map (\<lambda>j. bs ! nat (wrap (h + int j))) [0..<k]"

text \<open>The queue the ring stands for: a removal happens when the item is read.\<close>

definition queue_at :: "bb_pc \<Rightarrow> ring \<Rightarrow> int list" where
  "queue_at p b =
     (if p = R_clear \<or> p = R_head then items (buffer b) (head_index b + 1) (nat (n b - 1))
      else if p = R_wrap \<or> p = R_n then items (buffer b) (head_index b) (nat (n b - 1))
      else items (buffer b) (head_index b) (nat (n b)))"

definition sems :: "ring \<Rightarrow> int \<Rightarrow> int \<Rightarrow> bool" where
  "sems b df de \<longleftrightarrow> int (full_sem b) + df = n b \<and> int (empty_sem b) + de = 5 - n b"

definition base :: "ring \<Rightarrow> bool" where
  "base b \<longleftrightarrow> 0 \<le> head_index b \<and> head_index b < 5 \<and> tail_index b = wrap (head_index b + n b)"

definition ring_at :: "bb_pc \<Rightarrow> ring \<Rightarrow> int \<Rightarrow> bool" where
  "ring_at p b x = (let h = head_index b; k = n b in case p of
     I_wait \<Rightarrow> base b \<and> sems b 0 0 \<and> k < 5
   | I_store \<Rightarrow> base b \<and> sems b 0 1 \<and> k < 5
   | I_tail \<Rightarrow> base b \<and> sems b 0 1 \<and> k < 5 \<and> buffer b ! nat (wrap (h + k)) = x
   | I_wrap \<Rightarrow> 0 \<le> h \<and> h < 5 \<and> tail_index b = wrap (h + k) + 1 \<and> sems b 0 1 \<and> k < 5 \<and>
       buffer b ! nat (wrap (h + k)) = x
   | I_n \<Rightarrow> 0 \<le> h \<and> h < 5 \<and> tail_index b = wrap (h + k + 1) \<and> sems b 0 1 \<and> k < 5 \<and>
       buffer b ! nat (wrap (h + k)) = x
   | I_post \<Rightarrow> base b \<and> sems b 1 0 \<and> k > 0
   | R_wait \<Rightarrow> base b \<and> sems b 0 0 \<and> k > 0
   | R_read \<Rightarrow> base b \<and> sems b 1 0 \<and> k > 0
   | R_clear \<Rightarrow> base b \<and> sems b 1 0 \<and> k > 0
   | R_head \<Rightarrow> base b \<and> sems b 1 0 \<and> k > 0
   | R_wrap \<Rightarrow> 0 < h \<and> h \<le> 5 \<and> tail_index b = wrap (h + k - 1) \<and> sems b 1 0 \<and> k > 0
   | R_n \<Rightarrow> 0 \<le> h \<and> h < 5 \<and> tail_index b = wrap (h + k - 1) \<and> sems b 1 0 \<and> k > 0
   | R_post \<Rightarrow> base b \<and> sems b 0 1 \<and> k < 5
   | _ \<Rightarrow> base b \<and> sems b 0 0)"

definition core :: "bb_pc \<Rightarrow> int \<Rightarrow> bb_state \<Rightarrow> bool" where
  "core p x s \<longleftrightarrow> length (buffer (ring s)) = 5 \<and> 0 \<le> n (ring s) \<and> n (ring s) \<le> 5 \<and>
     ring_at p (ring s) x \<and> inserted s = consumed s @ queue_at p (ring s)"

definition ring_ok :: "bb_state \<Rightarrow> bool" where
  "ring_ok s \<longleftrightarrow> (case mutex s of None \<Rightarrow> core P_while 0 s | Some h \<Rightarrow> core (at s h) (item s h) s)"

definition lock_ok :: "bb_state \<Rightarrow> bool" where
  "lock_ok s \<longleftrightarrow> (\<forall>t. in_cs (at s t) \<longleftrightarrow> mutex s = Some t)"

definition kinds_ok :: "nat \<Rightarrow> nat \<Rightarrow> bb_state \<Rightarrow> bool" where
  "kinds_ok np nc s \<longleftrightarrow> (\<forall>t. at s t = B_unborn \<or> at s t = B_exited \<or>
     (if t < np then producer_pc (at s t) else consumer_pc (at s t)))"

definition main_ok :: "(nat \<Rightarrow> bool) \<Rightarrow> nat \<Rightarrow> nat \<Rightarrow> bb_state \<Rightarrow> bool" where
  "main_ok cr np nc s \<longleftrightarrow> (\<forall>t \<ge> np + nc. at s t = B_unborn) \<and>
     (bb_main s \<noteq> BM_init \<longrightarrow> Producer_tid s = Some np \<and> Consumer_tid s = Some nc) \<and>
     (case bb_main s of
        BM_init \<Rightarrow> (\<forall>t. at s t = B_unborn) \<and> inserted s = [] \<and> consumed s = [] \<and>
          length (buffer (ring s)) = 5
      | BM_create i \<Rightarrow> i \<le> np + nc \<and> (\<forall>t. at s t = B_unborn \<longleftrightarrow> i \<le> t \<or> \<not> cr t) \<and> is_main_sleeping s
      | BM_sleep \<Rightarrow> (\<forall>t < np + nc. at s t = B_unborn \<longleftrightarrow> \<not> cr t) \<and> is_main_sleeping s
      | BM_wake \<Rightarrow> (\<forall>t < np + nc. at s t = B_unborn \<longleftrightarrow> \<not> cr t) \<and> is_main_sleeping s
      | BM_join i \<Rightarrow> i \<le> np + nc \<and> (\<forall>t < np + nc. at s t = B_unborn \<longleftrightarrow> \<not> cr t) \<and>
          (\<forall>t < i. at s t = B_exited) \<and> \<not> is_main_sleeping s
      | _ \<Rightarrow> (\<forall>t < np + nc. at s t = B_exited) \<and> \<not> is_main_sleeping s)"

text \<open>What can go wrong in \<open>main\<close>: its arguments or an allocation, initialisation, creation or destruction.\<close>

definition call_failed :: "(nat \<Rightarrow> bool) \<Rightarrow> (nat \<Rightarrow> int) \<Rightarrow> nat \<Rightarrow> nat \<Rightarrow> bool" where
  "call_failed cr rc np nc \<longleftrightarrow> (\<exists>k < 7. rc k \<noteq> 0) \<or> (\<exists>i < np + nc. \<not> cr i)"

definition bb_inv :: "(nat \<Rightarrow> bool) \<Rightarrow> (nat \<Rightarrow> int) \<Rightarrow> int \<Rightarrow> nat \<Rightarrow> nat \<Rightarrow> bb_state \<Rightarrow> bool" where
  "bb_inv cr rc mst np nc s \<longleftrightarrow> (0 < mst \<and> 0 < np \<and> 0 < nc \<and> bb_crashed s \<longrightarrow> call_failed cr rc np nc) \<and>
     lock_ok s \<and> ring_ok s \<and> kinds_ok np nc s \<and> main_ok cr np nc s"

section \<open>The ring as a list\<close>

lemma items_0 [simp]: "items bs h 0 = []"
  by (simp add: items_def)

lemma wrap_simps [simp]:
  "x mod BUFFER_SIZE = wrap x" "0 \<le> wrap x" "wrap x < 5"
  "wrap (wrap x + 1) = wrap (x + 1)" "wrap (wrap x + y) = wrap (x + y)" "wrap (wrap x) = wrap x"
  by (simp_all add: wrap_def BUFFER_SIZE_def mod_simps)

lemma wrap_diff [simp]: "wrap (wrap x + y - z) = wrap (x + y - z)"
  using mod_add_left_eq [of x 5 "y - z"] by (simp add: wrap_def algebra_simps)

lemma wrap_nat [simp]: "nat (wrap x) < 5"
  by (simp add: wrap_def nat_less_iff)

lemma wrap_id [simp]: "0 \<le> x \<Longrightarrow> x < 5 \<Longrightarrow> wrap x = x"
  by (simp add: wrap_def)

lemma items_mod [simp]: "items bs (wrap h) k = items bs h k"
  by (simp add: items_def)

lemma items_snoc: "items bs h (Suc k) = items bs h k @ [bs ! nat (wrap (h + int k))]"
  by (simp add: items_def)

lemma items_cons: "items bs h (Suc k) = bs ! nat (wrap h) # items bs (h + 1) k"
  by (simp add: items_def map_upt_Suc algebra_simps del: upt_Suc)

lemma slot_neq:
  fixes h i j :: int
  assumes "0 \<le> i" "i < j" "j < 5"
  shows "nat (wrap (h + i)) \<noteq> nat (wrap (h + j))"
  unfolding wrap_def
proof
  assume "nat ((h + i) mod 5) = nat ((h + j) mod 5)"
  then have "(h + i) mod 5 = (h + j) mod 5" by (simp add: nat_eq_iff)
  then have "5 dvd j - i" by (metis add_diff_cancel_left mod_eq_dvd_iff)
  with assms show False using zdvd_imp_le [of 5 "j - i"] by linarith
qed

lemma items_write:
  assumes "int k \<le> m" "m < 5"
  shows "items (bs[nat (wrap (h + m)) := v]) h k = items bs h k"
  unfolding items_def
proof (rule map_cong [OF refl])
  fix j assume "j \<in> set [0..<k]"
  then have "nat (wrap (h + m)) \<noteq> nat (wrap (h + int j))"
    using slot_neq [of "int j" m h] assms by auto
  then show "bs[nat (wrap (h + m)) := v] ! nat (wrap (h + int j)) = bs ! nat (wrap (h + int j))"
    by simp
qed

lemma items_write_head:
  assumes "0 \<le> h" "h < 5" "k \<le> 4"
  shows "items (bs[nat h := v]) (h + 1) k = items bs (h + 1) k"
  using items_write [of k 4 bs "h + 1" v] assms by (simp add: wrap_def)


section \<open>Every step keeps the invariant\<close>

lemmas bb_defs = goto_def crash_def insert_step_def remove_step_def Producer_thread_func_def
  Consumer_thread_func_def rand_sleep_def MAX_PC_SLEEP_TIME_def Let_def

lemma bb_in_cs_simps [simp]:
  "in_cs I_test" "in_cs I_wait" "in_cs I_store" "in_cs I_tail" "in_cs I_wrap" "in_cs I_n"
  "in_cs I_post" "in_cs I_unlock" "in_cs R_test" "in_cs R_wait" "in_cs R_read" "in_cs R_clear"
  "in_cs R_head" "in_cs R_wrap" "in_cs R_n" "in_cs R_post" "in_cs R_unlock"
  "\<not> in_cs B_unborn" "\<not> in_cs P_sleep" "\<not> in_cs P_gen" "\<not> in_cs I_lock" "\<not> in_cs P_while"
  "\<not> in_cs C_sleep" "\<not> in_cs R_lock" "\<not> in_cs C_while" "\<not> in_cs B_exited"
  by (simp_all add: in_cs_def)

definition thread_step :: "nat \<Rightarrow> tid \<Rightarrow> int \<Rightarrow> bb_state \<Rightarrow> bb_state option" where
  "thread_step np t r s = (if t < np then Producer_thread_func t r s else Consumer_thread_func t r s)"

lemma bb_lock_okD: "lock_ok s \<Longrightarrow> in_cs (at s t) \<longleftrightarrow> mutex s = Some t"
  by (simp add: lock_ok_def)

lemma thread_lock_ok:
  assumes "lock_ok s" "thread_step np t r s = Some s'"
  shows "lock_ok s'"
  unfolding lock_ok_def
proof
  fix u
  show "in_cs (at s' u) \<longleftrightarrow> mutex s' = Some u"
    using assms(2) bb_lock_okD [OF assms(1), of t] bb_lock_okD [OF assms(1), of u]
    by (cases "at s t"; cases "u = t")
       (auto simp: thread_step_def bb_defs split: if_splits sum.splits option.splits)
qed

lemma thread_move:
  assumes "thread_step np t r s = Some s'"
  shows "at s t \<noteq> B_unborn" "at s t \<noteq> B_exited" "bb_main s' = bb_main s" "at s' t \<noteq> B_unborn"
    "is_main_sleeping s' = is_main_sleeping s" "u \<noteq> t \<Longrightarrow> at s' u = at s u \<and> item s' u = item s u"
  using assms
  by (cases "at s t"; auto simp: thread_step_def bb_defs split: if_splits sum.splits option.splits)+

lemma thread_kinds_ok:
  assumes "kinds_ok np nc s" "thread_step np t r s = Some s'"
  shows "kinds_ok np nc s'"
  unfolding kinds_ok_def
proof
  fix u
  have "at s u = B_unborn \<or> at s u = B_exited \<or>
     (if u < np then producer_pc (at s u) else consumer_pc (at s u))"
    using assms(1) by (simp add: kinds_ok_def)
  then show "at s' u = B_unborn \<or> at s' u = B_exited \<or>
     (if u < np then producer_pc (at s' u) else consumer_pc (at s' u))"
    using assms(2) thread_move(6) [OF assms(2), of u]
    by (cases "at s t"; cases "u = t")
       (auto simp: thread_step_def bb_defs producer_pc_def consumer_pc_def
         split: if_splits sum.splits option.splits)
qed

lemma thread_main_ok:
  assumes "main_ok cr np nc s" "thread_step np t r s = Some s'"
  shows "main_ok cr np nc s'"
proof -
  note m = thread_move [OF assms(2)]
  have "at s' u = B_unborn \<longleftrightarrow> at s u = B_unborn" "at s u = B_exited \<Longrightarrow> at s' u = B_exited" for u
    using m(1,2,4,6) by (cases "u = t"; auto)+
  moreover have "Producer_tid s' = Producer_tid s \<and> Consumer_tid s' = Consumer_tid s" using assms(2)
    by (cases "at s t"; clarsimp simp: thread_step_def bb_defs split: if_splits sum.splits option.splits)
  ultimately show ?thesis using assms(1) m(1,3,5)
    by (auto simp: main_ok_def split: bb_main_pc.splits)
qed


lemma BUFFER_SIZE_eq: "n b < BUFFER_SIZE \<longleftrightarrow> n b < 5"
  by (simp add: BUFFER_SIZE_def)

lemma queue_snoc:
  assumes "0 \<le> k"
  shows "items bs h (nat (1 + k)) = items bs h (nat k) @ [bs ! nat (wrap (h + k))]"
  using items_snoc [of bs h "nat k"] assms by (simp add: nat_add_distrib)

lemma queue_cons:
  assumes "0 < k" "0 \<le> h" "h < 5"
  shows "items bs h (nat k) = bs ! nat h # items bs (h + 1) (nat (k - 1))"
proof -
  have "nat k = Suc (nat (k - 1))" using assms(1) by simp
  then show ?thesis using items_cons [of bs h "nat (k - 1)"] assms(2,3) by simp
qed

lemma sem_le: "sems b df de \<Longrightarrow> 0 \<le> n b \<Longrightarrow> n b \<le> 5 \<Longrightarrow> 0 \<le> df \<Longrightarrow> 0 \<le> de \<Longrightarrow>
   int (full_sem b) < SEM_VALUE_MAX \<and> int (empty_sem b) < SEM_VALUE_MAX"
  by (simp add: sems_def SEM_VALUE_MAX_def)

lemmas core_defs = core_def ring_at_def queue_at_def base_def sems_def

text \<open>The statements of the critical sections, first those that only move an index or a counter.\<close>

lemma cs_core_simple:
  assumes "core (at s t) (item s t) s" "mutex s = Some t" "in_cs (at s t)"
    "at s t \<notin> {I_post, R_post, I_store, I_n, R_read, R_clear}" "thread_step np t r s = Some s'"
  shows "bb_crashed s' = bb_crashed s \<and> (if in_cs (at s' t) then mutex s' = Some t \<and> core (at s' t) (item s' t) s'
     else mutex s' = None \<and> core P_while 0 s')"
  using assms
  by (cases "at s t"; clarsimp simp: thread_step_def bb_defs split: if_splits option.splits;
      auto simp: core_defs Let_def BUFFER_SIZE_eq add_diff_eq)

lemma cs_core:
  assumes c: "core (at s t) (item s t) s" and m: "mutex s = Some t" and "in_cs (at s t)"
    and st: "thread_step np t r s = Some s'"
  shows "bb_crashed s' = bb_crashed s \<and> (if in_cs (at s' t) then mutex s' = Some t \<and> core (at s' t) (item s' t) s'
     else mutex s' = None \<and> core P_while 0 s')"
proof (cases "at s t")
  case I_post
  with c have "int (full_sem (ring s)) < SEM_VALUE_MAX"
    using sem_le [of "ring s" 1 0] by (simp add: core_def ring_at_def Let_def)
  with I_post c m st show ?thesis
    by (clarsimp simp: thread_step_def bb_defs split: if_splits) (simp add: core_defs Let_def)
next
  case R_post
  with c have "int (empty_sem (ring s)) < SEM_VALUE_MAX"
    using sem_le [of "ring s" 0 1] by (simp add: core_def ring_at_def Let_def)
  with R_post c m st show ?thesis
    by (clarsimp simp: thread_step_def bb_defs split: if_splits) (simp add: core_defs Let_def)
next
  case I_store
  have "0 \<le> tail_index (ring s)" "tail_index (ring s) < int (length (buffer (ring s)))"
    using c I_store by (simp_all add: core_defs Let_def)
  with I_store c m st show ?thesis
    by (clarsimp simp: thread_step_def bb_defs split: if_splits) (simp add: core_defs Let_def items_write)
next
  case I_n
  with c m st show ?thesis
    by (clarsimp simp: thread_step_def bb_defs split: if_splits)
       (auto simp: core_defs Let_def queue_snoc add.commute add.left_commute)
next
  case R_read
  have "0 \<le> head_index (ring s)" "head_index (ring s) < int (length (buffer (ring s)))"
    using c R_read by (simp_all add: core_defs Let_def)
  with R_read c m st show ?thesis
    by (clarsimp simp: thread_step_def bb_defs split: if_splits) (simp add: core_defs Let_def queue_cons)
next
  case R_clear
  have "0 \<le> head_index (ring s)" "head_index (ring s) < int (length (buffer (ring s)))"
    using c R_clear by (simp_all add: core_defs Let_def)
  with R_clear c m st show ?thesis
    by (clarsimp simp: thread_step_def bb_defs split: if_splits) (clarsimp simp: core_defs Let_def items_write_head)
qed (use cs_core_simple [OF assms(1-3) _ assms(4)] assms(3) in simp_all)

lemma core_outside:
  "\<not> in_cs p \<Longrightarrow> core p x s \<longleftrightarrow> core P_while 0 s"
  "core I_test x s \<longleftrightarrow> core P_while 0 s" "core R_test x s \<longleftrightarrow> core P_while 0 s"
  by (cases p; simp add: core_defs)+

lemma core_cong:
  "ring s' = ring s \<Longrightarrow> inserted s' = inserted s \<Longrightarrow> consumed s' = consumed s \<Longrightarrow> core p x s' = core p x s"
  by (simp add: core_def)

lemma outside_step:
  assumes "\<not> in_cs (at s t)" "thread_step np t r s = Some s'"
  shows "ring s' = ring s" "inserted s' = inserted s" "consumed s' = consumed s"
    "bb_crashed s' = bb_crashed s"
    "mutex s' = mutex s \<and> \<not> in_cs (at s' t) \<or>
     mutex s = None \<and> mutex s' = Some t \<and> (at s' t = I_test \<or> at s' t = R_test)"
  using assms
  by (cases "at s t"; clarsimp simp: thread_step_def bb_defs split: if_splits option.splits sum.splits)+

lemma thread_ring_ok:
  assumes "ring_ok s" "lock_ok s" "thread_step np t r s = Some s'"
  shows "ring_ok s' \<and> bb_crashed s' = bb_crashed s"
proof (cases "in_cs (at s t)")
  case True
  then have m: "mutex s = Some t" using bb_lock_okD [OF assms(2)] by simp
  with assms(1) have "core (at s t) (item s t) s" by (simp add: ring_ok_def)
  note c = cs_core [OF this m True assms(3)]
  show ?thesis
  proof (cases "in_cs (at s' t)")
    case True
    with c show ?thesis by (simp add: ring_ok_def)
  next
    case False
    with c show ?thesis by (simp add: ring_ok_def)
  qed
next
  case False
  note o = outside_step [OF this assms(3)]
  note cong = core_cong [OF o(1-3)]
  show ?thesis
  proof (cases "mutex s' = mutex s \<and> \<not> in_cs (at s' t)")
    case True
    then have m: "mutex s' = mutex s" by simp
    show ?thesis
    proof (cases "mutex s")
      case None
      with assms(1) m cong o(4) show ?thesis by (simp add: ring_ok_def)
    next
      case (Some h)
      then have "h \<noteq> t" using False bb_lock_okD [OF assms(2), of h] by auto
      with thread_move(6) [OF assms(3), of h] Some m cong assms(1) o(4) show ?thesis
        by (simp add: ring_ok_def)
    qed
  next
    case False
    with o(5) have m: "mutex s = None" "mutex s' = Some t" "at s' t = I_test \<or> at s' t = R_test"
      by blast+
    from m(1) assms(1) cong have "core P_while 0 s'" by (simp add: ring_ok_def)
    with m(3) have "core (at s' t) (item s' t) s'" using core_outside(2,3) by auto
    with m(2) o(4) show ?thesis by (simp add: ring_ok_def)
  qed
qed

text \<open>The steps of \<open>main\<close>.\<close>

lemma main_frame [simp]:
  "lock_ok (s\<lparr>bb_main := q\<rparr>) = lock_ok s" "ring_ok (s\<lparr>bb_main := q\<rparr>) = ring_ok s"
  "kinds_ok np nc (s\<lparr>bb_main := q\<rparr>) = kinds_ok np nc s"
  "lock_ok (s\<lparr>is_main_sleeping := b\<rparr>) = lock_ok s" "ring_ok (s\<lparr>is_main_sleeping := b\<rparr>) = ring_ok s"
  "kinds_ok np nc (s\<lparr>is_main_sleeping := b\<rparr>) = kinds_ok np nc s"
  "lock_ok (s\<lparr>bb_crashed := c\<rparr>) = lock_ok s" "ring_ok (s\<lparr>bb_crashed := c\<rparr>) = ring_ok s"
  "kinds_ok np nc (s\<lparr>bb_crashed := c\<rparr>) = kinds_ok np nc s"
  "main_ok cr np nc (s\<lparr>bb_crashed := c\<rparr>) = main_ok cr np nc s"
  by (cases "mutex s"; cases "bb_main s"; simp add: lock_ok_def ring_ok_def kinds_ok_def main_ok_def core_def)+

lemma bb_inv_crash:
  assumes "bb_inv cr rc mst np nc s" "0 < mst \<Longrightarrow> 0 < np \<Longrightarrow> 0 < nc \<Longrightarrow> call_failed cr rc np nc"
  shows "bb_inv cr rc mst np nc (crash s)"
  using assms by (simp add: bb_inv_def crash_def)

lemma bb_main_init_inv:
  assumes inv: "bb_inv cr rc mst np nc s" and at_pc: "bb_main s = BM_init"
    and st: "main_step cr rc mst np nc s = Some s'" and nf: "\<not> bb_crashed s"
  shows "bb_inv cr rc mst np nc s'"
proof (cases "init_state rc (int np) (int nc) BUFFER_SIZE s")
  case (Inl e)
  then have s': "s' = crash s" using st at_pc by (simp add: main_step_def)
  have "call_failed cr rc np nc" if "0 < np" "0 < nc"
    using that Inl checked_calls_ok [of rc 0 init_lines]
    by (cases "checked_calls rc 0 init_lines") (auto simp: call_failed_def init_state_def BUFFER_SIZE_def init_lines_def)
  then show ?thesis unfolding s' by (intro bb_inv_crash [OF inv])
next
  case (Inr r)
  have I: "lock_ok s" "ring_ok s" "kinds_ok np nc s" "main_ok cr np nc s"
    using inv by (simp_all add: bb_inv_def)
  have u: "at s t = B_unborn" for t using I(4) at_pc by (simp add: main_ok_def)
  let ?r = "(ring s)\<lparr>head_index := 0, tail_index := 0, n := 0, full_sem := 0, empty_sem := 5\<rparr>"
  let ?s = "s\<lparr>is_main_sleeping := True, mutex := None, Producer_tid := Some np, Consumer_tid := Some nc, ring := ?r, bb_main := BM_create 0\<rparr>"
  have "s' = ?s" using st at_pc Inr
    by (cases "checked_calls rc 0 init_lines") (auto simp: main_step_def init_state_def BUFFER_SIZE_def split: if_splits)
  moreover have "ring_ok ?s" using I(4) at_pc by (simp add: ring_ok_def core_defs Let_def main_ok_def)
  moreover have "main_ok cr np nc ?s" "kinds_ok np nc ?s" "lock_ok ?s"
    using u by (simp_all add: main_ok_def kinds_ok_def lock_ok_def)
  ultimately show ?thesis using nf by (simp add: bb_inv_def)
qed

lemma bb_main_create_inv:
  assumes inv: "bb_inv cr rc mst np nc s" and at_pc: "bb_main s = BM_create i"
    and st: "main_step cr rc mst np nc s = Some s'"
  shows "bb_inv cr rc mst np nc s'"
proof -
  have I: "lock_ok s" "ring_ok s" "kinds_ok np nc s" "main_ok cr np nc s"
    "0 < mst \<and> 0 < np \<and> 0 < nc \<and> bb_crashed s \<longrightarrow> call_failed cr rc np nc"
    using inv by (simp_all add: bb_inv_def)
  have i: "at s i = B_unborn" "i \<le> np + nc" using I(4) at_pc by (simp_all add: main_ok_def)
  then have "mutex s \<noteq> Some i" using bb_lock_okD [OF I(1), of i] by simp
  then have r: "ring_ok (s\<lparr>at := (at s)(i := p), bb_main := q\<rparr>)" for p q
    using I(2) by (cases "mutex s") (auto simp: ring_ok_def core_def)
  let ?s = "s\<lparr>at := (at s)(i := if \<not> cr i then B_unborn else if i < np then P_sleep else C_sleep), bb_main := BM_create (i + 1)\<rparr>"
  consider "i < np + nc" "s' = ?s" | "i = np + nc" "s' = s\<lparr>bb_main := BM_sleep\<rparr>"
    using st at_pc i(2) by (fastforce simp: main_step_def split: if_splits)
  then show ?thesis
  proof cases
    case 1
    have "lock_ok ?s" unfolding lock_ok_def using bb_lock_okD [OF I(1)] i(1)
      by (auto simp: \<open>mutex s \<noteq> Some i\<close>)
    moreover have "kinds_ok np nc ?s" unfolding kinds_ok_def
      using I(3) by (auto simp: kinds_ok_def producer_pc_def consumer_pc_def)
    moreover have "main_ok cr np nc ?s" using I(4) at_pc 1(1) by (auto simp: main_ok_def)
    ultimately show ?thesis unfolding 1(2) using r I(5) by (simp add: bb_inv_def)
  next
    case 2
    have "main_ok cr np nc s'" unfolding 2(2) using I(4) at_pc 2(1) by (auto simp: main_ok_def)
    with I 2(2) show ?thesis by (simp add: bb_inv_def)
  qed
qed

lemma bb_main_cleanup_inv:
  assumes inv: "bb_inv cr rc mst np nc s" and at_pc: "bb_main s = BM_cleanup"
    and st: "main_step cr rc mst np nc s = Some s'"
  shows "bb_inv cr rc mst np nc s'"
proof -
  have I: "lock_ok s" "main_ok cr np nc s" using inv by (simp_all add: bb_inv_def)
  have "mutex s = None"
  proof (rule ccontr)
    assume "mutex s \<noteq> None"
    then obtain h where "in_cs (at s h)" using bb_lock_okD [OF I(1)] by blast
    moreover have "at s h = B_exited \<or> at s h = B_unborn"
      using I(2) at_pc by (cases "h < np + nc") (simp_all add: main_ok_def)
    ultimately show False by auto
  qed
  then have c: "cleanup_state rc s = c_bind (checked_calls rc 5 [119, 124]) (\<lambda>_. Inr s)"
    using I(2) at_pc by (simp add: cleanup_state_def main_ok_def mutex_destroy_ok_def)
  show ?thesis
  proof (cases "checked_calls rc 5 [119, 124]")
    case (Inl e)
    then have "call_failed cr rc np nc" by (auto simp: call_failed_def split: if_splits)
    then show ?thesis using st at_pc c Inl bb_inv_crash [OF inv] by (simp add: main_step_def del: checked_calls.simps)
  next
    case (Inr u)
    have "main_ok cr np nc (s\<lparr>bb_main := BM_exit\<rparr>)" using I(2) at_pc by (simp add: main_ok_def)
    then show ?thesis using st at_pc c Inr inv by (auto simp: main_step_def bb_inv_def simp del: checked_calls.simps)
  qed
qed

lemma bb_main_join_inv:
  assumes inv: "bb_inv cr rc mst np nc s" and at_pc: "bb_main s = BM_join i"
    and st: "main_step cr rc mst np nc s = Some s'"
  shows "bb_inv cr rc mst np nc s'"
proof -
  have I: "main_ok cr np nc s" using inv by (simp add: bb_inv_def)
  consider (undefined) "i < np + nc" "at s i = B_unborn" "s' = crash s"
    | (joined) "i < np + nc" "at s i = B_exited" "s' = s\<lparr>bb_main := BM_join (i + 1)\<rparr>"
    | (all) "np + nc \<le> i" "s' = s\<lparr>bb_main := BM_cleanup\<rparr>"
    using st at_pc by (auto simp: main_step_def split: if_splits)
  then show ?thesis
  proof cases
    case undefined
    then have "call_failed cr rc np nc" using I at_pc by (auto simp: main_ok_def call_failed_def)
    then show ?thesis using bb_inv_crash [OF inv] undefined(3) by simp
  next
    case joined
    then have "main_ok cr np nc s'" using I at_pc by (simp add: main_ok_def less_Suc_eq)
    then show ?thesis using inv joined(3) by (simp add: bb_inv_def)
  next
    case all
    then have "main_ok cr np nc s'" using I at_pc by (simp add: main_ok_def)
    then show ?thesis using inv all(2) by (simp add: bb_inv_def)
  qed
qed

lemma bb_main_inv:
  assumes inv: "bb_inv cr rc mst np nc s" and st: "main_step cr rc mst np nc s = Some s'" and nf: "\<not> bb_crashed s"
  shows "bb_inv cr rc mst np nc s'"
proof -
  have I: "main_ok cr np nc s" using inv by (simp add: bb_inv_def)
  show ?thesis
  proof (cases "bb_main s")
    case BM_sleep
    then consider "s' = s\<lparr>bb_main := BM_wake\<rparr>" | "\<not> 0 < mst" "s' = crash s"
      using st by (auto simp: main_step_def rand_sleep_def split: if_splits)
    then show ?thesis
    proof cases
      case 1
      then have "main_ok cr np nc s'" using I BM_sleep by (simp add: main_ok_def)
      then show ?thesis using inv 1 by (simp add: bb_inv_def)
    next
      case 2
      then show ?thesis using bb_inv_crash [OF inv] by simp
    qed
  next
    case BM_wake
    then have s': "s' = s\<lparr>is_main_sleeping := False, bb_main := BM_join 0\<rparr>" using st by (simp add: main_step_def)
    then have "main_ok cr np nc s'" using I BM_wake by (simp add: main_ok_def)
    with inv s' show ?thesis by (simp add: bb_inv_def)
  qed (use st bb_main_init_inv [OF inv _ st nf] bb_main_create_inv [OF inv _ st] bb_main_join_inv [OF inv _ st]
      bb_main_cleanup_inv [OF inv _ st] in \<open>simp_all add: main_step_def\<close>)
qed

lemma bb_inv_init: "bb_inv cr rc mst np nc bb_init"
  by (auto simp: bb_inv_def bb_init_def lock_ok_def kinds_ok_def main_ok_def ring_ok_def core_defs
      ring_init_def BUFFER_SIZE_def Let_def)

interpretation bb: invariant_system "bb_step cr rc mst np nc" bb_init "bb_inv cr rc mst np nc"
  for cr rc mst np nc
proof unfold_locales
  show "bb_inv cr rc mst np nc bb_init" by (rule bb_inv_init)
  fix s e s'
  assume inv: "bb_inv cr rc mst np nc s" and st: "bb_step cr rc mst np nc e s = Some s'"
  show "bb_inv cr rc mst np nc s'"
  proof (cases e)
    case Main
    with st bb_main_inv [OF inv] show ?thesis by (simp split: if_splits)
  next
    case (Thread t r)
    with st have ts: "thread_step np t r s = Some s'"
      by (simp add: thread_step_def split: if_splits)
    from inv have I: "lock_ok s" "ring_ok s" "kinds_ok np nc s" "main_ok cr np nc s"
      by (simp_all add: bb_inv_def)
    from thread_ring_ok [OF I(2,1) ts] thread_lock_ok [OF I(1) ts] thread_kinds_ok [OF I(3) ts]
      thread_main_ok [OF I(4) ts] inv
    show ?thesis by (simp add: bb_inv_def)
  qed
qed

section \<open>Progress and termination\<close>

text \<open>
  The thread that holds the mutex can always move: the semaphore it waits for inside the
  critical section is positive whenever the test on \<open>n\<close> let it through.
\<close>

lemma kinds_okD: "kinds_ok np nc s \<Longrightarrow> at s t = B_unborn \<or> at s t = B_exited \<or>
   (if t < np then producer_pc (at s t) else consumer_pc (at s t))"
  by (simp add: kinds_ok_def)

lemma bb_holder_moves:
  assumes "ring_ok s" "mutex s = Some t" "in_cs (at s t)" "kinds_ok np nc s"
  shows "\<exists>s'. thread_step np t 0 s = Some s'"
proof -
  have c: "core (at s t) (item s t) s" using assms(1,2) by (simp add: ring_ok_def)
  have k: "if t < np then producer_pc (at s t) else consumer_pc (at s t)"
    using assms(3) kinds_okD [OF assms(4), of t] by auto
  have "at s t = I_wait \<Longrightarrow> 0 < empty_sem (ring s)" "at s t = R_wait \<Longrightarrow> 0 < full_sem (ring s)"
    using c by (auto simp: core_defs Let_def)
  with k assms(3) show ?thesis
    by (cases "at s t") (auto simp: thread_step_def bb_defs producer_pc_def consumer_pc_def split: if_splits)
qed

lemma bb_outsider_moves:
  assumes "mutex s = None" "\<not> in_cs (at s t)" "at s t \<noteq> B_unborn" "at s t \<noteq> B_exited" "kinds_ok np nc s"
  shows "\<exists>s'. thread_step np t 0 s = Some s'"
proof -
  have "if t < np then producer_pc (at s t) else consumer_pc (at s t)"
    using assms(3,4) kinds_okD [OF assms(5), of t] by blast
  with assms(1,2) show ?thesis
    by (cases "at s t") (auto simp: thread_step_def bb_defs producer_pc_def consumer_pc_def split: if_splits)
qed

lemma bb_progress:
  assumes inv: "bb_inv cr rc mst np nc s" and nc: "\<not> bb_crashed s" and "bb_main s \<noteq> BM_exit"
  shows "\<exists>e s'. bb_step cr rc mst np nc e s = Some s'"
proof -
  have I: "lock_ok s" "ring_ok s" "kinds_ok np nc s" "main_ok cr np nc s"
    using inv by (simp_all add: bb_inv_def)
  have th: "\<exists>e s'. bb_step cr rc mst np nc e s = Some s'" if "thread_step np t 0 s = Some s''" for t s''
    using that nc by (intro exI [of _ "Thread t 0"] exI [of _ s'']) (simp add: thread_step_def)
  show ?thesis
  proof (cases "main_step cr rc mst np nc s")
    case (Some s')
    then show ?thesis using nc by (intro exI [of _ Main] exI [of _ s']) simp
  next
    case None
    with assms(3) obtain i where i: "bb_main s = BM_join i" "i < np + nc" "at s i \<noteq> B_exited"
      "at s i \<noteq> B_unborn"
      by (auto simp: main_step_def split: bb_main_pc.splits if_splits)
    show ?thesis
    proof (cases "mutex s")
      case (Some h)
      then have "in_cs (at s h)" using bb_lock_okD [OF I(1)] by simp
      from bb_holder_moves [OF I(2) Some this I(3)] th show ?thesis by blast
    next
      case None
      then have "\<not> in_cs (at s i)" using bb_lock_okD [OF I(1), of i] by simp
      from bb_outsider_moves [OF None this i(4,3) I(3)] th show ?thesis by blast
    qed
  qed
qed

text \<open>Once \<open>is_main_sleeping\<close> is cleared, every thread runs at most to the end of its iteration.\<close>

fun pc_rank :: "bb_pc \<Rightarrow> nat" where
  "pc_rank P_sleep = 12" | "pc_rank P_gen = 11" | "pc_rank I_lock = 10" | "pc_rank I_test = 9"
| "pc_rank I_wait = 8" | "pc_rank I_store = 7" | "pc_rank I_tail = 6" | "pc_rank I_wrap = 5"
| "pc_rank I_n = 4" | "pc_rank I_post = 3" | "pc_rank I_unlock = 2" | "pc_rank P_while = 1"
| "pc_rank C_sleep = 12" | "pc_rank R_lock = 11" | "pc_rank R_test = 10" | "pc_rank R_wait = 9"
| "pc_rank R_read = 8" | "pc_rank R_clear = 7" | "pc_rank R_head = 6" | "pc_rank R_wrap = 5"
| "pc_rank R_n = 4" | "pc_rank R_post = 3" | "pc_rank R_unlock = 2" | "pc_rank C_while = 1"
| "pc_rank B_unborn = 0" | "pc_rank B_exited = 0"

fun main_rank :: "nat \<Rightarrow> bb_main_pc \<Rightarrow> nat" where
  "main_rank N (BM_join i) = N - i + 2" | "main_rank N BM_cleanup = 1" | "main_rank N _ = 0"

definition bb_measure :: "nat \<Rightarrow> bb_state \<Rightarrow> nat" where
  "bb_measure N s = (if bb_crashed s then 0 else main_rank N (bb_main s) + (\<Sum>t<N. pc_rank (at s t)))"

lemma pc_rank_le: "pc_rank p \<le> 12"
  by (cases p) simp_all

lemma bb_measure_le: "bb_measure N s \<le> 13 * N + 2"
proof -
  have "(\<Sum>t<N. pc_rank (at s t)) \<le> (\<Sum>t<N. 12)" by (rule sum_mono) (rule pc_rank_le)
  moreover have "main_rank N (bb_main s) \<le> N + 2" by (cases "bb_main s") simp_all
  ultimately show ?thesis by (simp add: bb_measure_def)
qed

lemma thread_rank:
  assumes "thread_step np t r s = Some s'" "bb_crashed s' = bb_crashed s" "\<not> bb_crashed s"
    "\<not> is_main_sleeping s"
  shows "pc_rank (at s' t) < pc_rank (at s t)"
  using assms
  by (cases "at s t"; clarsimp simp: thread_step_def bb_defs split: if_splits option.splits sum.splits)

lemma bb_measure_decreases:
  assumes inv: "bb_inv cr rc mst np nc s" and "\<not> is_main_sleeping s"
    "bb_main s \<noteq> BM_init" and st: "bb_step cr rc mst np nc e s = Some s'"
  shows "bb_measure (np + nc) s' < bb_measure (np + nc) s \<and> \<not> is_main_sleeping s' \<and> bb_main s' \<noteq> BM_init"
proof (cases e)
  case Main
  have I: "main_ok cr np nc s" "\<not> bb_crashed s" using inv Main st by (simp_all add: bb_inv_def split: if_splits)
  show ?thesis using Main st I assms(2,3)
    by (cases "bb_main s")
       (auto simp: main_ok_def main_step_def bb_measure_def crash_def cleanup_state_def split: if_splits sum.splits)
next
  case (Thread t r)
  with st have ts: "thread_step np t r s = Some s'" "\<not> bb_crashed s"
    by (simp_all add: thread_step_def split: if_splits)
  have I: "lock_ok s" "ring_ok s" "main_ok cr np nc s" using inv by (simp_all add: bb_inv_def)
  note m = thread_move [OF ts(1)]
  have nf: "\<not> bb_crashed s'" using thread_ring_ok [OF I(2,1) ts(1)] ts(2) by simp
  have "np + nc \<le> t \<Longrightarrow> at s t = B_unborn" using I(3) by (simp add: main_ok_def)
  then have t: "t < np + nc" using m(1) by (meson not_less)
  have lt: "pc_rank (at s' t) < pc_rank (at s t)"
    using thread_rank [OF ts(1) _ ts(2) assms(2)] nf ts(2) by simp
  have "(\<Sum>u<np + nc. pc_rank (at s' u)) < (\<Sum>u<np + nc. pc_rank (at s u))"
  proof (rule sum_strict_mono_ex1)
    show "\<forall>u\<in>{..<np + nc}. pc_rank (at s' u) \<le> pc_rank (at s u)"
      using lt m(6) by (metis order.strict_implies_order order_refl)
    show "\<exists>u\<in>{..<np + nc}. pc_rank (at s' u) < pc_rank (at s u)" using lt t by blast
  qed simp
  then show ?thesis using m(3,5) assms(2,3) nf ts(2) by (simp add: bb_measure_def)
qed

lemma bb_run_bound:
  assumes "bb_inv cr rc mst np nc s" "\<not> is_main_sleeping s" "bb_main s \<noteq> BM_init"
    "run (bb_step cr rc mst np nc) es s = Some s'"
  shows "length es + bb_measure (np + nc) s' \<le> bb_measure (np + nc) s"
  using assms
proof (induction es arbitrary: s)
  case (Cons e es)
  then obtain s1 where s1: "bb_step cr rc mst np nc e s = Some s1"
    "run (bb_step cr rc mst np nc) es s1 = Some s'" by (auto split: option.splits)
  note d = bb_measure_decreases [OF Cons.prems(1-3) s1(1)]
  have "length es + bb_measure (np + nc) s' \<le> bb_measure (np + nc) s1"
    using Cons.IH [OF bb.inv_step [OF Cons.prems(1) s1(1)] _ _ s1(2)] d by blast
  with d show ?case by simp
qed simp

section \<open>The queue\<close>

definition queue :: "bb_state \<Rightarrow> int list" where
  "queue s = (case mutex s of None \<Rightarrow> queue_at P_while (ring s) | Some h \<Rightarrow> queue_at (at s h) (ring s))"

lemma length_items [simp]: "length (items bs h k) = k"
  by (simp add: items_def)

lemma ring_ok_queue:
  assumes "ring_ok s"
  shows "inserted s = consumed s @ queue s" "length (queue s) \<le> 5"
proof -
  have "inserted s = consumed s @ queue s \<and> length (queue s) \<le> 5"
  proof (cases "mutex s")
    case None
    with assms have "core P_while 0 s" by (simp add: ring_ok_def)
    with None show ?thesis by (auto simp: core_def queue_def queue_at_def)
  next
    case (Some h)
    with assms have "core (at s h) (item s h) s" by (simp add: ring_ok_def)
    with Some show ?thesis by (auto simp: core_def queue_def queue_at_def)
  qed
  then show "inserted s = consumed s @ queue s" "length (queue s) \<le> 5" by blast+
qed

section \<open>Properties\<close>

text \<open>A schedule of one producer and one consumer: item 7 is put in, and read out by the consumer.\<close>

definition one_item :: "bb_event list" where
  "one_item = replicate 4 Main @ Thread 0 2 # replicate 11 (Thread 0 7) @ replicate 6 (Thread 1 0)"

lemma one_item_run:
  "map_option (\<lambda>s. (inserted s, consumed s, is_main_sleeping s))
     (run (bb_step (\<lambda>_. True) no_error 5 1 1) one_item bb_init) = Some ([7], [7], True)"
  by code_simp

lemma one_item_state:
  obtains s where "run (bb_step (\<lambda>_. True) no_error 5 1 1) one_item bb_init = Some s"
    "inserted s = [7]" "consumed s = [7]" "is_main_sleeping s"
  using one_item_run by (auto simp del: run.simps)

lemma default_args:
  "main_args [''pcp''] = Inr (Some (5, 1, 1))"
  by (simp add: main_args_def DEFAULT_MAIN_SLEEP_TIME_def DEFAULT_NUM_PRODUCER_THREADS_def
      DEFAULT_NUM_CONSUMER_THREADS_def)

lemma main_args_positive:
  "main_args argv = Inr (Some (mst, p, c)) \<Longrightarrow> 0 < mst \<and> 0 < p \<and> 0 < c"
  by (auto simp: main_args_def c_bind_Inr_iff DEFAULT_MAIN_SLEEP_TIME_def
      DEFAULT_NUM_PRODUCER_THREADS_def DEFAULT_NUM_CONSUMER_THREADS_def split: if_splits)

text \<open>C4: With any numbers of producers and consumers, in any interleaving and whatever calls fail, the items consumed so
  far are the first items inserted, in order, and at most five inserted items are outstanding;
  when nobody is in a critical section the outstanding items are the ring's contents from
  \<open>head_index\<close> on, counted alike by \<open>n\<close>, \<open>full_sem\<close> and \<open>BUFFER_SIZE\<close> minus \<open>empty_sem\<close>.\<close>

theorem bb_fifo:
  assumes "reachable (bb_step created rc mst np nc) bb_init s"
  shows "\<exists>q. inserted s = consumed s @ q \<and> length q \<le> 5 \<and>
    (mutex s = None \<longrightarrow> q = items (buffer (ring s)) (head_index (ring s)) (length q) \<and>
       n (ring s) = int (length q) \<and> full_sem (ring s) = length q \<and> empty_sem (ring s) = 5 - length q)"
proof -
  have r: "ring_ok s" using bb.reachable_inv [OF assms] by (simp add: bb_inv_def)
  note q = ring_ok_queue [OF r]
  have "queue s = items (buffer (ring s)) (head_index (ring s)) (length (queue s))"
       "n (ring s) = int (length (queue s))" "full_sem (ring s) = length (queue s)"
       "empty_sem (ring s) = 5 - length (queue s)" if "mutex s = None"
  proof -
    have "core P_while 0 s" using r that by (simp add: ring_ok_def)
    then have c: "int (full_sem (ring s)) = n (ring s)" "int (empty_sem (ring s)) = 5 - n (ring s)"
      "0 \<le> n (ring s)" by (simp_all add: core_def ring_at_def sems_def)
    have "queue s = items (buffer (ring s)) (head_index (ring s)) (nat (n (ring s)))"
      using that by (simp add: queue_def queue_at_def)
    moreover have "full_sem (ring s) = nat (n (ring s))" "empty_sem (ring s) = 5 - nat (n (ring s))"
      using arg_cong [OF c(1), of nat] arg_cong [OF c(2), of nat] c(3)
      by (simp_all add: nat_diff_distrib')
    ultimately show "queue s = items (buffer (ring s)) (head_index (ring s)) (length (queue s))"
       "n (ring s) = int (length (queue s))" "full_sem (ring s) = length (queue s)"
       "empty_sem (ring s) = 5 - length (queue s)" using c(3) by simp_all
  qed
  then show ?thesis by (intro exI [of _ "queue s"] conjI impI q)
qed

theorem bb_fifo_witness:
  "\<exists>s. reachable (bb_step (\<lambda>_. True) no_error 5 1 1) bb_init s \<and> consumed s = [7] \<and> inserted s = [7] @ []"
proof -
  obtain s where s: "run (bb_step (\<lambda>_. True) no_error 5 1 1) one_item bb_init = Some s" "inserted s = [7]"
    "consumed s = [7]" by (rule one_item_state)
  have r: "reachable (bb_step (\<lambda>_. True) no_error 5 1 1) bb_init s"
    by (rule run_reachable [OF reachable.start s(1)])
  from bb_fifo [OF r] s r show ?thesis by auto
qed

text \<open>C5: Waiting on a semaphore while holding the mutex does not deadlock this program: for every accepted
  command line, whatever the allocations, initialisations, creations of threads and destructions return, if in a reachable state no
  thread can move and the program has not stopped, then \<open>main\<close> has returned. The program stops with an assertion, an
  access out of bounds or an undefined join only if one of these calls has failed: an allocation or
  an initialisation in \<open>init_state\<close>, a \<open>pthread_create\<close>, which \<open>main\<close> does not check before it joins, or a
  \<open>sem_destroy\<close> in \<open>cleanup_state\<close>.\<close>

theorem bb_no_deadlock:
  assumes "main_args argv = Inr (Some (mst, p, c))"
    "reachable (bb_step created rc mst (nat p) (nat c)) bb_init s"
  shows "if bb_crashed s then (\<exists>k < 7. rc k \<noteq> 0) \<or> (\<exists>i < nat p + nat c. \<not> created i)
    else stuck (bb_step created rc mst (nat p) (nat c)) s \<longrightarrow> bb_main s = BM_exit"
proof -
  have pos: "0 < mst" "0 < nat p" "0 < nat c" using main_args_positive [OF assms(1)] by auto
  have inv: "bb_inv created rc mst (nat p) (nat c) s" by (rule bb.reachable_inv [OF assms(2)])
  then have "bb_crashed s \<Longrightarrow> call_failed created rc (nat p) (nat c)" using pos by (simp add: bb_inv_def)
  moreover have "\<not> bb_crashed s \<Longrightarrow> bb_main s \<noteq> BM_exit \<Longrightarrow> \<not> stuck (bb_step created rc mst (nat p) (nat c)) s"
    using bb_progress [OF inv] unfolding stuck_def by (metis option.distinct(1))
  ultimately show ?thesis by (auto simp: call_failed_def)
qed

theorem bb_no_deadlock_witness:
  "main_args [''pcp''] = Inr (Some (5, 1, 1)) \<and>
   (\<exists>s. reachable (bb_step (\<lambda>_. True) no_error 5 (nat 1) (nat 1)) bb_init s \<and> consumed s = [7] \<and> \<not> bb_crashed s)"
proof -
  obtain s where s: "run (bb_step (\<lambda>_. True) no_error 5 1 1) one_item bb_init = Some s" "consumed s = [7]"
    by (rule one_item_state)
  have r: "reachable (bb_step (\<lambda>_. True) no_error 5 (nat 1) (nat 1)) bb_init s"
    using run_reachable [OF reachable.start s(1)] by simp
  have "no_error k = 0" for k by (simp add: no_error_def)
  with bb_no_deadlock [OF default_args r] r s(2) default_args show ?thesis by (auto split: if_splits)
qed

text \<open>C7: Once \<open>main\<close> wakes up and clears \<open>is_main_sleeping\<close>, the program ends: whatever the schedule and whatever calls
  fail, at most 13 steps per thread and two more remain.\<close>

theorem bb_terminates_after_wake:
  assumes "main_args argv = Inr (Some (mst, p, c))"
    "reachable (bb_step created rc mst (nat p) (nat c)) bb_init s"
    "\<not> is_main_sleeping s" "bb_main s \<noteq> BM_init"
    "run (bb_step created rc mst (nat p) (nat c)) es s = Some s'"
  shows "length es \<le> 13 * (nat p + nat c) + 2"
  using bb_run_bound [OF bb.reachable_inv [OF assms(2)] assms(3-5)] bb_measure_le [of "nat p + nat c" s] by simp

theorem bb_terminates_after_wake_witness:
  "\<exists>s s'. reachable (bb_step (\<lambda>_. True) no_error 5 (nat 1) (nat 1)) bb_init s \<and> \<not> is_main_sleeping s \<and>
     run (bb_step (\<lambda>_. True) no_error 5 (nat 1) (nat 1)) [Thread 0 0] s = Some s' \<and>
     length [Thread 0 0] \<le> 13 * (nat 1 + nat 1) + 2"
proof -
  let ?step = "bb_step (\<lambda>_. True) no_error 5 (nat 1) (nat 1)"
  have "map_option (\<lambda>s. (is_main_sleeping s, bb_main s)) (run ?step (replicate 6 Main) bb_init) =
      Some (False, BM_join 0)" by code_simp
  then obtain s where s: "run ?step (replicate 6 Main) bb_init = Some s" "\<not> is_main_sleeping s"
    "bb_main s = BM_join 0" by (auto simp del: run.simps)
  have "run ?step (replicate 6 Main @ [Thread 0 0]) bb_init \<noteq> None" by code_simp
  then obtain s' where s': "run ?step [Thread 0 0] s = Some s'"
    unfolding run_append s(1) option.case by blast
  have r: "reachable ?step bb_init s" by (rule run_reachable [OF reachable.start s(1)])
  have "bb_main s \<noteq> BM_init" using s(3) by simp
  from bb_terminates_after_wake [OF default_args r s(2) this s'] r s(2) s' show ?thesis by blast
qed

end
