(* ===== verification/Bounded_Queue.thy ===== *)
theory Bounded_Queue
  imports Bounded_Buffer
begin

text \<open>
  The producer/consumer program as an implementation of a bounded first-in-first-out queue. What can be
  observed of the program are the calls of \<open>insert_item\<close> and \<open>remove_item\<close> with their results, in
  the order in which they release the mutex. The observations of every run are a history of the
  sequential queue, refused calls included.
\<close>

section \<open>The sequential queue\<close>

text \<open>A call with its result: \<open>Insert x r\<close> is \<open>insert_item(x)\<close> returning \<open>r\<close>, \<open>Remove x r\<close> is \<open>remove_item\<close>
  returning \<open>r\<close> with \<open>x\<close> in the variable its argument points to.\<close>

datatype queue_call = Insert int int | Remove int int

fun fifo_step :: "queue_call \<Rightarrow> int list \<Rightarrow> int list option" where
  "fifo_step (Insert x r) q = (if length q < 5
     then if r = 0 then Some (q @ [x]) else None
     else if r = -1 then Some q else None)"
| "fifo_step (Remove x r) [] = (if r = -1 then Some [] else None)"
| "fifo_step (Remove x r) (y # q) = (if r = 0 \<and> x = y then Some q else None)"

text \<open>A call is observed when it releases the mutex, its last action.\<close>

definition call_result :: "bb_state \<Rightarrow> bb_event \<Rightarrow> bb_state \<Rightarrow> queue_call option" where
  "call_result s e s' = (case e of Main \<Rightarrow> None
   | Thread t r \<Rightarrow> (case at s t of
       I_unlock \<Rightarrow> Some (Insert (item s t) (result s t))
     | R_unlock \<Rightarrow> Some (Remove (item s t) (result s t))
     | _ \<Rightarrow> None))"

section \<open>The calls that are running\<close>

text \<open>
  While a thread is in its critical section, its call has not been observed: the queue is the one
  before the call, although the ring already holds the new item or has lost the old one.
\<close>

definition spec_queue :: "bb_state \<Rightarrow> int list" where
  "spec_queue s = (case mutex s of None \<Rightarrow> queue s | Some h \<Rightarrow>
     if at s h = I_post \<or> at s h = I_unlock \<and> result s h = 0 then butlast (queue s)
     else if at s h \<in> {R_clear, R_head, R_wrap, R_n, R_post} \<or> at s h = R_unlock \<and> result s h = 0
     then item s h # queue s else queue s)"

definition call_ok :: "bb_state \<Rightarrow> bool" where
  "call_ok s \<longleftrightarrow> (\<forall>h. mutex s = Some h \<longrightarrow>
     (at s h \<notin> {I_unlock, R_unlock} \<longrightarrow> result s h = 0) \<and> result s h \<in> {0, -1} \<and>
     (at s h = I_post \<or> at s h = I_unlock \<and> result s h = 0 \<longrightarrow> (\<exists>q. queue s = q @ [item s h] \<and> length q < 5)) \<and>
     (at s h = I_unlock \<and> result s h = -1 \<longrightarrow> length (queue s) = 5) \<and>
     (at s h = R_unlock \<and> result s h = -1 \<longrightarrow> queue s = []))"

lemma queue_logs:
  assumes "ring_ok s"
  shows "queue s = drop (length (consumed s)) (inserted s)"
  by (simp add: ring_ok_queue(1) [OF assms])

lemma queue_same:
  assumes "ring_ok s" "ring_ok s'" "inserted s' = inserted s" "consumed s' = consumed s"
  shows "queue s' = queue s"
  using assms by (simp add: queue_logs)

lemma length_queue_at_test:
  assumes "ring_ok s" "mutex s = Some t" "at s t \<in> {I_test, R_test, I_n}"
  shows "int (length (queue s)) = n (ring s)" "0 \<le> n (ring s)" "at s t = I_n \<Longrightarrow> n (ring s) < 5"
proof -
  have c: "core (at s t) (item s t) s" using assms(1,2) by (simp add: ring_ok_def)
  have "queue s = items (buffer (ring s)) (head_index (ring s)) (nat (n (ring s)))"
    using assms(2,3) by (auto simp: queue_def queue_at_def)
  then show "int (length (queue s)) = n (ring s)" "0 \<le> n (ring s)" using c by (simp_all add: core_def)
  show "at s t = I_n \<Longrightarrow> n (ring s) < 5" using c by (simp add: core_def ring_at_def Let_def)
qed

text \<open>What a step of the thread in the critical section does to its call and to the queue.\<close>

lemma holder_step:
  assumes st: "thread_step np t r s = Some s'" and m: "mutex s = Some t" and cs: "in_cs (at s t)"
    and nf: "bb_crashed s' = bb_crashed s" "\<not> bb_crashed s"
  shows
    "at s t = I_test \<Longrightarrow> mutex s' = Some t \<and> inserted s' = inserted s \<and> consumed s' = consumed s \<and>
       (if n (ring s) < 5 then at s' t = I_wait \<and> result s' t = result s t else at s' t = I_unlock \<and> result s' t = -1)"
    "at s t = R_test \<Longrightarrow> mutex s' = Some t \<and> inserted s' = inserted s \<and> consumed s' = consumed s \<and>
       (if n (ring s) > 0 then at s' t = R_wait \<and> result s' t = result s t else at s' t = R_unlock \<and> result s' t = -1)"
    "at s t = I_n \<Longrightarrow> mutex s' = Some t \<and> at s' t = I_post \<and> result s' t = result s t \<and> item s' t = item s t \<and>
       inserted s' = inserted s @ [item s t] \<and> consumed s' = consumed s"
    "at s t = R_read \<Longrightarrow> mutex s' = Some t \<and> at s' t = R_clear \<and> result s' t = result s t \<and>
       inserted s' = inserted s \<and> consumed s' = consumed s @ [item s' t]"
    "at s t \<in> {I_unlock, R_unlock} \<Longrightarrow> mutex s' = None \<and> inserted s' = inserted s \<and> consumed s' = consumed s"
    "at s t \<notin> {I_test, R_test, I_n, R_read, I_unlock, R_unlock} \<Longrightarrow> mutex s' = Some t \<and> result s' t = result s t \<and>
       item s' t = item s t \<and> inserted s' = inserted s \<and> consumed s' = consumed s \<and>
       (at s' t, at s t) \<in> {(I_store, I_wait), (I_tail, I_store), (I_wrap, I_tail), (I_n, I_wrap), (I_unlock, I_post),
         (R_read, R_wait), (R_head, R_clear), (R_wrap, R_head), (R_n, R_wrap), (R_post, R_n), (R_unlock, R_post)}"
  using assms
  by (cases "at s t"; clarsimp simp: thread_step_def bb_defs BUFFER_SIZE_def split: if_splits option.splits sum.splits)+

text \<open>One step of the thread that holds the mutex, at a statement that does not end the call.\<close>

lemma holder_internal:
  assumes st: "thread_step np t r s = Some s'" and m: "mutex s = Some t" and cs: "in_cs (at s t)"
    and nf: "bb_crashed s' = bb_crashed s" "\<not> bb_crashed s" and ok: "call_ok s" "ring_ok s" "ring_ok s'"
    and inner: "at s t \<notin> {I_unlock, R_unlock}"
  shows "call_ok s' \<and> spec_queue s' = spec_queue s"
proof -
  note H = holder_step [OF st m cs nf]
  note same = queue_same [OF ok(2,3)]
  have res: "result s t = 0" using ok(1) m inner by (simp add: call_ok_def)
  consider "at s t = I_test" | "at s t = R_test" | "at s t = I_n" | "at s t = R_read"
    | "at s t \<notin> {I_test, R_test, I_n, R_read, I_unlock, R_unlock}" using inner by blast
  then show ?thesis
  proof cases
    case 1
    have "int (length (queue s)) = n (ring s)" "length (queue s) \<le> 5"
      using length_queue_at_test(1) [OF ok(2) m] ring_ok_queue(2) [OF ok(2)] 1 by simp_all
    then show ?thesis using H(1) [OF 1] same res m 1
      by (cases "n (ring s) < 5") (auto simp: call_ok_def spec_queue_def)
  next
    case 2
    have "int (length (queue s)) = n (ring s)" using length_queue_at_test(1) [OF ok(2) m] 2 by simp
    moreover from this have "queue s = []" if "\<not> n (ring s) > 0" using that by (cases "queue s") simp_all
    ultimately show ?thesis using H(2) [OF 2] same res m 2
      by (cases "n (ring s) > 0") (auto simp: call_ok_def spec_queue_def)
  next
    case 3
    have q: "queue s' = queue s @ [item s t]"
      using H(3) [OF 3] ring_ok_queue(1) [OF ok(2)] by (simp add: queue_logs [OF ok(3)])
    have "length (queue s) < 5" using length_queue_at_test [OF ok(2) m] 3 by simp
    then show ?thesis using H(3) [OF 3] q res m 3 by (simp add: call_ok_def spec_queue_def)
  next
    case 4
    have "inserted s = (consumed s @ [item s' t]) @ queue s'" using H(4) [OF 4] ring_ok_queue(1) [OF ok(3)] by metis
    then have q: "queue s = item s' t # queue s'" by (simp add: queue_logs [OF ok(2)])
    then show ?thesis using H(4) [OF 4] res m 4 by (auto simp add: call_ok_def spec_queue_def)
  next
    case 5
    note h = H(6) [OF 5]
    have q: "queue s' = queue s" using h same by blast
    have h1: "mutex s' = Some t" "result s' t = 0" "item s' t = item s t" using h res by simp_all
    have p: "(at s' t, at s t) \<in> {(I_store, I_wait), (I_tail, I_store), (I_wrap, I_tail), (I_n, I_wrap), (I_unlock, I_post),
         (R_read, R_wait), (R_head, R_clear), (R_wrap, R_head), (R_n, R_wrap), (R_post, R_n), (R_unlock, R_post)}" using h by blast
    have c: "at s t = I_post \<Longrightarrow> \<exists>q. queue s = q @ [item s t] \<and> length q < 5" using ok(1) m by (simp add: call_ok_def)
    show ?thesis using p c by (cases "at s t") (simp_all add: call_ok_def spec_queue_def h1 q m)
  qed
qed

text \<open>The statement that ends a call.\<close>

lemma holder_returns:
  assumes st: "thread_step np t r s = Some s'" and m: "mutex s = Some t" and cs: "in_cs (at s t)"
    and nf: "bb_crashed s' = bb_crashed s" "\<not> bb_crashed s" and ok: "call_ok s" "ring_ok s" "ring_ok s'"
    and final: "at s t \<in> {I_unlock, R_unlock}"
  shows "call_ok s' \<and> (\<forall>a. call_result s (Thread t r) s' = Some a \<longrightarrow> fifo_step a (spec_queue s) = Some (spec_queue s'))"
proof -
  note h = holder_step(5) [OF st m cs nf final]
  have q: "spec_queue s' = queue s" using h queue_same [OF ok(2,3)] by (simp add: spec_queue_def)
  have "call_ok s'" using h by (simp add: call_ok_def)
  moreover have "fifo_step a (spec_queue s) = Some (queue s)" if "call_result s (Thread t r) s' = Some a" for a
  proof (cases "result s t = 0")
    case True
    then show ?thesis using that final ok(1) m by (auto simp: call_result_def call_ok_def spec_queue_def)
  next
    case False
    then have "result s t = -1" using ok(1) m by (simp add: call_ok_def)
    then show ?thesis using that final ok(1) m by (auto simp: call_result_def call_ok_def spec_queue_def)
  qed
  ultimately show ?thesis using q by simp
qed

text \<open>A step outside of the critical sections.\<close>

lemma outsider_call:
  assumes st: "thread_step np t r s = Some s'" and out: "\<not> in_cs (at s t)"
    and ok: "call_ok s" "ring_ok s" "ring_ok s'" "lock_ok s"
  shows "call_ok s' \<and> spec_queue s' = spec_queue s"
proof -
  note o = outside_step [OF out st]
  have q: "queue s' = queue s" using queue_same [OF ok(2,3)] o(2,3) by blast
  show ?thesis
  proof (cases "mutex s' = mutex s \<and> \<not> in_cs (at s' t)")
    case True
    have "h \<noteq> t" if "mutex s = Some h" for h using that out bb_lock_okD [OF ok(4), of h] by auto
    moreover have "u \<noteq> t \<Longrightarrow> at s' u = at s u \<and> item s' u = item s u" for u by (rule thread_move(6) [OF st])
    moreover have "u \<noteq> t \<Longrightarrow> result s' u = result s u" for u using st
      by (cases "at s t"; clarsimp simp: thread_step_def bb_defs split: if_splits option.splits sum.splits)
    ultimately show ?thesis using True q ok(1) by (auto simp: call_ok_def spec_queue_def split: option.split)
  next
    case False
    then have m: "mutex s = None" "mutex s' = Some t" "at s' t = I_test \<or> at s' t = R_test" using o(5) by blast+
    moreover have "result s' t = 0" using st m
      by (cases "at s t"; clarsimp simp: thread_step_def bb_defs split: if_splits option.splits sum.splits)
    ultimately show ?thesis using q by (auto simp: call_ok_def spec_queue_def)
  qed
qed

section \<open>Refinement\<close>

lemma main_keeps_calls:
  assumes "main_step cr rc mst np nc s = Some s'"
  shows "inserted s' = inserted s \<and> consumed s' = consumed s \<and> result s' = result s \<and> item s' = item s"
    "mutex s = None \<Longrightarrow> mutex s' = None" "bb_main s \<noteq> BM_init \<Longrightarrow> mutex s' = mutex s"
proof -
  have call: "(case x of Inl e \<Rightarrow> crash s | Inr t \<Rightarrow> g t) = s' \<Longrightarrow> s' = crash s \<or> (\<exists>t. x = Inr t \<and> s' = g t)"
    for x :: "bb_state c_result" and g by (cases x) auto
  have i: "init_state rc a b c s = Inr t \<Longrightarrow> inserted t = inserted s \<and> consumed t = consumed s \<and> result t = result s \<and>
      item t = item s \<and> mutex t = None" for a b c t
    by (cases "checked_calls rc 0 init_lines") (auto simp: init_state_def split: if_splits)
  have c: "cleanup_state rc s = Inr t \<Longrightarrow> t = s" for t
    by (cases "checked_calls rc 5 [119, 124]") (auto simp: cleanup_state_def split: if_splits)
  have *: "inserted s' = inserted s \<and> consumed s' = consumed s \<and> result s' = result s \<and> item s' = item s \<and>
    (mutex s = None \<longrightarrow> mutex s' = None) \<and> (bb_main s \<noteq> BM_init \<longrightarrow> mutex s' = mutex s)"
  proof (cases "bb_main s")
    case BM_init
    then show ?thesis using assms call i by (fastforce simp: main_step_def crash_def)
  next
    case BM_cleanup
    then show ?thesis using assms call c by (fastforce simp: main_step_def crash_def)
  next
    case BM_sleep
    then show ?thesis using assms by (auto simp: main_step_def crash_def split: sum.splits)
  qed (use assms in \<open>auto simp: main_step_def crash_def split: if_splits\<close>)
  show "inserted s' = inserted s \<and> consumed s' = consumed s \<and> result s' = result s \<and> item s' = item s"
    "mutex s = None \<Longrightarrow> mutex s' = None" "bb_main s \<noteq> BM_init \<Longrightarrow> mutex s' = mutex s" using * by simp_all
qed

lemma main_keeps_holder:
  assumes "main_step cr rc mst np nc s = Some s'" "main_ok cr np nc s" "bb_main s \<noteq> BM_init" "at s h \<noteq> B_unborn"
  shows "at s' h = at s h"
proof (cases "bb_main s")
  case (BM_create i)
  then have "h \<noteq> i" using assms(2,4) by (auto simp: main_ok_def)
  then show ?thesis using assms(1) BM_create by (auto simp: main_step_def split: if_splits)
next
  case BM_cleanup
  have "cleanup_state rc s = Inr t \<Longrightarrow> t = s" for t
    by (cases "checked_calls rc 5 [119, 124]") (auto simp: cleanup_state_def split: if_splits)
  then show ?thesis using assms(1) BM_cleanup
    by (cases "cleanup_state rc s") (auto simp: main_step_def crash_def)
qed (use assms in \<open>auto simp: main_step_def crash_def split: if_splits sum.splits\<close>)

lemma call_ok_main:
  assumes inv: "bb_inv cr rc mst np nc s" "bb_inv cr rc mst np nc s'" and ok: "call_ok s"
    and st: "main_step cr rc mst np nc s = Some s'"
  shows "call_ok s' \<and> spec_queue s' = spec_queue s"
proof -
  have r: "ring_ok s" "ring_ok s'" "lock_ok s" "main_ok cr np nc s" using inv by (simp_all add: bb_inv_def)
  note f = main_keeps_calls [OF st]
  have q: "queue s' = queue s" using queue_same [OF r(1,2)] f(1) by blast
  show ?thesis
  proof (cases "mutex s")
    case None
    then show ?thesis using f(2) q by (simp add: call_ok_def spec_queue_def)
  next
    case (Some h)
    then have h: "in_cs (at s h)" using bb_lock_okD [OF r(3)] by simp
    then have u: "at s h \<noteq> B_unborn" by auto
    then have "bb_main s \<noteq> BM_init" using r(4) by (auto simp: main_ok_def)
    then have "mutex s' = Some h" "at s' h = at s h"
      using f(3) Some main_keeps_holder [OF st r(4) _ u] by simp_all
    then show ?thesis using f(1) Some q ok by (simp add: call_ok_def spec_queue_def)
  qed
qed

interpretation bb_queue: traced_system "bb_step cr rc mst np nc" bb_init "\<lambda>s. bb_inv cr rc mst np nc s \<and> call_ok s"
  call_result fifo_step spec_queue for cr rc mst np nc
proof -
  have step: "bb_inv cr rc mst np nc s' \<and> call_ok s' \<and> (case call_result s e s' of None \<Rightarrow> spec_queue s' = spec_queue s
      | Some a \<Rightarrow> fifo_step a (spec_queue s) = Some (spec_queue s'))"
    if inv: "bb_inv cr rc mst np nc s" and ok: "call_ok s" and st: "bb_step cr rc mst np nc e s = Some s'" for s e s'
  proof -
    have inv': "bb_inv cr rc mst np nc s'" by (rule bb.inv_step [OF inv st])
    have r: "ring_ok s" "ring_ok s'" "lock_ok s" using inv inv' by (simp_all add: bb_inv_def)
    show ?thesis
    proof (cases e)
      case Main
      then show ?thesis using call_ok_main [OF inv inv' ok] inv' st by (simp add: call_result_def split: if_splits)
    next
      case (Thread t x)
      then have ts: "thread_step np t x s = Some s'" and nf: "\<not> bb_crashed s"
        using st by (simp_all add: thread_step_def split: if_splits)
      have nf': "bb_crashed s' = bb_crashed s" using thread_ring_ok [OF r(1,3) ts] by blast
      show ?thesis
      proof (cases "in_cs (at s t)")
        case False
        then have "call_result s e s' = None" using Thread by (auto simp: call_result_def split: bb_pc.split)
        then show ?thesis using outsider_call [OF ts False ok r] inv' by simp
      next
        case True
        then have m: "mutex s = Some t" using bb_lock_okD [OF r(3)] by simp
        show ?thesis
        proof (cases "at s t \<in> {I_unlock, R_unlock}")
          case inner: False
          then have "call_result s e s' = None" using Thread by (auto simp: call_result_def split: bb_pc.split)
          then show ?thesis using holder_internal [OF ts m True nf' nf ok r(1,2) inner] inv' by simp
        next
          case final: True
          then have "call_result s e s' \<noteq> None" using Thread by (auto simp: call_result_def)
          then show ?thesis using holder_returns [OF ts m True nf' nf ok r(1,2) final] inv' Thread by auto
        qed
      qed
    qed
  qed
  have "invariant_system (bb_step cr rc mst np nc) bb_init (\<lambda>s. bb_inv cr rc mst np nc s \<and> call_ok s)"
  proof unfold_locales
    show "bb_inv cr rc mst np nc bb_init \<and> call_ok bb_init" using bb_inv_init by (simp add: call_ok_def bb_init_def)
    show "bb_inv cr rc mst np nc s' \<and> call_ok s'"
      if "bb_inv cr rc mst np nc s \<and> call_ok s" "bb_step cr rc mst np nc e s = Some s'" for s e s' using step that by blast
  qed
  moreover have "spec_queue s' = spec_queue s" if "bb_inv cr rc mst np nc s \<and> call_ok s"
    "bb_step cr rc mst np nc e s = Some s'" "call_result s e s' = None" for s e s'
    using step [of s e s'] that by simp
  moreover have "fifo_step a (spec_queue s) = Some (spec_queue s')" if "bb_inv cr rc mst np nc s \<and> call_ok s"
    "bb_step cr rc mst np nc e s = Some s'" "call_result s e s' = Some a" for s e s' a
    using step [of s e s'] that by simp
  ultimately show "traced_system (bb_step cr rc mst np nc) bb_init (\<lambda>s. bb_inv cr rc mst np nc s \<and> call_ok s)
      call_result fifo_step spec_queue"
    by (simp add: traced_system_def traced_system_axioms_def)
qed

section \<open>Property\<close>

text \<open>C6: The program implements a bounded first-in-first-out queue. Take the calls of \<open>insert_item\<close> and \<open>remove_item\<close>
  of any run, with any numbers of producers and consumers, whatever calls of \<open>main\<close> fail, in the order in which they release the
  mutex, with their arguments and results: executed one after the other on the sequential queue of five places, each of them is
  possible with that result. So \<open>insert_item\<close> returns -1 exactly when the queue is full and otherwise appends its item and returns 0,
  \<open>remove_item\<close> returns -1 exactly when it is empty and otherwise returns 0 with the oldest item; and when nobody is in a critical
  section, the sequential queue is what the ring holds from \<open>head_index\<close> on.\<close>

theorem bb_refines_fifo:
  assumes "run (bb_step created rc mst np nc) es bb_init = Some s"
  shows "run fifo_step (visible (bb_step created rc mst np nc) call_result es bb_init) [] = Some (spec_queue s) \<and>
    (mutex s = None \<longrightarrow> spec_queue s = items (buffer (ring s)) (head_index (ring s)) (nat (n (ring s))))"
proof -
  have "spec_queue bb_init = []" by (simp add: spec_queue_def queue_def bb_init_def ring_init_def queue_at_def)
  with bb_queue.trace [OF assms]
  have "run fifo_step (visible (bb_step created rc mst np nc) call_result es bb_init) [] = Some (spec_queue s)" by simp
  then show ?thesis by (simp add: spec_queue_def queue_def queue_at_def)
qed

text \<open>One producer and one consumer: item 7 is put in and taken out, then the consumer finds the buffer empty.\<close>

definition in_and_out :: "bb_event list" where
  "in_and_out = replicate 4 Main @ Thread 0 2 # replicate 11 (Thread 0 7) @ replicate 16 (Thread 1 0)"

theorem bb_refines_fifo_witness:
  "\<exists>s. run (bb_step (\<lambda>_. True) no_error 5 1 1) in_and_out bb_init = Some s \<and>
     run fifo_step [Insert 7 0, Remove 7 0, Remove 7 (-1)] [] = Some (spec_queue s)"
proof -
  have "map_option (\<lambda>s. mutex s) (run (bb_step (\<lambda>_. True) no_error 5 1 1) in_and_out bb_init) = Some None" by code_simp
  then obtain s where s: "run (bb_step (\<lambda>_. True) no_error 5 1 1) in_and_out bb_init = Some s" by (auto simp del: run.simps)
  have v: "visible (bb_step (\<lambda>_. True) no_error 5 1 1) call_result in_and_out bb_init = [Insert 7 0, Remove 7 0, Remove 7 (-1)]"
    by code_simp
  from bb_refines_fifo [OF s, unfolded v] s show ?thesis by blast
qed

end
