(* ===== verification/Philosophers.thy ===== *)
theory Philosophers
  imports Posix_Sync
begin

text \<open>
  The dining philosophers of \<open>ch5/projects/proj2/ch5_pp2_dpp.c\<close>: a monitor built from one mutex
  and a condition variable per philosopher. \<open>phil_step\<close> interleaves the statements of the five
  threads and of \<open>main\<close>; a thread blocked in \<open>pthread_cond_wait\<close> is at \<open>F_wait\<close>, a signal (or a
  spurious wake-up, which POSIX allows) moves it to \<open>F_reacq\<close>, where it waits for the mutex.
\<close>

section \<open>State\<close>

datatype PHILOSOPHER_STATE = THINKING | HUNGRY | EATING

definition NUM_PHILOSOPHERS :: nat where
  "NUM_PHILOSOPHERS = 5"

definition MAX_SLEEP_TIME :: int where
  "MAX_SLEEP_TIME = 3"

text \<open>The call of \<open>test\<close> that is running: in \<open>pickup_forks\<close>, or the first or second one in
  \<open>return_forks\<close>.\<close>

datatype test_call = K_pickup | K_first | K_second

datatype phil_pc =
    PH_unborn | PH_num nat | PH_think
  | P_lock | P_hungry | T_cond nat test_call | T_set nat test_call | T_signal nat test_call
  | P_while | P_wait | F_wait | F_reacq | P_assert | P_unlock
  | E_assert1 | E_count | E_sleep | E_assert2
  | R_assert | R_lock | R_think | R_unlock

datatype phil_main_pc = PM_init | PM_create nat | PM_created nat | PM_join nat

text \<open>\<open>Philosopher_tid i\<close> is the thread whose identifier \<open>main\<close> has stored at index \<open>i\<close>.\<close>

record phil_state =
  PhilosopherState :: "nat \<Rightarrow> PHILOSOPHER_STATE"
  Philosopher_tid :: "nat \<Rightarrow> tid option"
  mutex :: mutex
  main_pc :: phil_main_pc
  at :: "tid \<Rightarrow> phil_pc"
  philosopher_number :: "tid \<Rightarrow> nat"
  eating_count :: "tid \<Rightarrow> int"
  failed :: "c_abort option"

datatype phil_event = Main | Phil tid int | Spurious tid

definition phil_init :: phil_state where
  "phil_init = \<lparr>PhilosopherState = (\<lambda>_. THINKING), Philosopher_tid = (\<lambda>_. None), mutex = None,
     main_pc = PM_init, at = (\<lambda>_. PH_unborn), philosopher_number = (\<lambda>_. 0),
     eating_count = (\<lambda>_. 0), failed = None\<rparr>"

section \<open>Operations\<close>

definition left_neighbor :: "nat \<Rightarrow> nat" where
  "left_neighbor i = (i + 4) mod 5"

definition right_neighbor :: "nat \<Rightarrow> nat" where
  "right_neighbor i = (i + 1) mod 5"

definition goto :: "tid \<Rightarrow> phil_pc \<Rightarrow> phil_state \<Rightarrow> phil_state" where
  "goto t p s = s\<lparr>at := (at s)(t := p)\<rparr>"

definition fail :: "c_abort \<Rightarrow> phil_state \<Rightarrow> phil_state" where
  "fail e s = s\<lparr>failed := Some e\<rparr>"

definition check :: "nat \<Rightarrow> bool \<Rightarrow> tid \<Rightarrow> phil_pc \<Rightarrow> phil_state \<Rightarrow> phil_state" where
  "check line b t p s = (if b then goto t p s else fail (Assertion line) s)"

definition neighbors_not_eating :: "nat \<Rightarrow> phil_state \<Rightarrow> bool" where
  "neighbors_not_eating i s \<longleftrightarrow> PhilosopherState s (left_neighbor i) \<noteq> EATING \<and>
     PhilosopherState s (right_neighbor i) \<noteq> EATING"

definition rand_sleep :: "int \<Rightarrow> int \<Rightarrow> int \<Rightarrow> int c_result" where
  "rand_sleep i mx r = (if \<not> (i \<ge> 0 \<and> mx > 0) then Inl (Assertion 436) else Inr (r mod mx + 1))"

text \<open>The two neighbours \<open>return_forks\<close> tests, in its order.\<close>

definition first_tested :: "int \<Rightarrow> nat \<Rightarrow> nat" where
  "first_tested eat_count i = (if eat_count mod 2 = 0 then left_neighbor i else right_neighbor i)"

definition second_tested :: "int \<Rightarrow> nat \<Rightarrow> nat" where
  "second_tested eat_count i = (if eat_count mod 2 = 0 then right_neighbor i else left_neighbor i)"

text \<open>\<open>pthread_cond_signal\<close> on \<open>self_cond_var[i]\<close>, on which only philosopher \<open>i\<close> waits.\<close>

definition signal :: "nat \<Rightarrow> phil_state \<Rightarrow> phil_state" where
  "signal i s = (if at s i = F_wait then goto i F_reacq s else s)"

text \<open>Where a call of \<open>test\<close> returns to.\<close>

fun after_test :: "tid \<Rightarrow> test_call \<Rightarrow> phil_state \<Rightarrow> phil_pc" where
  "after_test t K_pickup s = P_while"
| "after_test t K_first s = T_cond (second_tested (eating_count s t) (philosopher_number s t)) K_second"
| "after_test t K_second s = R_unlock"

definition test_step :: "tid \<Rightarrow> phil_state \<Rightarrow> phil_state option" where
  "test_step t s = (case at s t of
     T_cond i k \<Rightarrow> Some (goto t
       (if PhilosopherState s (left_neighbor i) \<noteq> EATING \<and>
           PhilosopherState s (right_neighbor i) \<noteq> EATING \<and> PhilosopherState s i = HUNGRY
        then T_set i k else after_test t k s) s)
   | T_set i k \<Rightarrow> Some (goto t (T_signal i k) (s\<lparr>PhilosopherState := (PhilosopherState s)(i := EATING)\<rparr>))
   | T_signal i k \<Rightarrow> Some (goto t (after_test t k s) (signal i s))
   | _ \<Rightarrow> None)"

definition pickup_forks :: "tid \<Rightarrow> phil_state \<Rightarrow> phil_state option" where
  "pickup_forks t s = (let i = philosopher_number s t in case at s t of
     P_lock \<Rightarrow> map_option (\<lambda>m. goto t P_hungry (s\<lparr>mutex := m\<rparr>)) (mutex_lock t (mutex s))
   | P_hungry \<Rightarrow> Some (goto t (T_cond i K_pickup) (s\<lparr>PhilosopherState := (PhilosopherState s)(i := HUNGRY)\<rparr>))
   | P_while \<Rightarrow> Some (goto t (if PhilosopherState s i \<noteq> EATING then P_wait else P_assert) s)
   | P_wait \<Rightarrow> Some (case mutex_unlock t (mutex s) of
       None \<Rightarrow> fail (Assertion 368) s | Some m \<Rightarrow> goto t F_wait (s\<lparr>mutex := m\<rparr>))
   | F_reacq \<Rightarrow> map_option (\<lambda>m. goto t P_while (s\<lparr>mutex := m\<rparr>)) (mutex_lock t (mutex s))
   | P_assert \<Rightarrow> Some (check 375 (neighbors_not_eating i s) t P_unlock s)
   | P_unlock \<Rightarrow> Some (case mutex_unlock t (mutex s) of
       None \<Rightarrow> fail (Assertion 380) s | Some m \<Rightarrow> goto t E_assert1 (s\<lparr>mutex := m\<rparr>))
   | _ \<Rightarrow> None)"

definition return_forks :: "tid \<Rightarrow> phil_state \<Rightarrow> phil_state option" where
  "return_forks t s = (let i = philosopher_number s t in case at s t of
     R_assert \<Rightarrow> Some (check 394 (eating_count s t > 0) t R_lock s)
   | R_lock \<Rightarrow> map_option (\<lambda>m. goto t R_think (s\<lparr>mutex := m\<rparr>)) (mutex_lock t (mutex s))
   | R_think \<Rightarrow> Some (goto t (T_cond (first_tested (eating_count s t) i) K_first)
       (s\<lparr>PhilosopherState := (PhilosopherState s)(i := THINKING)\<rparr>))
   | R_unlock \<Rightarrow> Some (case mutex_unlock t (mutex s) of
       None \<Rightarrow> fail (Assertion 420) s | Some m \<Rightarrow> goto t PH_think (s\<lparr>mutex := m\<rparr>))
   | _ \<Rightarrow> None)"

text \<open>\<open>get_philosopher_num\<close>: the loop is one iteration per step.\<close>

definition get_philosopher_num :: "tid \<Rightarrow> phil_state \<Rightarrow> phil_state option" where
  "get_philosopher_num t s = (case at s t of
     PH_num i \<Rightarrow> Some (
       if i < NUM_PHILOSOPHERS
       then if Philosopher_tid s i = Some t
            then goto t PH_think (s\<lparr>philosopher_number := (philosopher_number s)(t := i),
                                    eating_count := (eating_count s)(t := 0)\<rparr>)
            else goto t (PH_num (i + 1)) s
       else fail (Assertion 481) s)
   | _ \<Rightarrow> None)"

definition Philosopher_thread_func :: "tid \<Rightarrow> int \<Rightarrow> phil_state \<Rightarrow> phil_state option" where
  "Philosopher_thread_func t r s = (let i = philosopher_number s t in case at s t of
     PH_unborn \<Rightarrow> None
   | PH_num j \<Rightarrow> get_philosopher_num t s
   | PH_think \<Rightarrow> if r < 0 then None else Some (case rand_sleep (int i) MAX_SLEEP_TIME r of
       Inl e \<Rightarrow> fail e s | Inr _ \<Rightarrow> goto t P_lock s)
   | E_assert1 \<Rightarrow> Some (check 500 (neighbors_not_eating i s) t E_count s)
   | E_count \<Rightarrow> Some (case c_int (eating_count s t + 1) of
       Inl e \<Rightarrow> fail e s
     | Inr k \<Rightarrow> goto t E_sleep (s\<lparr>eating_count := (eating_count s)(t := k)\<rparr>))
   | E_sleep \<Rightarrow> if r < 0 then None else Some (case rand_sleep (int i) MAX_SLEEP_TIME r of
       Inl e \<Rightarrow> fail e s | Inr _ \<Rightarrow> goto t E_assert2 s)
   | E_assert2 \<Rightarrow> Some (check 508 (neighbors_not_eating i s) t R_assert s)
   | R_assert \<Rightarrow> return_forks t s
   | R_lock \<Rightarrow> return_forks t s
   | R_think \<Rightarrow> return_forks t s
   | R_unlock \<Rightarrow> return_forks t s
   | T_cond j k \<Rightarrow> test_step t s
   | T_set j k \<Rightarrow> test_step t s
   | T_signal j k \<Rightarrow> test_step t s
   | _ \<Rightarrow> pickup_forks t s)"

text \<open>
  \<open>main\<close>. \<open>pthread_create\<close> both starts the thread and stores its identifier; POSIX does not say
  which happens first. With \<open>store_first\<close> the identifier is in the array before the thread runs.
  The result is not looked at; the call is taken to succeed.
  A philosopher never exits, so the first join never returns and \<open>cleanup_state\<close> is never called.
  It destroys the mutex, the condition variable and the pair of each philosopher.
\<close>

definition cleanup_state :: "(nat \<Rightarrow> int) \<Rightarrow> unit c_result" where
  "cleanup_state rc = checked_calls rc 0 ([182, 187] @ concat (replicate NUM_PHILOSOPHERS [193, 198]))"

text \<open>\<open>rc k\<close> is the return code of the \<open>k\<close>-th of the twelve initialisations.\<close>

definition init_lines :: "nat list" where
  "init_lines = [217, 222] @ concat (replicate NUM_PHILOSOPHERS [230, 235])"

definition init_state :: "(nat \<Rightarrow> int) \<Rightarrow> phil_state \<Rightarrow> phil_state c_result" where
  "init_state rc s = c_bind (checked_calls rc 0 init_lines) (\<lambda>_.
     Inr (s\<lparr>mutex := None, PhilosopherState := (\<lambda>i. THINKING)\<rparr>))"

definition phil_main :: "bool \<Rightarrow> (nat \<Rightarrow> int) \<Rightarrow> phil_state \<Rightarrow> phil_state option" where
  "phil_main store_first rc s = (case main_pc s of
     PM_init \<Rightarrow> Some (case init_state rc s of Inl e \<Rightarrow> fail e s | Inr s' \<Rightarrow> s'\<lparr>main_pc := PM_create 0\<rparr>)
   | PM_create i \<Rightarrow> Some (
       if i < NUM_PHILOSOPHERS
       then if store_first
            then s\<lparr>Philosopher_tid := (Philosopher_tid s)(i := Some i), main_pc := PM_created i\<rparr>
            else s\<lparr>at := (at s)(i := PH_num 0), main_pc := PM_created i\<rparr>
       else s\<lparr>main_pc := PM_join 0\<rparr>)
   | PM_created i \<Rightarrow> Some (
       if store_first
       then s\<lparr>at := (at s)(i := PH_num 0), main_pc := PM_create (i + 1)\<rparr>
       else s\<lparr>Philosopher_tid := (Philosopher_tid s)(i := Some i), main_pc := PM_create (i + 1)\<rparr>)
   | _ \<Rightarrow> None)"

fun phil_step :: "bool \<Rightarrow> (nat \<Rightarrow> int) \<Rightarrow> phil_event \<Rightarrow> phil_state \<Rightarrow> phil_state option" where
  "phil_step sf rc Main s = (if failed s \<noteq> None then None else phil_main sf rc s)"
| "phil_step sf rc (Phil t r) s = (if failed s \<noteq> None then None else Philosopher_thread_func t r s)"
| "phil_step sf rc (Spurious t) s =
     (if failed s \<noteq> None \<or> at s t \<noteq> F_wait then None else Some (goto t F_reacq s))"

section \<open>Invariant\<close>

definition in_cs :: "phil_pc \<Rightarrow> bool" where
  "in_cs p = (case p of P_hungry \<Rightarrow> True | T_cond i k \<Rightarrow> True | T_set i k \<Rightarrow> True | T_signal i k \<Rightarrow> True
     | P_while \<Rightarrow> True | P_wait \<Rightarrow> True | P_assert \<Rightarrow> True | P_unlock \<Rightarrow> True | R_think \<Rightarrow> True
     | R_unlock \<Rightarrow> True | _ \<Rightarrow> False)"

text \<open>The state a philosopher may be in at each point of its program.\<close>

definition phase :: "phil_pc \<Rightarrow> PHILOSOPHER_STATE \<Rightarrow> bool" where
  "phase p st = (case p of
     T_cond i k \<Rightarrow> st = (if k = K_pickup then HUNGRY else THINKING)
   | T_set i k \<Rightarrow> st = (if k = K_pickup then HUNGRY else THINKING)
   | T_signal i k \<Rightarrow> st = (if k = K_pickup then EATING else THINKING)
   | P_while \<Rightarrow> st \<noteq> THINKING
   | P_wait \<Rightarrow> st = HUNGRY
   | F_wait \<Rightarrow> st \<noteq> THINKING
   | F_reacq \<Rightarrow> st \<noteq> THINKING
   | P_assert \<Rightarrow> st = EATING | P_unlock \<Rightarrow> st = EATING
   | E_assert1 \<Rightarrow> st = EATING | E_count \<Rightarrow> st = EATING | E_sleep \<Rightarrow> st = EATING | E_assert2 \<Rightarrow> st = EATING
   | R_assert \<Rightarrow> st = EATING | R_lock \<Rightarrow> st = EATING | R_think \<Rightarrow> st = EATING
   | _ \<Rightarrow> st = THINKING)"

text \<open>Which philosopher a running \<open>test\<close> is about, and what it knows.\<close>

definition target :: "tid \<Rightarrow> int \<Rightarrow> test_call \<Rightarrow> nat" where
  "target t c k = (case k of K_pickup \<Rightarrow> t | K_first \<Rightarrow> first_tested c t | K_second \<Rightarrow> second_tested c t)"

definition test_ok :: "tid \<Rightarrow> phil_state \<Rightarrow> bool" where
  "test_ok t s = (case at s t of
     T_cond i k \<Rightarrow> i = target t (eating_count s t) k
   | T_set i k \<Rightarrow> i = target t (eating_count s t) k \<and> PhilosopherState s i = HUNGRY \<and>
       neighbors_not_eating i s
   | T_signal i k \<Rightarrow> i = target t (eating_count s t) k \<and> PhilosopherState s i = EATING
   | _ \<Rightarrow> True)"

definition self_ok :: "tid \<Rightarrow> phil_state \<Rightarrow> bool" where
  "self_ok t s = (case at s t of
     PH_unborn \<Rightarrow> True
   | PH_num i \<Rightarrow> t < 5 \<and> i \<le> t \<and> Philosopher_tid s t = Some t
   | _ \<Rightarrow> t < 5 \<and> philosopher_number s t = t)"

definition count_ok :: "tid \<Rightarrow> phil_state \<Rightarrow> bool" where
  "count_ok t s \<longleftrightarrow> 0 \<le> eating_count s t \<and> eating_count s t \<le> INT_MAX \<and>
     (at s t = R_assert \<or> at s t = E_assert2 \<or> at s t = E_sleep \<longrightarrow> 0 < eating_count s t)"

text \<open>The philosopher in the critical section will still test \<open>i\<close>, or is about to let it eat.\<close>

definition pending :: "nat \<Rightarrow> phil_state \<Rightarrow> bool" where
  "pending i s = (case mutex s of None \<Rightarrow> False | Some h \<Rightarrow>
     (case at s h of
        T_cond j k \<Rightarrow> i = j \<or> k = K_first \<and> i = second_tested (eating_count s h) h
      | T_set j k \<Rightarrow> i = j \<or> k = K_first \<and> i = second_tested (eating_count s h) h
      | T_signal j k \<Rightarrow> k = K_first \<and> i = second_tested (eating_count s h) h
      | _ \<Rightarrow> False))"

definition signalling :: "nat \<Rightarrow> phil_state \<Rightarrow> bool" where
  "signalling i s = (case mutex s of None \<Rightarrow> False | Some h \<Rightarrow>
     (case at s h of T_signal j k \<Rightarrow> i = j | _ \<Rightarrow> False))"

definition waiting :: "phil_pc \<Rightarrow> bool" where
  "waiting p \<longleftrightarrow> p = P_while \<or> p = P_wait \<or> p = F_wait \<or> p = F_reacq"

definition wait_ok :: "nat \<Rightarrow> phil_state \<Rightarrow> bool" where
  "wait_ok i s \<longleftrightarrow>
     (at s i = F_wait \<and> PhilosopherState s i = EATING \<longrightarrow> signalling i s) \<and>
     (waiting (at s i) \<and> PhilosopherState s i = HUNGRY \<longrightarrow> \<not> neighbors_not_eating i s \<or> pending i s)"

definition exclusive :: "phil_state \<Rightarrow> bool" where
  "exclusive s \<longleftrightarrow> (\<forall>i < 5. PhilosopherState s i = EATING \<longrightarrow> neighbors_not_eating i s)"

definition lock_ok :: "phil_state \<Rightarrow> bool" where
  "lock_ok s \<longleftrightarrow> (\<forall>t. in_cs (at s t) \<longleftrightarrow> mutex s = Some t)"

definition local_ok :: "phil_state \<Rightarrow> bool" where
  "local_ok s \<longleftrightarrow> (\<forall>t. phase (at s t) (PhilosopherState s t) \<and> self_ok t s \<and> count_ok t s)"

definition main_ok :: "phil_state \<Rightarrow> bool" where
  "main_ok s = (case main_pc s of
     PM_init \<Rightarrow> \<forall>t. at s t = PH_unborn
   | PM_create i \<Rightarrow> i \<le> 5 \<and> (\<forall>t \<ge> i. at s t = PH_unborn)
   | PM_created i \<Rightarrow> i < 5 \<and> (\<forall>t \<ge> i. at s t = PH_unborn) \<and> Philosopher_tid s i = Some i
   | PM_join i \<Rightarrow> True)"

definition tids_ok :: "phil_state \<Rightarrow> bool" where
  "tids_ok s \<longleftrightarrow> (\<forall>i j. Philosopher_tid s i = Some j \<longrightarrow> i = j)"

definition phil_inv :: "phil_state \<Rightarrow> bool" where
  "phil_inv s \<longleftrightarrow> lock_ok s \<and> local_ok s \<and> (\<forall>t. test_ok t s) \<and> (\<forall>i. wait_ok i s) \<and> exclusive s \<and>
     main_ok s \<and> tids_ok s \<and>
     (failed s = None \<or> failed s = Some Signed_Overflow \<and> (\<exists>t. eating_count s t = INT_MAX))"

section \<open>The table\<close>

lemma lt_5_cases: "(i::nat) < 5 \<Longrightarrow> i = 0 \<or> i = 1 \<or> i = 2 \<or> i = 3 \<or> i = 4"
  by linarith

lemma neighbor_less [simp]: "left_neighbor i < 5" "right_neighbor i < 5"
  by (simp_all add: left_neighbor_def right_neighbor_def)

lemma neighbor_inverse:
  assumes "i < 5"
  shows "left_neighbor (right_neighbor i) = i" "right_neighbor (left_neighbor i) = i"
    "left_neighbor i \<noteq> i" "right_neighbor i \<noteq> i"
  using lt_5_cases [OF assms] by (auto simp: left_neighbor_def right_neighbor_def)

lemma tested_less [simp]: "first_tested c i < 5" "second_tested c i < 5"
  by (simp_all add: first_tested_def second_tested_def)

lemma tested_neq:
  "t < 5 \<Longrightarrow> first_tested c t \<noteq> t" "t < 5 \<Longrightarrow> second_tested c t \<noteq> t"
  by (simp_all add: first_tested_def second_tested_def neighbor_inverse)

lemma tested_cover:
  assumes "i < 5" "t < 5" "left_neighbor i = t \<or> right_neighbor i = t"
  shows "i = first_tested c t \<or> i = second_tested c t"
  using assms neighbor_inverse [OF assms(1)] by (auto simp: first_tested_def second_tested_def)

lemma target_less: "t < 5 \<Longrightarrow> target t c k < 5"
  by (cases k) (simp_all add: target_def)

section \<open>The steps under the invariant\<close>

lemmas phil_defs = goto_def fail_def check_def test_step_def pickup_forks_def return_forks_def
  get_philosopher_num_def Philosopher_thread_func_def rand_sleep_def MAX_SLEEP_TIME_def
  NUM_PHILOSOPHERS_def Let_def

lemma phil_in_cs_simps [simp]:
  "in_cs P_hungry" "in_cs (T_cond i k)" "in_cs (T_set i k)" "in_cs (T_signal i k)" "in_cs P_while"
  "in_cs P_wait" "in_cs P_assert" "in_cs P_unlock" "in_cs R_think" "in_cs R_unlock"
  "\<not> in_cs PH_unborn" "\<not> in_cs (PH_num i)" "\<not> in_cs PH_think" "\<not> in_cs P_lock" "\<not> in_cs F_wait"
  "\<not> in_cs F_reacq" "\<not> in_cs E_assert1" "\<not> in_cs E_count" "\<not> in_cs E_sleep" "\<not> in_cs E_assert2"
  "\<not> in_cs R_assert" "\<not> in_cs R_lock"
  by (simp_all add: in_cs_def)

lemma phil_lock_okD: "lock_ok s \<Longrightarrow> in_cs (at s t) \<longleftrightarrow> mutex s = Some t"
  by (simp add: lock_ok_def)

lemma local_okD:
  assumes "local_ok s"
  shows "phase (at s t) (PhilosopherState s t)" "self_ok t s" "count_ok t s"
  using assms by (simp_all add: local_ok_def)

lemma self_okD:
  "self_ok t s \<Longrightarrow> at s t \<noteq> PH_unborn \<Longrightarrow> t < 5"
  "self_ok t s \<Longrightarrow> at s t \<noteq> PH_unborn \<Longrightarrow> \<forall>i. at s t \<noteq> PH_num i \<Longrightarrow> philosopher_number s t = t"
  by (cases "at s t"; simp add: self_ok_def)+

text \<open>A step of a philosopher, classified: every branch that stops the program but one is excluded.\<close>

inductive moves :: "tid \<Rightarrow> phil_state \<Rightarrow> phil_state \<Rightarrow> bool" where
  found: "at s t = PH_num t \<Longrightarrow> moves t s (goto t PH_think (s\<lparr>philosopher_number :=
      (philosopher_number s)(t := t), eating_count := (eating_count s)(t := 0)\<rparr>))"
| scan: "at s t = PH_num i \<Longrightarrow> i < t \<Longrightarrow> moves t s (goto t (PH_num (i + 1)) s)"
| silent: "(at s t, p) \<in> {(PH_think, P_lock), (E_assert1, E_count), (E_sleep, E_assert2),
      (E_assert2, R_assert), (R_assert, R_lock), (P_assert, P_unlock)} \<Longrightarrow> moves t s (goto t p s)"
| count: "at s t = E_count \<Longrightarrow> eating_count s t < INT_MAX \<Longrightarrow>
    moves t s (goto t E_sleep (s\<lparr>eating_count := (eating_count s)(t := eating_count s t + 1)\<rparr>))"
| overflow: "at s t = E_count \<Longrightarrow> eating_count s t = INT_MAX \<Longrightarrow> moves t s (fail Signed_Overflow s)"
| acquire: "(at s t, p) \<in> {(P_lock, P_hungry), (F_reacq, P_while), (R_lock, R_think)} \<Longrightarrow>
    mutex s = None \<Longrightarrow> moves t s (goto t p (s\<lparr>mutex := Some t\<rparr>))"
| release: "(at s t, p) \<in> {(P_wait, F_wait), (P_unlock, E_assert1), (R_unlock, PH_think)} \<Longrightarrow>
    moves t s (goto t p (s\<lparr>mutex := None\<rparr>))"
| hungry: "at s t = P_hungry \<Longrightarrow>
    moves t s (goto t (T_cond t K_pickup) (s\<lparr>PhilosopherState := (PhilosopherState s)(t := HUNGRY)\<rparr>))"
| may_eat: "at s t = T_cond i k \<Longrightarrow> neighbors_not_eating i s \<Longrightarrow> PhilosopherState s i = HUNGRY \<Longrightarrow>
    moves t s (goto t (T_set i k) s)"
| may_not: "at s t = T_cond i k \<Longrightarrow> \<not> (neighbors_not_eating i s \<and> PhilosopherState s i = HUNGRY) \<Longrightarrow>
    moves t s (goto t (after_test t k s) s)"
| eat: "at s t = T_set i k \<Longrightarrow>
    moves t s (goto t (T_signal i k) (s\<lparr>PhilosopherState := (PhilosopherState s)(i := EATING)\<rparr>))"
| wake: "at s t = T_signal i k \<Longrightarrow> moves t s (goto t (after_test t k s) (signal i s))"
| loop: "at s t = P_while \<Longrightarrow> PhilosopherState s t \<noteq> EATING \<Longrightarrow> moves t s (goto t P_wait s)"
| leave: "at s t = P_while \<Longrightarrow> PhilosopherState s t = EATING \<Longrightarrow> moves t s (goto t P_assert s)"
| think: "at s t = R_think \<Longrightarrow> moves t s (goto t (T_cond (first_tested (eating_count s t) t) K_first)
      (s\<lparr>PhilosopherState := (PhilosopherState s)(t := THINKING)\<rparr>))"

lemma eating_neighbors:
  assumes "local_ok s" "exclusive s" "at s t \<noteq> PH_unborn" "PhilosopherState s t = EATING"
  shows "neighbors_not_eating t s"
  using assms self_okD(1) [OF local_okD(2) [OF assms(1)]] by (simp add: exclusive_def)

lemma locking_moves:
  assumes "at s t \<in> {P_lock, F_reacq, R_lock, P_wait, P_unlock, R_unlock}" "in_cs (at s t) \<longleftrightarrow> mutex s = Some t"
    and st: "Philosopher_thread_func t r s = Some s'"
  shows "moves t s s'"
  using assms moves.acquire [of s t P_hungry] moves.acquire [of s t P_while] moves.acquire [of s t R_think]
    moves.release [of s t F_wait] moves.release [of s t E_assert1] moves.release [of s t PH_think]
  by (auto simp: phil_defs)

lemma testing_moves:
  assumes "at s t \<in> {T_cond i k, T_set i k, T_signal i k}" and st: "Philosopher_thread_func t r s = Some s'"
  shows "moves t s s'"
  using assms moves.may_eat [of s t i k] moves.may_not [of s t i k] moves.eat [of s t i k] moves.wake [of s t i k]
  by (auto simp: phil_defs neighbors_not_eating_def split: if_splits)

text \<open>The assertions hold: an eating philosopher's neighbours do not eat, a counter is positive after a meal.\<close>

lemma silent_moves:
  assumes "at s t \<in> {PH_think, E_assert1, E_sleep, E_assert2, R_assert, P_assert}"
    "phase (at s t) (PhilosopherState s t)" "count_ok t s" "philosopher_number s t = t"
    "PhilosopherState s t = EATING \<Longrightarrow> neighbors_not_eating t s"
    and st: "Philosopher_thread_func t r s = Some s'"
  shows "moves t s s'"
  using assms moves.silent [of s t P_lock] moves.silent [of s t E_count] moves.silent [of s t E_assert2]
    moves.silent [of s t R_assert] moves.silent [of s t R_lock] moves.silent [of s t P_unlock]
  by (auto simp: phil_defs phase_def count_ok_def split: if_splits)

lemma thread_moves:
  assumes "lock_ok s" "local_ok s" "exclusive s" "tids_ok s"
    and st: "Philosopher_thread_func t r s = Some s'"
  shows "moves t s s'"
proof -
  note L = local_okD [OF assms(2), of t] and M = phil_lock_okD [OF assms(1), of t]
  have num: "philosopher_number s t = t" if "at s t \<noteq> PH_unborn" "\<forall>i. at s t \<noteq> PH_num i"
    using self_okD(2) [OF L(2) that] .
  have nb: "neighbors_not_eating t s" if "at s t \<noteq> PH_unborn" "PhilosopherState s t = EATING"
    using eating_neighbors [OF assms(2,3) that] .
  note quiet = silent_moves [OF _ L(1,3) num nb st] and lock = locking_moves [OF _ M st]
  show ?thesis
  proof (cases "at s t")
    case (PH_num i)
    then have *: "i \<le> t" "t < 5" "Philosopher_tid s t = Some t" using L(2) by (simp_all add: self_ok_def)
    have "Philosopher_tid s i = Some t \<longleftrightarrow> i = t" using * assms(4) by (auto simp: tids_ok_def)
    with * PH_num st show ?thesis using moves.found [of s t] moves.scan [of s t i]
      by (auto simp: phil_defs split: if_splits)
  next
    case E_count
    with L(3) st show ?thesis
      using moves.count [of s t] moves.overflow [of s t]
      by (auto simp: phil_defs count_ok_def c_int_def INT_MIN_def split: if_splits)
  next
    case P_hungry
    with st num show ?thesis using moves.hungry [of s t] by (auto simp: phil_defs)
  next
    case P_while
    with st num show ?thesis using moves.loop [of s t] moves.leave [of s t] by (auto simp: phil_defs split: if_splits)
  next
    case R_think
    with st num show ?thesis using moves.think [of s t] by (auto simp: phil_defs)
  qed (use st quiet lock testing_moves [OF _ st] in \<open>simp_all add: phil_defs\<close>)
qed

section \<open>Every step keeps the invariant\<close>

lemma goto_simps [simp]:
  "at (goto t p s) = (at s)(t := p)" "mutex (goto t p s) = mutex s"
  "PhilosopherState (goto t p s) = PhilosopherState s" "eating_count (goto t p s) = eating_count s"
  "philosopher_number (goto t p s) = philosopher_number s" "Philosopher_tid (goto t p s) = Philosopher_tid s"
  "failed (goto t p s) = failed s" "main_pc (goto t p s) = main_pc s"
  by (simp_all add: goto_def)

lemma fail_simps [simp]:
  "at (fail e s) = at s" "mutex (fail e s) = mutex s" "PhilosopherState (fail e s) = PhilosopherState s"
  "eating_count (fail e s) = eating_count s" "philosopher_number (fail e s) = philosopher_number s"
  "Philosopher_tid (fail e s) = Philosopher_tid s" "failed (fail e s) = Some e" "main_pc (fail e s) = main_pc s"
  by (simp_all add: fail_def)

lemma signal_simps [simp]:
  "at (signal i s) = (if at s i = F_wait then (at s)(i := F_reacq) else at s)" "mutex (signal i s) = mutex s"
  "PhilosopherState (signal i s) = PhilosopherState s" "eating_count (signal i s) = eating_count s"
  "philosopher_number (signal i s) = philosopher_number s" "Philosopher_tid (signal i s) = Philosopher_tid s"
  "failed (signal i s) = failed s" "main_pc (signal i s) = main_pc s"
  by (simp_all add: signal_def)

lemma after_test_simps [simp]: "in_cs (after_test t k s)" "after_test t k s \<noteq> PH_unborn"
  by (cases k; simp)+

lemma moves_frame:
  assumes "moves t s s'"
  shows "main_pc s' = main_pc s" "Philosopher_tid s' = Philosopher_tid s"
    "at s t \<noteq> PH_unborn" "at s' t \<noteq> PH_unborn"
    "u \<noteq> t \<Longrightarrow> at s' u = at s u \<or> at s u = F_wait \<and> at s' u = F_reacq"
    "u \<noteq> t \<Longrightarrow> eating_count s' u = eating_count s u"
    "u \<noteq> t \<Longrightarrow> philosopher_number s' u = philosopher_number s u"
  using assms by (cases; auto)+

lemma moves_lock_ok:
  assumes "moves t s s'" "lock_ok s"
  shows "lock_ok s'"
  unfolding lock_ok_def
proof
  fix u
  show "in_cs (at s' u) \<longleftrightarrow> mutex s' = Some u"
    using assms(1) phil_lock_okD [OF assms(2), of t] phil_lock_okD [OF assms(2), of u]
    by (cases; cases "u = t") auto
qed

text \<open>Outside the critical section nobody changes a philosopher's state but the holder.\<close>

lemma phase_simps [simp]:
  "phase (T_cond i k) st \<longleftrightarrow> st = (if k = K_pickup then HUNGRY else THINKING)"
  "phase (T_set i k) st \<longleftrightarrow> st = (if k = K_pickup then HUNGRY else THINKING)"
  "phase (T_signal i k) st \<longleftrightarrow> st = (if k = K_pickup then EATING else THINKING)"
  "phase P_while st \<longleftrightarrow> st \<noteq> THINKING" "phase P_wait st \<longleftrightarrow> st = HUNGRY"
  "phase F_wait st \<longleftrightarrow> st \<noteq> THINKING" "phase F_reacq st \<longleftrightarrow> st \<noteq> THINKING"
  "phase P_assert st \<longleftrightarrow> st = EATING" "phase P_unlock st \<longleftrightarrow> st = EATING"
  "phase E_assert1 st \<longleftrightarrow> st = EATING" "phase E_count st \<longleftrightarrow> st = EATING"
  "phase E_sleep st \<longleftrightarrow> st = EATING" "phase E_assert2 st \<longleftrightarrow> st = EATING"
  "phase R_assert st \<longleftrightarrow> st = EATING" "phase R_lock st \<longleftrightarrow> st = EATING"
  "phase R_think st \<longleftrightarrow> st = EATING" "phase R_unlock st \<longleftrightarrow> st = THINKING"
  "phase PH_unborn st \<longleftrightarrow> st = THINKING" "phase (PH_num j) st \<longleftrightarrow> st = THINKING"
  "phase PH_think st \<longleftrightarrow> st = THINKING" "phase P_lock st \<longleftrightarrow> st = THINKING"
  "phase P_hungry st \<longleftrightarrow> st = THINKING"
  by (simp_all add: phase_def)

lemma phase_outside:
  assumes "phase p HUNGRY" "\<not> in_cs p"
  shows "phase p EATING" "p = F_wait \<or> p = F_reacq"
  using assms by (cases p; simp)+

lemma moves_phase:
  assumes "moves t s s'" "lock_ok s" "local_ok s" "test_ok t s"
  shows "phase (at s' u) (PhilosopherState s' u)"
proof -
  note Lu = local_okD(1) [OF assms(3), of u] and Lt = local_okD [OF assms(3), of t]
  note M = phil_lock_okD [OF assms(2)]
  have t5: "t < 5" using self_okD(1) [OF Lt(2)] moves_frame(3) [OF assms(1)] by simp
  show ?thesis
    using assms(1)
  proof cases
    case (eat i k)
    have tgt: "i = target t (eating_count s t) k" "PhilosopherState s i = HUNGRY"
      using assms(4) eat(2) by (auto simp: test_ok_def)
    show ?thesis
    proof (cases "u = t")
      case True
      with eat Lt(1) tgt tested_neq [OF t5] show ?thesis
        by (cases k) (auto simp: target_def)
    next
      case False
      have "\<not> in_cs (at s u)" using M [of t] M [of u] eat(2) False by simp
      then have "PhilosopherState s u = HUNGRY \<Longrightarrow> phase (at s u) EATING"
        using phase_outside(1) [of "at s u"] Lu by simp
      with eat False Lu tgt(2) show ?thesis by auto
    qed
  next
    case (wake i k)
    then show ?thesis using Lu Lt(1) by (cases k; cases "u = t") auto
  next
    case (may_not i k)
    then show ?thesis using Lu Lt(1) by (cases k; cases "u = t") auto
  next
    case loop
    then show ?thesis using Lu Lt(1) by (cases "PhilosopherState s t"; cases "u = t") auto
  qed (use Lu Lt(1) in \<open>(cases "u = t", auto)\<close>)+
qed

lemma self_simps [simp]:
  "at s t = PH_unborn \<Longrightarrow> self_ok t s"
  "at s t = PH_num i \<Longrightarrow> self_ok t s \<longleftrightarrow> t < 5 \<and> i \<le> t \<and> Philosopher_tid s t = Some t"
  by (simp_all add: self_ok_def)

lemma self_okI:
  "t < 5 \<Longrightarrow> philosopher_number s t = t \<Longrightarrow> \<forall>i. at s t \<noteq> PH_num i \<Longrightarrow> self_ok t s"
  by (cases "at s t") (simp_all add: self_ok_def)

lemma self_ok_cong:
  "at s' t = at s t \<Longrightarrow> Philosopher_tid s' = Philosopher_tid s \<Longrightarrow>
   philosopher_number s' t = philosopher_number s t \<Longrightarrow> self_ok t s' = self_ok t s"
  by (cases "at s t") (simp_all add: self_ok_def)

lemma after_test_not_num [simp]: "after_test t k s \<noteq> PH_num i" "after_test t k s \<noteq> F_wait"
  "after_test t k s \<noteq> T_set i k'" "after_test t k s \<noteq> T_signal i k'"
  "after_test t k s \<noteq> R_assert" "after_test t k s \<noteq> E_assert2" "after_test t k s \<noteq> E_sleep"
  by (cases k; simp)+

lemma moves_num:
  assumes "moves t s s'" "at s' t = PH_num j"
  shows "\<exists>i. at s t = PH_num i \<and> i < t \<and> j = i + 1"
  using assms by cases auto

lemma moves_self:
  assumes "moves t s s'" "local_ok s"
  shows "self_ok u s'"
proof -
  note Lu = local_okD(2) [OF assms(2), of u] and Lt = local_okD(2) [OF assms(2), of t]
  note F = moves_frame [OF assms(1)]
  have t5: "t < 5" using self_okD(1) [OF Lt] F(3) by simp
  show ?thesis
  proof (cases "u = t")
    case False
    then consider "at s' u = at s u" | "at s u = F_wait" "at s' u = F_reacq" using F(5) by blast
    then show ?thesis
    proof cases
      case 1
      then show ?thesis using self_ok_cong [OF 1 F(2,7)] False Lu by simp
    next
      case 2
      then show ?thesis using self_okD [OF Lu] F(7) False by (auto intro!: self_okI)
    qed
  next
    case True
    show ?thesis
    proof (cases "\<exists>j. at s' t = PH_num j")
      case True
      then obtain j i where "at s' t = PH_num j" "at s t = PH_num i" "i < t" "j = i + 1"
        using moves_num [OF assms(1)] by blast
      with Lt F(2) \<open>u = t\<close> show ?thesis by simp
    next
      case False
      have "philosopher_number s' t = t"
        using assms(1) self_okD(2) [OF Lt] False by cases auto
      with False t5 \<open>u = t\<close> show ?thesis by (auto intro: self_okI)
    qed
  qed
qed

lemma moves_count_ok:
  assumes "moves t s s'" "local_ok s"
  shows "count_ok u s'"
proof -
  note Lu = local_okD(3) [OF assms(2), of u] and Lt = local_okD(3) [OF assms(2), of t]
  show ?thesis
    using assms(1)
    by cases (use Lu Lt in \<open>(cases "u = t", auto simp: count_ok_def INT_MAX_def)\<close>)+
qed

lemma moves_exclusive:
  assumes "moves t s s'" "exclusive s" "test_ok t s"
  shows "exclusive s'"
  using assms(1)
proof cases
  case (eat i k)
  have n: "neighbors_not_eating i s" using assms(3) eat(2) by (auto simp: test_ok_def)
  show ?thesis
    unfolding exclusive_def
  proof (intro allI impI)
    fix j assume j: "j < 5" "PhilosopherState s' j = EATING"
    show "neighbors_not_eating j s'"
    proof (cases "j = i")
      case True
      with n j neighbor_inverse(3,4) [OF j(1)] eat(1) show ?thesis by (simp add: neighbors_not_eating_def)
    next
      case False
      then have e: "PhilosopherState s j = EATING" using j(2) eat(1) by simp
      then have "left_neighbor j \<noteq> i" "right_neighbor j \<noteq> i"
        using n neighbor_inverse [OF j(1)] by (auto simp: neighbors_not_eating_def)
      moreover have "neighbors_not_eating j s" using assms(2) j(1) e by (simp add: exclusive_def)
      ultimately show ?thesis using eat(1) by (simp add: neighbors_not_eating_def)
    qed
  qed
qed (use assms(2) in \<open>(simp add: exclusive_def neighbors_not_eating_def)\<close>)+

lemma neighbors_cong: "PhilosopherState s' = PhilosopherState s \<Longrightarrow> neighbors_not_eating i s' = neighbors_not_eating i s"
  by (simp add: neighbors_not_eating_def)

text \<open>A running \<open>test\<close>: the philosopher that runs it is in the critical section.\<close>

definition testing :: "phil_pc \<Rightarrow> bool" where
  "testing p \<longleftrightarrow> (\<exists>i k. p = T_cond i k \<or> p = T_set i k \<or> p = T_signal i k)"

lemma test_ok_other: "\<not> testing (at s t) \<Longrightarrow> test_ok t s"
  by (cases "at s t") (auto simp: testing_def test_ok_def)

lemma testing_cs: "testing p \<Longrightarrow> in_cs p"
  by (auto simp: testing_def)

lemma test_ok_simps:
  "at s t = T_cond i k \<Longrightarrow> test_ok t s \<longleftrightarrow> i = target t (eating_count s t) k"
  "at s t = T_set i k \<Longrightarrow> test_ok t s \<longleftrightarrow> i = target t (eating_count s t) k \<and> PhilosopherState s i = HUNGRY \<and>
       neighbors_not_eating i s"
  "at s t = T_signal i k \<Longrightarrow> test_ok t s \<longleftrightarrow> i = target t (eating_count s t) k \<and> PhilosopherState s i = EATING"
  by (simp_all add: test_ok_def)

lemma moves_in_cs_other:
  assumes "moves t s s'" "lock_ok s" "u \<noteq> t" "testing (at s' u)"
  shows "at s' u = at s u" "PhilosopherState s' = PhilosopherState s" "eating_count s' u = eating_count s u"
proof -
  note F = moves_frame(5,6) [OF assms(1), of u]
  show a: "at s' u = at s u" "eating_count s' u = eating_count s u"
    using F assms(3,4) by (auto simp: testing_def)
  then have "mutex s = Some u" using phil_lock_okD [OF assms(2), of u] testing_cs assms(4) by simp
  then have "\<not> in_cs (at s t)" using phil_lock_okD [OF assms(2), of t] assms(3) by simp
  with assms(1) show "PhilosopherState s' = PhilosopherState s" by cases auto
qed

lemma moves_test_ok:
  assumes "moves t s s'" "lock_ok s" "local_ok s" "test_ok t s" "test_ok u s"
  shows "test_ok u s'"
proof (cases "testing (at s' u)")
  case False
  then show ?thesis by (rule test_ok_other)
next
  case True
  show ?thesis
  proof (cases "u = t")
    case False
    note O = moves_in_cs_other [OF assms(1,2) False True]
    show ?thesis using assms(5) O neighbors_cong [OF O(2)]
      by (cases "at s u") (simp_all add: test_ok_def)
  next
    case u: True
    have num: "philosopher_number s t = t" if "in_cs (at s t)"
      using self_okD(2) [OF local_okD(2) [OF assms(3)], of t] that by fastforce
    from assms(1) show ?thesis
    proof cases
      case (may_not i k)
      then show ?thesis using u num by (cases k) (auto simp: test_ok_def target_def)
    next
      case (wake i k)
      then show ?thesis using u num by (cases k) (auto simp: test_ok_def target_def)
    next
      case (may_eat i k)
      have "neighbors_not_eating i (goto t (T_set i k) s) = neighbors_not_eating i s"
        by (rule neighbors_cong) simp
      then show ?thesis using u may_eat assms(4) by (simp add: test_ok_def)
    qed (use u assms(4) True in \<open>auto simp: test_ok_def target_def testing_def\<close>)
  qed
qed


lemma signalling_simps:
  "mutex s = None \<Longrightarrow> \<not> signalling i s" "mutex s = None \<Longrightarrow> \<not> pending i s"
  "mutex s = Some h \<Longrightarrow> at s h = T_signal j k \<Longrightarrow> signalling i s \<longleftrightarrow> i = j"
  "mutex s = Some h \<Longrightarrow> \<not> testing (at s h) \<Longrightarrow> \<not> signalling i s"
  "mutex s = Some h \<Longrightarrow> \<not> testing (at s h) \<Longrightarrow> \<not> pending i s"
  "mutex s = Some h \<Longrightarrow> at s h = T_cond j k \<Longrightarrow> \<not> signalling i s"
  "mutex s = Some h \<Longrightarrow> at s h = T_set j k \<Longrightarrow> \<not> signalling i s"
  "mutex s = Some h \<Longrightarrow> at s h = T_cond j k \<Longrightarrow>
     pending i s \<longleftrightarrow> i = j \<or> k = K_first \<and> i = second_tested (eating_count s h) h"
  "mutex s = Some h \<Longrightarrow> at s h = T_set j k \<Longrightarrow>
     pending i s \<longleftrightarrow> i = j \<or> k = K_first \<and> i = second_tested (eating_count s h) h"
  "mutex s = Some h \<Longrightarrow> at s h = T_signal j k \<Longrightarrow>
     pending i s \<longleftrightarrow> k = K_first \<and> i = second_tested (eating_count s h) h"
  by (cases "at s h"; auto simp: signalling_def pending_def testing_def)+

lemma testing_simps [simp]:
  "testing (T_cond i k)" "testing (T_set i k)" "testing (T_signal i k)" "\<not> testing PH_unborn"
  "\<not> testing (PH_num i)" "\<not> testing PH_think" "\<not> testing P_lock" "\<not> testing P_hungry" "\<not> testing P_while"
  "\<not> testing P_wait" "\<not> testing F_wait" "\<not> testing F_reacq" "\<not> testing P_assert" "\<not> testing P_unlock"
  "\<not> testing E_assert1" "\<not> testing E_count" "\<not> testing E_sleep" "\<not> testing E_assert2"
  "\<not> testing R_assert" "\<not> testing R_lock" "\<not> testing R_think" "\<not> testing R_unlock"
  by (auto simp: testing_def)

lemma waiting_simps [simp]:
  "waiting P_while" "waiting P_wait" "waiting F_wait" "waiting F_reacq" "\<not> waiting (T_cond i k)"
  "\<not> waiting (T_set i k)" "\<not> waiting (T_signal i k)" "\<not> waiting PH_unborn" "\<not> waiting (PH_num i)"
  "\<not> waiting PH_think" "\<not> waiting P_lock" "\<not> waiting P_hungry" "\<not> waiting P_assert"
  "\<not> waiting P_unlock" "\<not> waiting E_assert1" "\<not> waiting E_count" "\<not> waiting E_sleep"
  "\<not> waiting E_assert2" "\<not> waiting R_assert" "\<not> waiting R_lock" "\<not> waiting R_think" "\<not> waiting R_unlock"
  by (simp_all add: waiting_def)

lemma pending_cong:
  assumes "mutex s' = mutex s"
    "\<And>h. mutex s = Some h \<Longrightarrow> at s' h = at s h \<and> eating_count s' h = eating_count s h"
  shows "pending i s' = pending i s" "signalling i s' = signalling i s"
  by (cases "mutex s"; simp add: pending_def signalling_def assms cong: phil_pc.case_cong)+

text \<open>The part of the state a step outside the running \<open>test\<close> leaves alone.\<close>

lemma wait_ok_outside:
  assumes "moves t s s'" "lock_ok s" "\<not> in_cs (at s t)" "\<not> in_cs (at s' t)" "wait_ok i s"
  shows "wait_ok i s'"
proof -
  have fr: "PhilosopherState s' = PhilosopherState s" "mutex s' = mutex s" "\<And>u. u \<noteq> t \<Longrightarrow> at s' u = at s u"
    using assms(1,3,4) by (cases; auto)+
  have h: "at s' h = at s h \<and> eating_count s' h = eating_count s h" if "mutex s = Some h" for h
  proof -
    have "h \<noteq> t" using that phil_lock_okD [OF assms(2), of t] assms(3) by auto
    then show ?thesis using fr(3) moves_frame(6) [OF assms(1)] by simp
  qed
  have p: "pending i s' = pending i s" "signalling i s' = signalling i s"
    by (rule pending_cong [OF fr(2)]; use h in blast)+
  have "waiting (at s' i) \<Longrightarrow> waiting (at s i)" "at s' i = F_wait \<Longrightarrow> at s i = F_wait"
    using assms(1,3,4) by (cases; cases "i = t"; auto)+
  with assms(5) show ?thesis
    unfolding wait_ok_def p fr(1) neighbors_cong [OF fr(1)] by blast
qed

text \<open>A step that changes no philosopher's state and finishes no test.\<close>

lemma wait_ok_quiet:
  assumes "wait_ok i s" "PhilosopherState s' = PhilosopherState s" "\<not> signalling i s" "pending i s \<Longrightarrow> pending i s'"
    "at s' i = F_wait \<Longrightarrow> at s i = F_wait \<or> PhilosopherState s i \<noteq> EATING"
    "waiting (at s' i) \<Longrightarrow> waiting (at s i) \<or> PhilosopherState s i \<noteq> HUNGRY"
  shows "wait_ok i s'"
  using assms neighbors_cong [OF assms(2), of i] unfolding wait_ok_def by auto

lemma wait_ok_may_not:
  assumes a: "at s t = T_cond j k" "\<not> (neighbors_not_eating j s \<and> PhilosopherState s j = HUNGRY)"
    and mt: "mutex s = Some t" and w: "wait_ok i s" "test_ok t s" "phase (at s t) (PhilosopherState s t)"
    and num: "philosopher_number s t = t"
  shows "wait_ok i (goto t (after_test t k s) s)"
proof -
  let ?s = "goto t (after_test t k s) s"
  have e: "neighbors_not_eating i ?s = neighbors_not_eating i s" by (rule neighbors_cong) simp
  have "pending i s \<Longrightarrow> i \<noteq> j \<Longrightarrow> pending i ?s"
    using mt a num by (cases k) (auto simp: signalling_simps)
  moreover have "j = target t (eating_count s t) k" using w(2) a(1) by (auto simp: test_ok_def)
  moreover have "\<not> signalling i s" using mt a by (simp add: signalling_simps)
  ultimately show ?thesis using e w(1,3) a
    by (cases k; cases "i = t") (auto simp: wait_ok_def target_def)
qed

lemma wait_ok_eat:
  assumes "at s t = T_set j k" "mutex s = Some t" "wait_ok i s"
  shows "wait_ok i (goto t (T_signal j k) (s\<lparr>PhilosopherState := (PhilosopherState s)(j := EATING)\<rparr>))"
    (is "wait_ok i ?s")
proof -
  have "neighbors_not_eating i ?s \<Longrightarrow> neighbors_not_eating i s"
    by (auto simp: neighbors_not_eating_def split: if_splits)
  moreover have "\<not> signalling i s" "signalling i ?s \<longleftrightarrow> i = j"
    using assms(1,2) by (simp_all add: signalling_simps)
  moreover have "pending i s \<Longrightarrow> i \<noteq> j \<Longrightarrow> pending i ?s"
    using assms(1,2) by (auto simp: signalling_simps)
  ultimately show ?thesis using assms by (cases "i = t"; cases "i = j") (auto simp: wait_ok_def)
qed

lemma wait_ok_wake:
  assumes a: "at s t = T_signal j k" and mt: "mutex s = Some t" and w: "wait_ok i s" "test_ok t s"
    and num: "philosopher_number s t = t"
  shows "wait_ok i (goto t (after_test t k s) (signal j s))" (is "wait_ok i ?s")
proof -
  have e: "neighbors_not_eating i ?s = neighbors_not_eating i s" by (rule neighbors_cong) simp
  have j: "j = target t (eating_count s t) k" "PhilosopherState s j = EATING"
    using w(2) a by (auto simp: test_ok_def)
  have ps: "pending i s \<Longrightarrow> pending i ?s" "signalling i s \<longleftrightarrow> i = j"
    using mt a num by (cases k; auto simp: signalling_simps)+
  consider "i = t" | "i = j" "i \<noteq> t" | "i \<noteq> j" "i \<noteq> t" by blast
  then show ?thesis
  proof cases
    case 1
    then show ?thesis using j by (cases k) (simp_all add: wait_ok_def target_def)
  next
    case 2
    then have "at ?s i \<noteq> F_wait" "PhilosopherState ?s i = EATING" using j(2) by simp_all
    then show ?thesis by (simp add: wait_ok_def)
  next
    case 3
    then have "at ?s i = at s i" "PhilosopherState ?s i = PhilosopherState s i" by simp_all
    then show ?thesis using w(1) e ps 3(1) by (auto simp: wait_ok_def)
  qed
qed

lemma wait_ok_think:
  assumes a: "at s t = R_think" and mt: "mutex s = Some t" and w: "wait_ok i s" and lt: "i < 5" "t < 5"
  shows "wait_ok i (goto t (T_cond (first_tested (eating_count s t) t) K_first)
      (s\<lparr>PhilosopherState := (PhilosopherState s)(t := THINKING)\<rparr>))" (is "wait_ok i ?s")
proof -
  have "\<not> pending i s" "\<not> signalling i s" using mt a by (simp_all add: signalling_simps)
  moreover have "left_neighbor i = t \<or> right_neighbor i = t \<Longrightarrow> pending i ?s"
    using tested_cover [OF lt] mt by (auto simp: signalling_simps)
  moreover have "left_neighbor i \<noteq> t \<Longrightarrow> right_neighbor i \<noteq> t \<Longrightarrow>
      neighbors_not_eating i ?s = neighbors_not_eating i s" by (simp add: neighbors_not_eating_def)
  ultimately show ?thesis using w a by (cases "i = t") (auto simp: wait_ok_def)
qed

lemma moves_wait_ok:
  assumes m: "moves t s s'" and I: "lock_ok s" "local_ok s" "test_ok t s" and w: "wait_ok i s"
    and i5: "i < 5"
  shows "wait_ok i s'"
proof (cases "\<not> in_cs (at s t) \<and> \<not> in_cs (at s' t)")
  case True
  then show ?thesis using wait_ok_outside [OF m I(1) _ _ w] by blast
next
  case cs: False
  note M = phil_lock_okD [OF I(1), of t] and Lt = local_okD(1) [OF I(2), of t]
  have t5: "t < 5" using self_okD(1) [OF local_okD(2) [OF I(2)]] moves_frame(3) [OF m] by simp
  have num: "philosopher_number s t = t" if "in_cs (at s t)"
    using self_okD(2) [OF local_okD(2) [OF I(2)], of t] that by fastforce
  from m show ?thesis
  proof cases
    case hungry
    have "\<not> pending i s" "\<not> signalling i s" using M hungry by (auto simp: signalling_simps)
    moreover have "neighbors_not_eating i s' \<Longrightarrow> neighbors_not_eating i s"
      using hungry Lt by (auto simp: neighbors_not_eating_def split: if_splits)
    ultimately show ?thesis using w hungry by (cases "i = t") (auto simp: wait_ok_def)
  next
    case (may_not j k)
    with M num wait_ok_may_not [OF may_not(2,3) _ w I(3) Lt] show ?thesis by simp
  next
    case (eat j k)
    with M wait_ok_eat [OF eat(2) _ w] show ?thesis by simp
  next
    case (wake j k)
    with M num wait_ok_wake [OF wake(2) _ w I(3)] show ?thesis by simp
  next
    case think
    with M wait_ok_think [OF think(2) _ w i5 t5] show ?thesis by simp
  qed (rule wait_ok_quiet [OF w]; use cs M Lt in \<open>cases "i = t"; auto simp: signalling_simps\<close>)+
qed

lemma moves_main_ok:
  assumes "moves t s s'" "main_ok s"
  shows "main_ok s'"
proof -
  note F = moves_frame [OF assms(1)]
  have "at s' u = PH_unborn \<longleftrightarrow> at s u = PH_unborn" for u
    using F(3,4) F(5) [of u] by (cases "u = t") auto
  with assms(2) F(1,2) show ?thesis by (auto simp: main_ok_def split: phil_main_pc.splits)
qed

lemma moves_failed:
  assumes "moves t s s'" "failed s = None"
  shows "failed s' = None \<or> failed s' = Some Signed_Overflow \<and> eating_count s' t = INT_MAX"
  using assms by cases auto

lemma wait_ok_unborn: "at s i = PH_unborn \<Longrightarrow> wait_ok i s"
  by (simp add: wait_ok_def)

lemma moves_inv:
  assumes inv: "phil_inv s" and m: "moves t s s'" and nf: "failed s = None"
  shows "phil_inv s'"
proof -
  have I: "lock_ok s" "local_ok s" "test_ok t s" "exclusive s" "main_ok s" "tids_ok s"
    "\<And>u. test_ok u s" "\<And>i. wait_ok i s" using inv by (simp_all add: phil_inv_def)
  have "wait_ok i s'" for i
  proof (cases "i < 5")
    case True
    then show ?thesis using moves_wait_ok [OF m I(1-3) I(8)] by blast
  next
    case False
    then have "at s' i = PH_unborn" using self_okD(1) [OF moves_self [OF m I(2)]] by blast
    then show ?thesis by (rule wait_ok_unborn)
  qed
  moreover have "local_ok s'" unfolding local_ok_def
    using moves_phase [OF m I(1-3)] moves_self [OF m I(2)] moves_count_ok [OF m I(2)] by blast
  moreover have "tids_ok s'" using I(6) moves_frame(2) [OF m] by (simp add: tids_ok_def)
  ultimately show ?thesis unfolding phil_inv_def
    using moves_lock_ok [OF m I(1)] moves_test_ok [OF m I(1-3) I(7)] moves_exclusive [OF m I(4,3)]
      moves_main_ok [OF m I(5)] moves_failed [OF m nf] by blast
qed

lemma phil_spurious_inv:
  assumes inv: "phil_inv s" and a: "at s t = F_wait"
  shows "phil_inv (goto t F_reacq s)"
proof -
  have I: "lock_ok s" "local_ok s" "exclusive s" "main_ok s" "tids_ok s"
    "\<And>u. test_ok u s" "\<And>i. wait_ok i s" using inv by (simp_all add: phil_inv_def)
  let ?s = "goto t F_reacq s"
  note L = local_okD [OF I(2)] and M = phil_lock_okD [OF I(1)]
  have n: "neighbors_not_eating i ?s = neighbors_not_eating i s" for i by (rule neighbors_cong) simp
  have mt: "mutex s \<noteq> Some t" using M [of t] a by simp
  have "in_cs (at ?s u) \<longleftrightarrow> mutex ?s = Some u" for u
    using M [of u] mt by (cases "u = t") simp_all
  then have "lock_ok ?s" by (simp add: lock_ok_def)
  moreover have "phase (at ?s u) (PhilosopherState ?s u) \<and> self_ok u ?s \<and> count_ok u ?s" for u
  proof (cases "u = t")
    case True
    then show ?thesis using L [of t] a self_okD [OF L(2) [of t]]
      by (simp add: count_ok_def self_ok_def)
  next
    case False
    have "self_ok u ?s" using self_ok_cong [of ?s u s] False L(2) [of u] by simp
    then show ?thesis using L(1,3) [of u] False by (simp add: count_ok_def)
  qed
  moreover have "test_ok u ?s" for u
  proof (cases "u = t")
    case False
    then show ?thesis using I(6) [of u] n by (cases "at s u") (simp_all add: test_ok_def)
  qed (simp add: test_ok_def)
  moreover have "wait_ok i ?s" for i
  proof -
    have "pending i ?s = pending i s" "signalling i ?s = signalling i s"
      by (rule pending_cong; use mt in auto)+
    then show ?thesis using I(7) [of i] n a by (cases "i = t") (simp_all add: wait_ok_def)
  qed
  moreover have "exclusive ?s" using I(3) n by (simp add: exclusive_def)
  moreover have "at ?s u = PH_unborn \<longleftrightarrow> at s u = PH_unborn" for u
    using a by (cases "u = t") simp_all
  then have "main_ok ?s" using I(4) by (cases "main_pc s") (simp_all add: main_ok_def del: goto_simps(1))
  moreover have "tids_ok ?s" using I(5) by (simp add: tids_ok_def)
  ultimately show ?thesis
    using inv unfolding phil_inv_def local_ok_def goto_simps(4,7) by blast
qed

lemma phil_inv_created:
  assumes inv: "phil_inv s" and i: "i < 5" "\<forall>t \<ge> i. at s t = PH_unborn" "Philosopher_tid s i = Some i"
    and nf: "failed s = None"
  shows "phil_inv (s\<lparr>at := (at s)(i := PH_num 0), main_pc := PM_create (i + 1)\<rparr>)" (is "phil_inv ?s")
proof -
  have I: "lock_ok s" "local_ok s" "exclusive s" "tids_ok s" "\<And>u. test_ok u s" "\<And>i. wait_ok i s"
    using inv by (simp_all add: phil_inv_def)
  note L = local_okD [OF I(2)]
  have mi: "mutex s \<noteq> Some i" using phil_lock_okD [OF I(1), of i] i(2) by simp
  have "self_ok t ?s" for t
    using L(2) [of t] i by (cases "at s t"; cases "t = i") (auto simp: self_ok_def)
  moreover have "phase (at ?s t) (PhilosopherState ?s t)" for t
    using L(1) [of t] i(2) by (cases "t = i") auto
  moreover have "main_ok ?s" using i by (auto simp: main_ok_def)
  moreover have "lock_ok ?s" unfolding lock_ok_def using phil_lock_okD [OF I(1)] mi by auto
  moreover have "test_ok t ?s" for t
    using I(5) [of t] by (cases "at s t"; cases "t = i") (simp_all add: test_ok_def neighbors_not_eating_def)
  moreover have "wait_ok t ?s" for t
  proof -
    have "pending t ?s = pending t s" "signalling t ?s = signalling t s"
      by (rule pending_cong; use mi in auto)+
    then show ?thesis using I(6) [of t] by (cases "t = i") (simp_all add: wait_ok_def neighbors_not_eating_def)
  qed
  moreover have "count_ok t ?s" for t using L(3) [of t] by (cases "t = i") (simp_all add: count_ok_def)
  ultimately show ?thesis using I(3,4) nf
    by (simp add: phil_inv_def local_ok_def exclusive_def neighbors_not_eating_def tids_ok_def)
qed

lemma phil_inv_create:
  assumes inv: "phil_inv s" and i: "\<forall>t \<ge> i. at s t = PH_unborn" and nf: "failed s = None"
    and f: "i < 5 \<and> f = (Philosopher_tid s)(i := Some i) \<and> q = PM_created i \<or> i = 5 \<and> f = Philosopher_tid s \<and> q = PM_join 0"
  shows "phil_inv (s\<lparr>Philosopher_tid := f, main_pc := q\<rparr>)" (is "phil_inv ?s")
proof -
  have I: "lock_ok s" "local_ok s" "exclusive s" "tids_ok s" "\<And>u. test_ok u s" "\<And>i. wait_ok i s"
    using inv by (simp_all add: phil_inv_def)
  note L = local_okD [OF I(2)]
  have "self_ok t ?s" for t using L(2) [of t] i f by (cases "at s t") (auto simp: self_ok_def)
  moreover have "main_ok ?s" using f i by (auto simp: main_ok_def)
  moreover have "tids_ok ?s" using f I(4) by (auto simp: tids_ok_def split: if_splits)
  moreover have "test_ok t ?s" for t
    using I(5) [of t] by (cases "at s t") (simp_all add: test_ok_def neighbors_not_eating_def)
  moreover have "wait_ok t ?s" for t
    using I(6) [of t]
    by (simp add: wait_ok_def pending_def signalling_def neighbors_not_eating_def cong: option.case_cong phil_pc.case_cong)
  ultimately show ?thesis using I(1,3) L(1,3) nf
    by (simp add: phil_inv_def lock_ok_def local_ok_def exclusive_def neighbors_not_eating_def count_ok_def)
qed

lemma phil_main_inv:
  assumes inv: "phil_inv s" and st: "phil_main True no_error s = Some s'" and nf: "failed s = None"
  shows "phil_inv s'"
proof -
  have I: "local_ok s" "main_ok s" "tids_ok s" using inv by (simp_all add: phil_inv_def)
  note L = local_okD [OF I(1)]
  show ?thesis
  proof (cases "main_pc s")
    case PM_init
    then have u: "at s t = PH_unborn" for t using I(2) by (simp add: main_ok_def)
    then have st0: "PhilosopherState s = (\<lambda>i. THINKING)" using L(1) by (metis phase_simps(18))
    have s': "s' = s\<lparr>mutex := None, PhilosopherState := (\<lambda>i. THINKING), main_pc := PM_create 0\<rparr>"
      using st PM_init by (simp add: phil_main_def init_state_def)
    show ?thesis unfolding s' phil_inv_def
      using u st0 nf I(3) L(3)
      by (simp add: lock_ok_def local_ok_def test_ok_def wait_ok_def exclusive_def main_ok_def
          tids_ok_def count_ok_def)
  next
    case (PM_create i)
    then have i: "i \<le> 5" "\<forall>t \<ge> i. at s t = PH_unborn" using I(2) by (simp_all add: main_ok_def)
    show ?thesis using phil_inv_create [OF inv i(2) nf] st PM_create i(1)
      by (cases "i = 5") (simp_all add: phil_main_def NUM_PHILOSOPHERS_def)
  next
    case (PM_created i)
    then show ?thesis using phil_inv_created [OF inv _ _ _ nf, of i] I(2) st
      by (auto simp: phil_main_def main_ok_def)
  qed (use st in \<open>simp add: phil_main_def\<close>)
qed

interpretation phil: invariant_system "phil_step True no_error" phil_init phil_inv
proof unfold_locales
  show "phil_inv phil_init"
    by (simp add: phil_inv_def phil_init_def lock_ok_def local_ok_def test_ok_def wait_ok_def
        exclusive_def main_ok_def tids_ok_def count_ok_def self_ok_def INT_MAX_def)
  fix s e s'
  assume inv: "phil_inv s" and st: "phil_step True no_error e s = Some s'"
  then have nf: "failed s = None" by (cases e) (simp_all split: if_splits)
  have I: "lock_ok s" "local_ok s" "exclusive s" "tids_ok s" using inv by (simp_all add: phil_inv_def)
  show "phil_inv s'"
  proof (cases e)
    case Main
    with st nf show ?thesis using phil_main_inv [OF inv _ nf] by simp
  next
    case (Phil t r)
    with st nf show ?thesis using moves_inv [OF inv thread_moves [OF I] nf] by simp
  next
    case (Spurious t)
    with st show ?thesis using phil_spurious_inv [OF inv] by (auto split: if_splits)
  qed
qed

text \<open>When an initialisation fails, the program stops before a philosopher exists.\<close>

interpretation phil_start: initialised_system "phil_step sf" phil_init init_lines
    "\<lambda>e s. s = phil_init\<lparr>failed := Some e\<rparr>" for sf
proof unfold_locales
  show "phil_step sf rc = phil_step sf no_error" if "checked_calls rc 0 init_lines = Inr ()" for rc
  proof (intro ext)
    have "init_state rc = init_state no_error" using that by (intro ext) (simp add: init_state_def)
    then show "phil_step sf rc e s = phil_step sf no_error e s" for e s
      by (cases e) (simp_all add: phil_main_def split: phil_main_pc.split)
  qed
  show "s = phil_init\<lparr>failed := Some e\<rparr>"
    if "checked_calls rc 0 init_lines = Inl e" "phil_step sf rc ev phil_init = Some s" for rc e ev s
    using that by (cases ev) (auto simp: phil_main_def init_state_def phil_init_def phil_defs)
  show "phil_step sf rc ev s = None" if "s = phil_init\<lparr>failed := Some e\<rparr>" for e s rc ev
    using that by (cases ev) simp_all
qed

section \<open>Identifiers that are stored late\<close>

text \<open>
  A philosopher whose search has passed its own index before its identifier was there is sent back
  to that index: \<open>settle\<close> undoes the iterations it has made in vain.
\<close>

definition settle :: "(tid \<Rightarrow> phil_pc) \<Rightarrow> tid \<Rightarrow> phil_pc" where
  "settle f t = (case f t of PH_num j \<Rightarrow> PH_num (min j t) | p \<Rightarrow> p)"

text \<open>The identifiers and the position of \<open>main\<close> after the store that is still to come.\<close>

definition late_tids :: "phil_state \<Rightarrow> nat \<Rightarrow> tid option" where
  "late_tids s = (case main_pc s of PM_created i \<Rightarrow> [i \<mapsto> i] ++ Philosopher_tid s | _ \<Rightarrow> Philosopher_tid s)"

definition late_pc :: "phil_state \<Rightarrow> phil_main_pc" where
  "late_pc s = (case main_pc s of PM_created i \<Rightarrow> PM_create (i + 1) | p \<Rightarrow> p)"

definition stored :: "phil_state \<Rightarrow> phil_state" where
  "stored s = s\<lparr>Philosopher_tid := late_tids s, at := settle (at s), main_pc := late_pc s\<rparr>"

lemmas late_defs = late_tids_def late_pc_def

lemma late_frame [simp]:
  "late_tids (s\<lparr>PhilosopherState := v0\<rparr>) = late_tids s" "late_tids (s\<lparr>mutex := v1\<rparr>) = late_tids s" "late_tids (s\<lparr>at := v2\<rparr>) = late_tids s" "late_tids (s\<lparr>philosopher_number := v3\<rparr>) = late_tids s" "late_tids (s\<lparr>eating_count := v4\<rparr>) = late_tids s" "late_tids (s\<lparr>failed := v5\<rparr>) = late_tids s"
  "late_pc (s\<lparr>PhilosopherState := v0\<rparr>) = late_pc s" "late_pc (s\<lparr>mutex := v1\<rparr>) = late_pc s" "late_pc (s\<lparr>at := v2\<rparr>) = late_pc s" "late_pc (s\<lparr>philosopher_number := v3\<rparr>) = late_pc s" "late_pc (s\<lparr>eating_count := v4\<rparr>) = late_pc s" "late_pc (s\<lparr>failed := v5\<rparr>) = late_pc s"
  by (simp_all add: late_defs split: phil_main_pc.split)

lemma settle_iff [simp]:
  "settle f t = p \<longleftrightarrow> f t = p" if "\<And>j. p \<noteq> PH_num j"
  using that by (auto simp: settle_def split: phil_pc.split)

lemma settle_upd [simp]:
  "(\<And>j. p \<noteq> PH_num j) \<Longrightarrow> settle (f(t := p)) = (settle f)(t := p)" "settle (f(t := PH_num j)) = (settle f)(t := PH_num (min j t))"
  by (auto simp: settle_def fun_eq_iff split: phil_pc.split)

lemma phil_stored_simps [simp]:
  "PhilosopherState (stored s) = PhilosopherState s" "mutex (stored s) = mutex s" "failed (stored s) = failed s"
  "at (stored s) = settle (at s)" "philosopher_number (stored s) = philosopher_number s"
  "eating_count (stored s) = eating_count s" "main_pc (stored s) = PM_join i \<longleftrightarrow> main_pc s = PM_join i"
  by (simp_all add: stored_def late_pc_def split: phil_main_pc.split)

text \<open>Apart from \<open>get_philosopher_num\<close> a philosopher neither reads nor changes what \<open>main\<close> keeps.\<close>

lemma after_test_cong [simp]: "after_test t k (s\<lparr>Philosopher_tid := T, at := f, main_pc := p\<rparr>) = after_test t k s"
  by (cases k) simp_all

lemma phil_ignores_main:
  assumes "\<And>j. at s t \<noteq> PH_num j"
  shows "Philosopher_thread_func t r (s\<lparr>Philosopher_tid := T, at := settle (at s), main_pc := p\<rparr>) =
    map_option (\<lambda>s'. s'\<lparr>Philosopher_tid := T, at := settle (at s'), main_pc := p\<rparr>) (Philosopher_thread_func t r s)"
proof -
  have st: "settle (at s) t = at s t" using assms by simp
  show ?thesis using assms
    by (cases "at s t") (auto simp: st phil_defs signal_def neighbors_not_eating_def map_option_case split: option.splits sum.splits)
qed

lemma phil_keeps_main:
  "Philosopher_thread_func t r s = Some s' \<Longrightarrow> Philosopher_tid s' = Philosopher_tid s \<and> main_pc s' = main_pc s"
  by (cases "at s t"; clarsimp simp: phil_defs signal_def split: if_splits option.splits sum.splits)

lemma stored_cong:
  "Philosopher_tid s' = Philosopher_tid s \<Longrightarrow> main_pc s' = main_pc s \<Longrightarrow>
    stored s' = s'\<lparr>Philosopher_tid := late_tids s, at := settle (at s'), main_pc := late_pc s\<rparr>"
  by (simp add: stored_def late_defs split: phil_main_pc.split)

lemma phil_stored_own_tids:
  assumes "phil_inv (stored s)"
  shows "Philosopher_tid s a = Some b \<Longrightarrow> a = b" "[i \<mapsto> i] ++ Philosopher_tid s = (Philosopher_tid s)(i \<mapsto> i)"
proof -
  have "tids_ok (stored s)" using assms by (simp add: phil_inv_def)
  then show own: "Philosopher_tid s a = Some b \<Longrightarrow> a = b" for a b
    by (cases "main_pc s") (simp_all add: tids_ok_def stored_def late_tids_def)
  show "[i \<mapsto> i] ++ Philosopher_tid s = (Philosopher_tid s)(i \<mapsto> i)"
    using own by (auto simp: fun_eq_iff map_add_def split: option.split)
qed

text \<open>One iteration of the search for the own identifier.\<close>

lemma phil_search_late:
  assumes inv: "phil_inv (stored s)" and j: "at s t = PH_num j" and st: "Philosopher_thread_func t r s = Some s'"
  shows "s' = fail (Assertion 481) s \<or> stored s' = stored s \<or> Philosopher_thread_func t r (stored s) = Some (stored s')"
proof -
  have "local_ok (stored s)" using inv by (simp add: phil_inv_def)
  then have "self_ok t (stored s)" by (rule local_okD)
  then have t: "t < 5" "late_tids s t = Some t" using j by (simp_all add: self_ok_def settle_def stored_def)
  have own: "late_tids s a = Some b \<Longrightarrow> a = b" for a b
    using inv by (simp add: phil_inv_def tids_ok_def stored_def)
  note at' = settle_def [of "at s" t, unfolded j, simplified]
  consider "5 \<le> j" | "j < 5" "Philosopher_tid s j = Some t" | "j < t" "Philosopher_tid s j \<noteq> Some t"
    | "j < 5" "t \<le> j" "Philosopher_tid s j \<noteq> Some t" using t(1) by linarith
  then show ?thesis
  proof cases
    case 2
    then have "j = t" using phil_stored_own_tids(1) [OF inv] by blast
    with 2 j st t at' show ?thesis by (auto simp: phil_defs stored_def)
  next
    case 3
    then have "late_tids s j \<noteq> Some t" using own by blast
    with 3 j st t at' show ?thesis by (auto simp: phil_defs stored_def)
  next
    case 4
    then have "s' = goto t (PH_num (j + 1)) s" using st j by (simp add: phil_defs)
    moreover have "(settle (at s))(t := PH_num t) = settle (at s)" using 4 j by (auto simp: fun_eq_iff settle_def)
    ultimately show ?thesis using 4 by (simp add: stored_def goto_def)
  qed (use st j in \<open>simp add: phil_defs\<close>)
qed

lemma phil_late:
  assumes inv: "phil_inv (stored s)" and st: "Philosopher_thread_func t r s = Some s'"
  shows "s' = fail (Assertion 481) s \<or> stored s' = stored s \<or> Philosopher_thread_func t r (stored s) = Some (stored s')"
proof (cases "\<exists>j. at s t = PH_num j")
  case True
  then show ?thesis using phil_search_late [OF inv _ st] by blast
next
  case False
  have "Philosopher_thread_func t r (stored s) = Some (stored s')"
    using phil_ignores_main [of s t r "late_pc s" "late_tids s"] False st phil_keeps_main [OF st]
    by (simp add: stored_cong [of _ s])
  then show ?thesis by blast
qed

lemma phil_main_late:
  assumes inv: "phil_inv (stored s)" and nf: "failed s = None" and st: "phil_main False no_error s = Some s'"
  shows "reachable (phil_step True no_error) (stored s) (stored s')"
proof -
  note upd = phil_stored_own_tids(2) [OF inv]
  have "run (phil_step True no_error) es (stored s) = Some (stored s')"
    if "es = (case main_pc s of PM_created i \<Rightarrow> [] | PM_create i \<Rightarrow> if i < 5 then [Main, Main] else [Main] | _ \<Rightarrow> [Main])" for es
    using st nf that
    by (cases "main_pc s") (auto simp: phil_main_def init_state_def stored_def late_defs upd NUM_PHILOSOPHERS_def)
  then show ?thesis using reachable_iff_run by metis
qed

interpretation phil_late: late_identifiers "\<lambda>sf. phil_step sf no_error" phil_init phil_inv stored "\<lambda>s s'. s' = fail (Assertion 481) s"
proof unfold_locales
  show "stored phil_init = phil_init" by (simp add: stored_def late_defs phil_init_def settle_def fun_eq_iff)
  show "phil_step False no_error e s = None" if "s = fail (Assertion 481) r" for e r s using that by (cases e) simp_all
  fix s e s'
  assume inv: "phil_inv (stored s)" and st: "phil_step False no_error e s = Some s'"
  then have nf: "failed s = None" by (cases e) (simp_all split: if_splits)
  have one: "s' = fail (Assertion 481) s \<or> stored s' = stored s \<or> phil_step True no_error e (stored s) = Some (stored s')" if "e \<noteq> Main"
  proof (cases e)
    case (Phil t r)
    then show ?thesis using phil_late [OF inv] st nf by simp
  next
    case (Spurious t)
    then show ?thesis using st nf by (auto simp: stored_def goto_def split: if_splits)
  qed (use that in simp)
  show "s' = fail (Assertion 481) s \<or> reachable (phil_step True no_error) (stored s) (stored s')"
  proof (cases "e = Main")
    case True
    then show ?thesis using phil_main_late [OF inv nf] st nf by simp
  next
    case False
    from one [OF this] show ?thesis using reachable.start reachable.move [OF reachable.start] by metis
  qed
qed

text \<open>
  A reachable state of the program, in either order and for all return codes: it satisfies the invariant,
  up to the identifier that is still to be stored, or the assertion of \<open>get_philosopher_num\<close> has failed
  in such a state, or an initialisation has failed.
\<close>

definition settled :: "bool \<Rightarrow> phil_state \<Rightarrow> phil_state" where
  "settled store_first s = (if store_first then s else stored s)"

lemma settled_simps [simp]:
  "PhilosopherState (settled sf s) = PhilosopherState s" "mutex (settled sf s) = mutex s" "failed (settled sf s) = failed s"
  "eating_count (settled sf s) = eating_count s" "main_pc (settled sf s) = PM_join i \<longleftrightarrow> main_pc s = PM_join i"
  by (simp_all add: settled_def)

lemma settled_at [simp]: "at (settled sf s) t = p \<longleftrightarrow> at s t = p" if "\<And>j. p \<noteq> PH_num j"
  using that by (simp add: settled_def)

lemma phil_reachable:
  assumes "reachable (phil_step sf rc) phil_init s"
  obtains (runs) "reachable (phil_step True no_error) phil_init (settled sf s)" "phil_inv (settled sf s)"
      "s = phil_init \<or> phil_step sf rc = phil_step sf no_error"
  | (lost) r where "\<not> sf" "s = fail (Assertion 481) r" "phil_inv (settled sf r)"
  | (fails) a where "init_state rc phil_init = Inl a" "s = phil_init\<lparr>failed := Some a\<rparr>"
proof -
  consider (ok) "reachable (phil_step sf no_error) phil_init s" "s = phil_init \<or> phil_step sf rc = phil_step sf no_error"
    | (bad) a where "checked_calls rc 0 init_lines = Inl a" "s = phil_init\<lparr>failed := Some a\<rparr>"
    using phil_start.reachable_cases [OF assms] by blast
  then show thesis
  proof cases
    case ok
    from ok(1) show thesis
      by (cases rule: phil_late.reachable_order) (use ok(2) that(1,2) in \<open>auto simp: settled_def\<close>)
  qed (simp add: fails init_state_def)
qed

text \<open>The late order blocks no philosopher.\<close>

lemma settled_moves:
  assumes "Philosopher_thread_func t r (settled sf s) \<noteq> None"
  shows "Philosopher_thread_func t r s \<noteq> None"
proof (cases "\<exists>j. at s t = PH_num j")
  case False
  with phil_ignores_main [of s t r "late_pc s" "late_tids s"] assms show ?thesis
    by (auto simp: settled_def stored_def split: if_splits)
qed (auto simp: phil_defs)

text \<open>The program never gets to its clean-up: once \<open>main\<close> joins, it stays in the first join.\<close>

lemma phil_never_cleans:
  assumes "reachable (phil_step sf rc) phil_init s" "main_pc s = PM_join j"
  shows "j = 0 \<and> phil_main sf rc s = None"
proof -
  have "main_pc s = PM_join j \<longrightarrow> j = 0" using assms(1)
  proof (induction rule: reachable.induct)
    case (move s e s')
    then show ?case
      by (cases e) (auto simp: phil_defs phil_main_def init_state_def signal_def
          split: if_splits option.splits sum.splits phil_pc.splits phil_main_pc.splits)
  qed (simp add: phil_init_def)
  with assms(2) show ?thesis by (simp add: phil_main_def)
qed

section \<open>Properties\<close>

lemma phil_holder_moves:
  assumes "phil_inv s" "mutex s = Some t"
  shows "\<exists>s'. Philosopher_thread_func t 0 s = Some s'"
proof -
  have "in_cs (at s t)" using assms phil_lock_okD by (simp add: phil_inv_def)
  then show ?thesis by (cases "at s t") (auto simp: phil_defs split: option.splits)
qed

lemma phil_outsider_moves:
  assumes "mutex s = None" "at s t \<noteq> PH_unborn" "at s t \<noteq> F_wait"
  shows "\<exists>s'. Philosopher_thread_func t 0 s = Some s'"
  using assms by (cases "at s t") (auto simp: phil_defs split: option.splits sum.splits)

text \<open>When nobody holds the mutex, a philosopher waiting for its turn has a neighbour that is
  eating and can move.\<close>

lemma waiting_has_mover:
  assumes inv: "phil_inv s" and "mutex s = None" "at s i = F_wait"
  shows "\<exists>t. PhilosopherState s t = EATING \<and> at s t \<noteq> PH_unborn \<and> at s t \<noteq> F_wait"
proof -
  have I: "local_ok s" "wait_ok i s" "\<And>u. wait_ok u s" using inv by (simp_all add: phil_inv_def)
  have none: "\<not> signalling u s" "\<not> pending u s" for u using assms(2) by (simp_all add: signalling_simps)
  have "PhilosopherState s i \<noteq> THINKING" using local_okD(1) [OF I(1), of i] assms(3) by simp
  then have "PhilosopherState s i = HUNGRY"
    using I(2) none assms(3) by (cases "PhilosopherState s i") (auto simp: wait_ok_def)
  then have "\<not> neighbors_not_eating i s" using I(2) none assms(3) by (simp add: wait_ok_def)
  then obtain t where t: "PhilosopherState s t = EATING" by (auto simp: neighbors_not_eating_def)
  have "at s t \<noteq> PH_unborn" using local_okD(1) [OF I(1), of t] t by auto
  moreover have "at s t \<noteq> F_wait" using I(3) [of t] t none by (auto simp: wait_ok_def)
  ultimately show ?thesis using t by blast
qed

lemma phil_progress:
  assumes inv: "phil_inv s" and nf: "failed s = None"
  shows "(\<exists>s'. phil_step True no_error Main s = Some s') \<or> (\<exists>t s'. phil_step True no_error (Phil t 0) s = Some s') \<or>
    (\<forall>t. at s t = PH_unborn)"
proof (cases "mutex s")
  case (Some t)
  then show ?thesis using phil_holder_moves [OF inv] nf by auto
next
  case None
  show ?thesis
  proof (cases "\<forall>t. at s t = PH_unborn")
    case False
    then obtain i where i: "at s i \<noteq> PH_unborn" by blast
    obtain t where "at s t \<noteq> PH_unborn" "at s t \<noteq> F_wait"
      using i waiting_has_mover [OF inv None] by blast
    then show ?thesis using phil_outsider_moves [OF None] nf by fastforce
  qed blast
qed

text \<open>A philosopher never leaves the table, and \<open>main\<close> only gets stuck at its first join.\<close>

lemma main_moves:
  assumes "failed s = None" "\<forall>i. main_pc s \<noteq> PM_join i"
  shows "\<exists>s'. phil_step sf rc Main s = Some s'"
  using assms by (cases "main_pc s") (simp_all add: phil_main_def)

text \<open>Once \<open>main\<close> is joining, the first philosopher has started.\<close>

definition started_ok :: "phil_state \<Rightarrow> bool" where
  "started_ok s \<longleftrightarrow> (main_pc s \<noteq> PM_init \<and> main_pc s \<noteq> PM_create 0 \<and> main_pc s \<noteq> PM_created 0 \<longrightarrow>
     at s 0 \<noteq> PH_unborn) \<and> (\<forall>i. main_pc s = PM_create i \<longrightarrow> i \<le> 5)"

lemma phil_started:
  assumes "reachable (phil_step True no_error) phil_init s" "main_pc s = PM_join i"
  shows "at s 0 \<noteq> PH_unborn"
proof -
  have "started_ok s" using assms(1)
  proof (induction rule: reachable.induct)
    case start
    show ?case by (simp add: started_ok_def phil_init_def)
  next
    case (move s e s')
    have inv: "phil_inv s" using phil.reachable_inv [OF move.hyps(1)] .
    have nf: "failed s = None" using move.hyps(2) by (cases e) (simp_all split: if_splits)
    show ?case
    proof (cases e)
      case Main
      have "main_ok s" using inv by (simp add: phil_inv_def)
      with Main move nf show ?thesis
        by (cases "main_pc s")
           (auto simp: phil_main_def init_state_def started_ok_def main_ok_def NUM_PHILOSOPHERS_def split: if_splits)
    next
      case (Phil t r)
      have "moves t s s'" using thread_moves [of s t r s'] inv Phil move.hyps(2) nf by (simp add: phil_inv_def)
      note F = moves_frame(1,4,5) [OF this]
      have "at s' 0 = PH_unborn \<Longrightarrow> at s 0 = PH_unborn" using F(2) F(3) [of 0] by (cases "t = 0") auto
      with move.IH F(1) show ?thesis by (auto simp: started_ok_def)
    next
      case (Spurious t)
      with move show ?thesis by (cases "t = 0") (auto simp: started_ok_def split: if_splits)
    qed
  qed
  then show ?thesis using assms(2) by (simp add: started_ok_def)
qed

lemma phil_inv_eating:
  assumes "phil_inv (settled sf s)"
  shows "(\<forall>i < 5. PhilosopherState s i = EATING \<longrightarrow>
      PhilosopherState s (left_neighbor i) \<noteq> EATING \<and> PhilosopherState s (right_neighbor i) \<noteq> EATING) \<and>
    (\<forall>t. at s t \<in> {E_assert1, E_count, E_sleep, E_assert2, R_assert, R_lock} \<longrightarrow>
      t < 5 \<and> PhilosopherState s t = EATING)"
proof -
  have I: "exclusive (settled sf s)" "local_ok (settled sf s)" using assms by (simp_all add: phil_inv_def)
  have "t < 5 \<and> PhilosopherState s t = EATING"
    if "at s t \<in> {E_assert1, E_count, E_sleep, E_assert2, R_assert, R_lock}" for t
  proof -
    have "at (settled sf s) t = at s t" using that by auto
    with that show ?thesis
      using local_okD(1) [OF I(2), of t] self_okD(1) [OF local_okD(2) [OF I(2), of t]] by auto
  qed
  with I(1) show ?thesis by (simp add: exclusive_def neighbors_not_eating_def)
qed

lemma phil_inv_wakeup:
  assumes "phil_inv s" "mutex s = None" "at s i = F_wait"
  shows "PhilosopherState s i = HUNGRY \<and> (\<exists>t \<in> {left_neighbor i, right_neighbor i}.
     PhilosopherState s t = EATING \<and> at s t \<in> {F_reacq, E_assert1, E_count, E_sleep, E_assert2, R_assert, R_lock})"
proof -
  have I: "local_ok s" "lock_ok s" "\<And>u. wait_ok u s" using assms(1) by (simp_all add: phil_inv_def)
  have none: "\<not> signalling u s" "\<not> pending u s" for u using assms(2) by (simp_all add: signalling_simps)
  have "PhilosopherState s i \<noteq> THINKING" using local_okD(1) [OF I(1), of i] assms(3) by simp
  then have h: "PhilosopherState s i = HUNGRY"
    using I(3) [of i] none assms(3) by (cases "PhilosopherState s i") (auto simp: wait_ok_def)
  then have "\<not> neighbors_not_eating i s" using I(3) [of i] none assms(3) by (simp add: wait_ok_def)
  then obtain t where t: "t \<in> {left_neighbor i, right_neighbor i}" "PhilosopherState s t = EATING"
    by (auto simp: neighbors_not_eating_def)
  have "\<not> in_cs (at s t)" using phil_lock_okD [OF I(2), of t] assms(2) by simp
  moreover have "at s t \<noteq> F_wait" using I(3) [of t] t none by (auto simp: wait_ok_def)
  ultimately have "at s t \<in> {F_reacq, E_assert1, E_count, E_sleep, E_assert2, R_assert, R_lock}"
    using local_okD(1) [OF I(1), of t] t(2) by (cases "at s t") auto
  with h t show ?thesis by blast
qed

text \<open>A schedule in which philosopher 0 eats and philosopher 1 waits for it.\<close>

definition zero_eats :: "phil_event list" where
  "zero_eats = replicate 12 Main @ replicate 10 (Phil 0 0) @ replicate 8 (Phil 1 0)"

lemma zero_eats_run:
  "map_option (\<lambda>s. (PhilosopherState s 0, PhilosopherState s 1, at s 0, at s 1, failed s, mutex s))
     (run (phil_step True no_error) zero_eats phil_init) = Some (EATING, HUNGRY, E_assert1, F_wait, None, None)"
  by code_simp

lemma zero_eats_state:
  obtains s where "reachable (phil_step True no_error) phil_init s" "PhilosopherState s 0 = EATING"
    "PhilosopherState s 1 = HUNGRY" "at s 0 = E_assert1" "at s 1 = F_wait" "failed s = None" "mutex s = None"
proof -
  obtain s where "run (phil_step True no_error) zero_eats phil_init = Some s" "PhilosopherState s 0 = EATING"
    "PhilosopherState s 1 = HUNGRY" "at s 0 = E_assert1" "at s 1 = F_wait" "failed s = None" "mutex s = None"
    using zero_eats_run by (auto simp del: run.simps)
  then show thesis using that run_reachable [OF reachable.start, of "phil_step True no_error" zero_eats phil_init s] by blast
qed

text \<open>C8: Neighbours never eat together: for all return codes, in every interleaving, with any spurious wake-ups and
  whichever comes first in \<open>pthread_create\<close>, the start of a thread or the storing of its identifier, a
  philosopher whose state is \<open>EATING\<close> has two neighbours whose state is not, and every philosopher
  between the end of \<open>pickup_forks\<close> and \<open>return_forks\<close> is in state \<open>EATING\<close>.\<close>

theorem phil_exclusion:
  assumes "reachable (phil_step store_first rc) phil_init s"
  shows "(\<forall>i < 5. PhilosopherState s i = EATING \<longrightarrow>
      PhilosopherState s (left_neighbor i) \<noteq> EATING \<and> PhilosopherState s (right_neighbor i) \<noteq> EATING) \<and>
    (\<forall>t. at s t \<in> {E_assert1, E_count, E_sleep, E_assert2, R_assert, R_lock} \<longrightarrow>
      t < 5 \<and> PhilosopherState s t = EATING)"
  using assms
proof (cases rule: phil_reachable)
  case runs
  then show ?thesis using phil_inv_eating [of store_first s] by blast
next
  case (lost r)
  then show ?thesis using phil_inv_eating [of store_first r] by simp
qed (simp add: phil_init_def)

theorem phil_exclusion_witness:
  "\<exists>s. reachable (phil_step True no_error) phil_init s \<and> at s 0 = E_assert1 \<and> PhilosopherState s 0 = EATING \<and>
     PhilosopherState s (left_neighbor 0) \<noteq> EATING \<and> PhilosopherState s (right_neighbor 0) \<noteq> EATING"
proof -
  obtain s where s: "reachable (phil_step True no_error) phil_init s" "PhilosopherState s 0 = EATING" "at s 0 = E_assert1"
    by (rule zero_eats_state)
  from phil_exclusion [OF s(1)] have "PhilosopherState s (left_neighbor 0) \<noteq> EATING \<and>
    PhilosopherState s (right_neighbor 0) \<noteq> EATING" using s(2) by force
  with s show ?thesis by blast
qed

text \<open>C11: For all return codes and whichever comes first in \<open>pthread_create\<close>, the program stops in three ways only:
  at the assertion behind an initialisation that has failed, and then no philosopher exists; by the signed overflow of
  a meal counter that has reached \<open>INT_MAX\<close>; or, if \<open>pthread_create\<close> starts a thread before it stores the identifier,
  at the final assertion of \<open>get_philosopher_num\<close>, in a philosopher that has searched the whole array. The
  assertions about the neighbours, the meal counter and the calls on mutexes and condition variables never fail.\<close>

theorem phil_assertions:
  assumes "reachable (phil_step store_first rc) phil_init s"
  shows "failed s = None \<or> failed s = Some Signed_Overflow \<and> (\<exists>t. eating_count s t = INT_MAX) \<or>
    (\<exists>a. init_state rc phil_init = Inl a \<and> failed s = Some a \<and> (\<forall>t. at s t = PH_unborn)) \<or>
    \<not> store_first \<and> failed s = Some (Assertion 481)"
  using assms by (cases rule: phil_reachable) (auto simp: phil_inv_def phil_init_def)

theorem phil_assertions_witness:
  "\<exists>s. reachable (phil_step True no_error) phil_init s \<and> at s 1 = F_wait \<and>
     (failed s = None \<or> failed s = Some Signed_Overflow \<and> (\<exists>t. eating_count s t = INT_MAX))"
proof -
  obtain s where s: "reachable (phil_step True no_error) phil_init s" "at s 1 = F_wait"
    by (rule zero_eats_state)
  have "init_state no_error phil_init \<noteq> Inl a" for a by (simp add: init_state_def)
  with phil_assertions [OF s(1)] s show ?thesis by blast
qed

text \<open>C9: No deadlock: as long as the program has not stopped, \<open>main\<close> or some philosopher can take a
  step of its own, without counting spurious wake-ups and whichever comes first in \<open>pthread_create\<close>; once \<open>main\<close> is
  joining it is a philosopher.\<close>

theorem phil_no_deadlock:
  assumes "reachable (phil_step store_first rc) phil_init s" "failed s = None"
  shows "(\<exists>s'. phil_step store_first rc Main s = Some s') \<or> (\<exists>t < 5. \<exists>s'. phil_step store_first rc (Phil t 0) s = Some s')"
proof (cases "\<forall>i. main_pc s \<noteq> PM_join i")
  case True
  then show ?thesis using main_moves [OF assms(2)] by blast
next
  case False
  let ?s = "settled store_first s"
  from assms obtain r: "reachable (phil_step True no_error) phil_init ?s" and inv: "phil_inv ?s"
    by (cases rule: phil_reachable) auto
  have loc: "local_ok ?s" using inv by (simp add: phil_inv_def)
  have "at ?s 0 \<noteq> PH_unborn" using False phil_started [OF r] by auto
  moreover obtain i where i: "main_pc ?s = PM_join i" using False by auto
  have "phil_step True no_error Main ?s = None" by (simp add: phil_main_def i)
  ultimately obtain t s' where t: "phil_step True no_error (Phil t 0) ?s = Some s'"
    using phil_progress [OF inv] assms(2) by auto
  then have "t < 5" using assms(2) self_okD(1) [OF local_okD(2) [OF loc, of t]]
    by (cases "at ?s t = PH_unborn") (auto simp: phil_defs)
  moreover have "Philosopher_thread_func t 0 s \<noteq> None" using t assms(2) settled_moves [of t 0 store_first s] by simp
  ultimately show ?thesis using assms(2) by auto
qed

theorem phil_no_deadlock_witness:
  "\<exists>s. reachable (phil_step True no_error) phil_init s \<and> at s 1 = F_wait \<and>
    ((\<exists>s'. phil_step True no_error Main s = Some s') \<or> (\<exists>t < 5. \<exists>s'. phil_step True no_error (Phil t 0) s = Some s'))"
proof -
  obtain s where s: "reachable (phil_step True no_error) phil_init s" "at s 1 = F_wait" "failed s = None"
    by (rule zero_eats_state)
  from phil_no_deadlock [OF s(1,3)] s show ?thesis by blast
qed

text \<open>C10: No wake-up is lost: whenever the mutex is free, a philosopher blocked in
  \<open>pthread_cond_wait\<close> is hungry and one of its neighbours is eating, and has still to call
  \<open>return_forks\<close>, which tests it; for all return codes and either order in \<open>pthread_create\<close>.\<close>

theorem phil_no_lost_wakeup:
  assumes "reachable (phil_step store_first rc) phil_init s" "mutex s = None" "at s i = F_wait"
  shows "PhilosopherState s i = HUNGRY \<and> (\<exists>t \<in> {left_neighbor i, right_neighbor i}.
     PhilosopherState s t = EATING \<and> at s t \<in> {F_reacq, E_assert1, E_count, E_sleep, E_assert2, R_assert, R_lock})"
  using assms(1)
proof (cases rule: phil_reachable)
  case runs
  then show ?thesis using phil_inv_wakeup [of "settled store_first s" i] assms(2,3) by auto
next
  case (lost r)
  then show ?thesis using phil_inv_wakeup [of "settled store_first r" i] assms(2,3) by auto
qed (use assms(3) in \<open>simp add: phil_init_def\<close>)

theorem phil_no_lost_wakeup_witness:
  "\<exists>s. reachable (phil_step True no_error) phil_init s \<and> mutex s = None \<and> at s 1 = F_wait \<and>
     PhilosopherState s 1 = HUNGRY"
proof -
  obtain s where s: "reachable (phil_step True no_error) phil_init s" "at s 0 = E_assert1" "at s 1 = F_wait"
    "mutex s = None" by (rule zero_eats_state)
  from phil_no_lost_wakeup [OF s(1,4,3)] s show ?thesis by blast
qed

text \<open>The program relies on \<open>pthread_create\<close> storing the new identifier before the thread looks
  for it: if the thread runs first, \<open>get_philosopher_num\<close> does not find itself and hits its
  final \<open>assert(0)\<close>.\<close>

theorem phil_identifier_race:
  "\<exists>s. reachable (phil_step False no_error) phil_init s \<and> failed s = Some (Assertion 481)"
proof -
  have "map_option failed (run (phil_step False no_error) ([Main, Main] @ replicate 6 (Phil 0 0)) phil_init) =
      Some (Some (Assertion 481))" by code_simp
  then obtain s where s: "run (phil_step False no_error) ([Main, Main] @ replicate 6 (Phil 0 0)) phil_init = Some s"
    "failed s = Some (Assertion 481)" by (auto simp del: run.simps)
  show ?thesis using run_reachable [OF reachable.start s(1)] s(2) by blast
qed

end
