(* ===== verification/Licenses.thy ===== *)
theory Licenses
  imports Posix_Sync
begin

text \<open>
  The licence manager of \<open>ch5/problems/pp5_37/pp5.37.c\<close>: \<open>available_resources\<close> is guarded by a
  mutex and mirrored by a counting semaphore; \<open>decrease_count\<close> takes the units of its request one
  by one, and a second, binary semaphore lets one requester at a time do so. Statements are steps.
\<close>

section \<open>State\<close>

definition MAX_RESOURCES :: int where
  "MAX_RESOURCES = 5"

definition NUM_LICENSE_USER_THREADS :: nat where
  "NUM_LICENSE_USER_THREADS = 7"

definition MAX_SLEEP_TIME :: int where
  "MAX_SLEEP_TIME = 3"

datatype lic_pc =
    L_unborn | L_num | L_sleep | L_gen
  | D_req | D_loop | D_lock | D_assert | D_test | D_sub | D_unlock | D_post
  | L_result | L_use
  | I_lock | I_assert | I_add | I_unlock | I_loop

datatype lic_main_pc = LM_init | LM_create nat | LM_created nat | LM_join nat

record lic_state =
  available_resources :: int
  available_resources_sem :: sem
  user_req_pending_sem :: sem
  mutex :: mutex
  License_user_tid :: "nat \<Rightarrow> tid option"
  main_pc :: lic_main_pc
  at :: "tid \<Rightarrow> lic_pc"
  id :: "tid \<Rightarrow> int"
  req_count :: "tid \<Rightarrow> int"
  i :: "tid \<Rightarrow> int"
  result :: "tid \<Rightarrow> int"
  failed :: "c_abort option"

datatype lic_event = Main | User tid int

definition lic_init :: lic_state where
  "lic_init = \<lparr>available_resources = MAX_RESOURCES, available_resources_sem = 0,
     user_req_pending_sem = 0, mutex = None, License_user_tid = (\<lambda>_. None), main_pc = LM_init,
     at = (\<lambda>_. L_unborn), id = (\<lambda>_. 0), req_count = (\<lambda>_. 0), i = (\<lambda>_. 0), result = (\<lambda>_. 0),
     failed = None\<rparr>"

section \<open>Operations\<close>

definition goto :: "tid \<Rightarrow> lic_pc \<Rightarrow> lic_state \<Rightarrow> lic_state" where
  "goto t p s = s\<lparr>at := (at s)(t := p)\<rparr>"

definition fail :: "c_abort \<Rightarrow> lic_state \<Rightarrow> lic_state" where
  "fail e s = s\<lparr>failed := Some e\<rparr>"

definition rand_sleep :: "int \<Rightarrow> int \<Rightarrow> bool \<Rightarrow> int \<Rightarrow> int c_result" where
  "rand_sleep caller_id mx use_rand r =
     (if \<not> (caller_id \<ge> -1 \<and> mx > 0) then Inl (Assertion 206)
      else Inr (if use_rand then r mod mx + 1 else mx))"

text \<open>\<open>get_t_num\<close>: the search loop from index \<open>j\<close> on.\<close>

function get_t_num :: "(nat \<Rightarrow> tid option) \<Rightarrow> nat \<Rightarrow> tid \<Rightarrow> nat c_result" where
  "get_t_num tids j t =
     (if j < NUM_LICENSE_USER_THREADS
      then if tids j = Some t then Inr j else get_t_num tids (j + 1) t
      else Inl (Assertion 254))"
  by pat_completeness auto
termination
  by (relation "measure (\<lambda>(tids, j, t). NUM_LICENSE_USER_THREADS - j)") auto

declare get_t_num.simps [simp del]

definition decrease_count :: "tid \<Rightarrow> lic_state \<Rightarrow> lic_state option" where
  "decrease_count t s = (case at s t of
     D_req \<Rightarrow> map_option (\<lambda>v. goto t D_loop (s\<lparr>user_req_pending_sem := v, i := (i s)(t := 0)\<rparr>))
       (sem_wait (user_req_pending_sem s))
   | D_loop \<Rightarrow>
       if i s t < req_count s t
       then map_option (\<lambda>v. s\<lparr>available_resources_sem := v, i := (i s)(t := i s t + 1)\<rparr>)
              (sem_wait (available_resources_sem s))
       else Some (goto t D_lock s)
   | D_lock \<Rightarrow> map_option (\<lambda>m. goto t D_assert (s\<lparr>mutex := m\<rparr>)) (mutex_lock t (mutex s))
   | D_assert \<Rightarrow> Some (if available_resources s \<le> MAX_RESOURCES then goto t D_test s
       else fail (Assertion 138) s)
   | D_test \<Rightarrow> Some (if available_resources s < req_count s t
       then goto t D_unlock (s\<lparr>result := (result s)(t := -1)\<rparr>) else goto t D_sub s)
   | D_sub \<Rightarrow> Some (goto t D_unlock (s\<lparr>available_resources := available_resources s - req_count s t,
         result := (result s)(t := 0)\<rparr>))
   | D_unlock \<Rightarrow> Some (case mutex_unlock t (mutex s) of
       None \<Rightarrow> fail (Assertion 151) s | Some m \<Rightarrow> goto t D_post (s\<lparr>mutex := m\<rparr>))
   | D_post \<Rightarrow> Some (case sem_post (user_req_pending_sem s) of
       None \<Rightarrow> fail (Assertion 158) s | Some v \<Rightarrow> goto t L_result (s\<lparr>user_req_pending_sem := v\<rparr>))
   | _ \<Rightarrow> None)"

definition increase_count :: "tid \<Rightarrow> lic_state \<Rightarrow> lic_state option" where
  "increase_count t s = (case at s t of
     I_lock \<Rightarrow> map_option (\<lambda>m. goto t I_assert (s\<lparr>mutex := m\<rparr>)) (mutex_lock t (mutex s))
   | I_assert \<Rightarrow> Some (if available_resources s \<le> MAX_RESOURCES then goto t I_add s
       else fail (Assertion 174) s)
   | I_add \<Rightarrow> Some (goto t I_unlock (s\<lparr>available_resources := available_resources s + req_count s t\<rparr>))
   | I_unlock \<Rightarrow> Some (case mutex_unlock t (mutex s) of
       None \<Rightarrow> fail (Assertion 183) s | Some m \<Rightarrow> goto t I_loop (s\<lparr>mutex := m, i := (i s)(t := 0)\<rparr>))
   | I_loop \<Rightarrow> Some (
       if i s t < req_count s t
       then case sem_post (available_resources_sem s) of
           None \<Rightarrow> fail (Assertion 191) s
         | Some v \<Rightarrow> s\<lparr>available_resources_sem := v, i := (i s)(t := i s t + 1)\<rparr>
       else goto t L_sleep s)
   | _ \<Rightarrow> None)"

text \<open>\<open>r\<close> is the value of the step's call of \<open>rand()\<close>, a non-negative number.\<close>

definition Licence_user_thread_func :: "tid \<Rightarrow> int \<Rightarrow> lic_state \<Rightarrow> lic_state option" where
  "Licence_user_thread_func t r s = (case at s t of
     L_unborn \<Rightarrow> None
   | L_num \<Rightarrow> Some (case get_t_num (License_user_tid s) 0 t of
       Inl e \<Rightarrow> fail e s
     | Inr j \<Rightarrow> goto t L_sleep (s\<lparr>id := (id s)(t := int j), result := (result s)(t := 0)\<rparr>))
   | L_sleep \<Rightarrow> if r < 0 then None else Some (case rand_sleep (id s t) MAX_SLEEP_TIME True r of
       Inl e \<Rightarrow> fail e s | Inr _ \<Rightarrow> goto t L_gen s)
   | L_gen \<Rightarrow> if r < 0 then None else Some (goto t D_req
       (if result s t = 0 then s\<lparr>req_count := (req_count s)(t := r mod MAX_RESOURCES + 1)\<rparr> else s))
   | L_result \<Rightarrow> Some (goto t (if result s t \<noteq> 0 then L_sleep else L_use) s)
   | L_use \<Rightarrow> if r < 0 then None else Some (case rand_sleep (id s t) MAX_SLEEP_TIME True r of
       Inl e \<Rightarrow> fail e s | Inr _ \<Rightarrow> goto t I_lock s)
   | I_lock \<Rightarrow> increase_count t s
   | I_assert \<Rightarrow> increase_count t s
   | I_add \<Rightarrow> increase_count t s
   | I_unlock \<Rightarrow> increase_count t s
   | I_loop \<Rightarrow> increase_count t s
   | _ \<Rightarrow> decrease_count t s)"

text \<open>\<open>rc k\<close> is the return code of the \<open>k\<close>-th of the three initialisations.\<close>

definition init_lines :: "nat list" where
  "init_lines = [67, 73, 78]"

definition init_state :: "(nat \<Rightarrow> int) \<Rightarrow> lic_state \<Rightarrow> lic_state c_result" where
  "init_state rc s = c_bind (checked_calls rc 0 init_lines) (\<lambda>_.
     Inr (s\<lparr>mutex := None, available_resources_sem := nat MAX_RESOURCES, user_req_pending_sem := 1\<rparr>))"

text \<open>
  \<open>main\<close>. \<open>pthread_create\<close> starts the thread and stores its identifier; with \<open>store_first\<close> the identifier
  is stored before the thread runs, otherwise after it has been started. Its result is not looked at; it is
  taken to succeed. The users never exit, so the
  first join blocks for ever and \<open>cleanup_state\<close>, which destroys the mutex and the two semaphores, is
  never called.
\<close>

definition cleanup_state :: "(nat \<Rightarrow> int) \<Rightarrow> unit c_result" where
  "cleanup_state rc = checked_calls rc 0 [46, 51, 56]"

definition lic_main :: "bool \<Rightarrow> (nat \<Rightarrow> int) \<Rightarrow> lic_state \<Rightarrow> lic_state option" where
  "lic_main store_first rc s = (case main_pc s of
     LM_init \<Rightarrow> Some (case init_state rc s of Inl e \<Rightarrow> fail e s | Inr s' \<Rightarrow> s'\<lparr>main_pc := LM_create 0\<rparr>)
   | LM_create j \<Rightarrow> Some (
       if j < NUM_LICENSE_USER_THREADS
       then if store_first
            then s\<lparr>License_user_tid := (License_user_tid s)(j := Some j), at := (at s)(j := L_num),
                   main_pc := LM_create (j + 1)\<rparr>
            else s\<lparr>at := (at s)(j := L_num), main_pc := LM_created j\<rparr>
       else s\<lparr>main_pc := LM_join 0\<rparr>)
   | LM_created j \<Rightarrow> Some (s\<lparr>License_user_tid := (License_user_tid s)(j := Some j), main_pc := LM_create (j + 1)\<rparr>)
   | LM_join j \<Rightarrow> None)"

fun lic_step :: "bool \<Rightarrow> (nat \<Rightarrow> int) \<Rightarrow> lic_event \<Rightarrow> lic_state \<Rightarrow> lic_state option" where
  "lic_step sf rc Main s = (if failed s \<noteq> None then None else lic_main sf rc s)"
| "lic_step sf rc (User t r) s = (if failed s \<noteq> None then None else Licence_user_thread_func t r s)"

section \<open>Invariant\<close>

definition in_cs :: "lic_pc \<Rightarrow> bool" where
  "in_cs p \<longleftrightarrow> p \<in> {D_assert, D_test, D_sub, D_unlock, I_assert, I_add, I_unlock}"

text \<open>The units of the semaphore a thread has taken and not posted, the units it has subtracted
  from \<open>available_resources\<close>, and whether it is between the two operations on the binary semaphore.\<close>

definition tokens :: "lic_state \<Rightarrow> tid \<Rightarrow> int" where
  "tokens s t = (case at s t of
     L_unborn \<Rightarrow> 0 | L_num \<Rightarrow> 0 | L_sleep \<Rightarrow> 0 | L_gen \<Rightarrow> 0 | D_req \<Rightarrow> 0
   | D_loop \<Rightarrow> i s t | I_loop \<Rightarrow> req_count s t - i s t | _ \<Rightarrow> req_count s t)"

definition licences :: "lic_state \<Rightarrow> tid \<Rightarrow> int" where
  "licences s t = (if at s t \<in> {D_unlock, D_post, L_result, L_use, I_lock, I_assert, I_add}
     then req_count s t else 0)"

definition requesting :: "lic_state \<Rightarrow> tid \<Rightarrow> int" where
  "requesting s t = (if at s t \<in> {D_loop, D_lock, D_assert, D_test, D_sub, D_unlock, D_post} then 1 else 0)"

definition user_ok :: "lic_state \<Rightarrow> tid \<Rightarrow> bool" where
  "user_ok s t \<longleftrightarrow> result s t = 0 \<and> 0 \<le> id s t \<and>
     (at s t \<notin> {L_unborn, L_num, L_sleep, L_gen} \<longrightarrow> 1 \<le> req_count s t \<and> req_count s t \<le> 5) \<and>
     (at s t = D_loop \<or> at s t = I_loop \<longrightarrow> 0 \<le> i s t \<and> i s t \<le> req_count s t) \<and>
     (at s t \<noteq> L_unborn \<longrightarrow> t < 7 \<and> License_user_tid s t = Some t) \<and>
     (in_cs (at s t) \<longleftrightarrow> mutex s = Some t)"

definition accounts :: "lic_state \<Rightarrow> bool" where
  "accounts s \<longleftrightarrow> int (available_resources_sem s) + (\<Sum>t<7. tokens s t) = 5 \<and>
     available_resources s + (\<Sum>t<7. licences s t) = 5 \<and>
     int (user_req_pending_sem s) + (\<Sum>t<7. requesting s t) = 1"

definition lic_inv :: "lic_state \<Rightarrow> bool" where
  "lic_inv s \<longleftrightarrow> failed s = None \<and> (\<forall>t. user_ok s t) \<and> (\<forall>a b. License_user_tid s a = Some b \<longrightarrow> a = b) \<and>
     (case main_pc s of
        LM_init \<Rightarrow> available_resources s = 5 \<and> (\<forall>t. at s t = L_unborn)
      | LM_create j \<Rightarrow> accounts s \<and> j \<le> 7 \<and> (\<forall>t. at s t = L_unborn \<longleftrightarrow> j \<le> t)
      | LM_created j \<Rightarrow> False
      | LM_join j \<Rightarrow> accounts s \<and> at s 0 \<noteq> L_unborn)"

section \<open>Every step keeps the invariant\<close>

lemmas lic_defs = goto_def fail_def decrease_count_def increase_count_def Licence_user_thread_func_def
  rand_sleep_def MAX_SLEEP_TIME_def

lemma lic_get_t_num_found:
  assumes "tids t = Some t" "j \<le> t" "t < 7" "\<And>a b. tids a = Some b \<Longrightarrow> a = b"
  shows "get_t_num tids j t = Inr t"
  using assms(2)
proof (induction "t - j" arbitrary: j)
  case 0
  then show ?case using assms by (subst get_t_num.simps) (simp add: NUM_LICENSE_USER_THREADS_def)
next
  case (Suc k)
  then have "tids j \<noteq> Some t" "j < 7" "j + 1 \<le> t" using assms(3,4) by fastforce+
  moreover have "get_t_num tids (j + 1) t = Inr t" using Suc by simp
  ultimately show ?case by (subst get_t_num.simps) (simp add: NUM_LICENSE_USER_THREADS_def)
qed

lemma lic_in_cs_simps [simp]:
  "in_cs D_assert" "in_cs D_test" "in_cs D_sub" "in_cs D_unlock" "in_cs I_assert" "in_cs I_add" "in_cs I_unlock"
  "\<not> in_cs L_unborn" "\<not> in_cs L_num" "\<not> in_cs L_sleep" "\<not> in_cs L_gen" "\<not> in_cs D_req" "\<not> in_cs D_loop"
  "\<not> in_cs D_lock" "\<not> in_cs D_post" "\<not> in_cs L_result" "\<not> in_cs L_use" "\<not> in_cs I_lock" "\<not> in_cs I_loop"
  by (simp_all add: in_cs_def)

lemma accounts_nonneg:
  assumes "\<And>u. user_ok s u"
  shows "0 \<le> tokens s u" "0 \<le> licences s u" "0 \<le> requesting s u" "licences s u \<le> tokens s u"
  using assms [of u]
  by (cases "at s u"; auto simp: tokens_def licences_def requesting_def user_ok_def)+

lemma accounts_bounds:
  assumes ok: "\<And>u. user_ok s u" and acc: "accounts s"
  shows "available_resources_sem s \<le> 5" "user_req_pending_sem s \<le> 1" "available_resources s \<le> 5"
    "0 \<le> available_resources s" "t < 7 \<Longrightarrow> tokens s t - licences s t \<le> available_resources s"
proof -
  note nn = accounts_nonneg [OF ok]
  have sums: "0 \<le> (\<Sum>t<7. tokens s t)" "0 \<le> (\<Sum>t<7. licences s t)" "0 \<le> (\<Sum>t<7. requesting s t)"
    using nn by (auto intro: sum_nonneg)
  have le: "(\<Sum>t<7. licences s t) \<le> (\<Sum>t<7. tokens s t)" using nn(4) by (intro sum_mono)
  show "available_resources_sem s \<le> 5" "user_req_pending_sem s \<le> 1" "available_resources s \<le> 5"
    "0 \<le> available_resources s" using acc sums le by (auto simp: accounts_def)
  assume "t < 7"
  then have "tokens s t - licences s t \<le> (\<Sum>u<7. tokens s u - licences s u)"
    using nn(4) sum_ge_one [of t 7 "\<lambda>u. tokens s u - licences s u"] by simp
  also have "\<dots> = (\<Sum>u<7. tokens s u) - (\<Sum>u<7. licences s u)" by (rule sum_subtractf)
  also have "\<dots> \<le> available_resources s" using acc by (simp add: accounts_def)
  finally show "tokens s t - licences s t \<le> available_resources s" .
qed

lemma user_frame:
  assumes "Licence_user_thread_func t r s = Some s'" "u \<noteq> t"
  shows "at s' u = at s u" "req_count s' u = req_count s u" "i s' u = i s u" "result s' u = result s u" "id s' u = id s u"
  using assms
  by (cases "at s t"; clarsimp simp: lic_defs split: if_splits option.splits sum.splits)+

lemma user_fixed:
  assumes "Licence_user_thread_func t r s = Some s'"
  shows "License_user_tid s' = License_user_tid s" "main_pc s' = main_pc s" "at s t \<noteq> L_unborn"
  using assms
  by (cases "at s t"; clarsimp simp: lic_defs split: if_splits option.splits sum.splits)+

lemma user_step_ok:
  assumes st: "Licence_user_thread_func t r s = Some s'" and ok: "user_ok s t"
    and nf: "failed s = None" and num: "get_t_num (License_user_tid s) 0 t = Inr t"
    and b: "available_resources_sem s \<le> 5" "user_req_pending_sem s \<le> 1" "available_resources s \<le> 5"
    "tokens s t - licences s t \<le> available_resources s"
  shows "failed s' = None" "user_ok s' t"
    "int (available_resources_sem s') - int (available_resources_sem s) = tokens s t - tokens s' t"
    "available_resources s' - available_resources s = licences s t - licences s' t"
    "int (user_req_pending_sem s') - int (user_req_pending_sem s) = requesting s t - requesting s' t"
    "u \<noteq> t \<Longrightarrow> mutex s' = Some u \<longleftrightarrow> mutex s = Some u"
proof -
  have sm: "int (available_resources_sem s) < SEM_VALUE_MAX" "int (user_req_pending_sem s) < SEM_VALUE_MAX"
    using b by (simp_all add: SEM_VALUE_MAX_def)
  have "failed s' = None \<and> user_ok s' t \<and>
    int (available_resources_sem s') - int (available_resources_sem s) = tokens s t - tokens s' t \<and>
    available_resources s' - available_resources s = licences s t - licences s' t \<and>
    int (user_req_pending_sem s') - int (user_req_pending_sem s) = requesting s t - requesting s' t \<and>
    (u \<noteq> t \<longrightarrow> (mutex s' = Some u \<longleftrightarrow> mutex s = Some u))"
    using st ok nf num sm b
    by (cases "at s t";
        clarsimp simp: lic_defs MAX_RESOURCES_def tokens_def licences_def requesting_def split: if_splits option.splits;
        auto simp: user_ok_def)
  then show "failed s' = None" "user_ok s' t"
    "int (available_resources_sem s') - int (available_resources_sem s) = tokens s t - tokens s' t"
    "available_resources s' - available_resources s = licences s t - licences s' t"
    "int (user_req_pending_sem s') - int (user_req_pending_sem s) = requesting s t - requesting s' t"
    "u \<noteq> t \<Longrightarrow> mutex s' = Some u \<longleftrightarrow> mutex s = Some u" by blast+
qed

lemma account_cong:
  assumes "at s' u = at s u" "req_count s' u = req_count s u" "i s' u = i s u"
  shows "tokens s' u = tokens s u" "licences s' u = licences s u" "requesting s' u = requesting s u"
  using assms by (cases "at s u"; simp add: tokens_def licences_def requesting_def)+

lemma account_idle:
  assumes "at s u = L_unborn \<or> at s u = L_num"
  shows "tokens s u = 0" "licences s u = 0" "requesting s u = 0"
  using assms by (auto simp: tokens_def licences_def requesting_def)

lemma accounts_step:
  assumes st: "Licence_user_thread_func t r s = Some s'" and ok: "\<And>u. user_ok s u" and acc: "accounts s"
    and nf: "failed s = None" and tids: "\<And>a b. License_user_tid s a = Some b \<Longrightarrow> a = b"
  shows "failed s' = None" "user_ok s' u" "accounts s'"
proof -
  have t: "t < 7" "License_user_tid s t = Some t" using ok [of t] user_fixed(3) [OF st] by (auto simp: user_ok_def)
  have num: "get_t_num (License_user_tid s) 0 t = Inr t" 
    using lic_get_t_num_found [where tids = "License_user_tid s" and t = t and j = 0] t tids by auto
  note b = accounts_bounds [OF ok acc]
  note S = user_step_ok [OF st ok nf num b(1-3) b(5) [OF t(1)]]
  note F = user_frame [OF st] and G = user_fixed [OF st]
  show "failed s' = None" by (rule S(1))
  show "user_ok s' u"
  proof (cases "u = t")
    case False
    then show ?thesis using ok [of u] F [OF False] G(1) S(6) [OF False] by (simp add: user_ok_def)
  qed (use S(2) in simp)
  have "(\<Sum>u<7. tokens s' u) = (\<Sum>u<7. tokens s u) - tokens s t + tokens s' t"
    using F account_cong by (intro sum_change [OF t(1)]) blast
  moreover have "(\<Sum>u<7. licences s' u) = (\<Sum>u<7. licences s u) - licences s t + licences s' t"
    using F account_cong by (intro sum_change [OF t(1)]) blast
  moreover have "(\<Sum>u<7. requesting s' u) = (\<Sum>u<7. requesting s u) - requesting s t + requesting s' t"
    using F account_cong by (intro sum_change [OF t(1)]) blast
  ultimately show "accounts s'" using acc S(3-5) unfolding accounts_def by linarith
qed

lemma lic_inv_parts:
  assumes "lic_inv s"
  shows "failed s = None" "user_ok s u" "License_user_tid s a = Some b \<Longrightarrow> a = b"
    "main_pc s \<noteq> LM_init \<Longrightarrow> accounts s" "at s t \<noteq> L_unborn \<Longrightarrow> main_pc s \<noteq> LM_init"
  using assms by (auto simp: lic_inv_def split: lic_main_pc.splits)

lemma user_inv:
  assumes inv: "lic_inv s" and st: "Licence_user_thread_func t r s = Some s'"
  shows "lic_inv s'"
proof -
  note P = lic_inv_parts [OF inv]
  note G = user_fixed [OF st] and F = user_frame(1) [OF st]
  have "main_pc s \<noteq> LM_init" using P(5) G(3) by blast
  note S = accounts_step [OF st P(2) P(4) [OF this] P(1) P(3)]
  have "at s' t \<noteq> L_unborn"
    using st by (cases "at s t"; clarsimp simp: lic_defs split: if_splits option.splits sum.splits)
  then have "at s' u = L_unborn \<longleftrightarrow> at s u = L_unborn" for u
    using F [of u] G(3) by (cases "u = t") auto
  then show ?thesis using inv S G(1,2) \<open>main_pc s \<noteq> LM_init\<close>
    by (cases "main_pc s") (simp_all add: lic_inv_def)
qed

lemma lic_inv_createI:
  assumes "failed s = None" "main_pc s = LM_create j" "j \<le> 7" "\<And>t. user_ok s t"
    "\<And>a b. License_user_tid s a = Some b \<Longrightarrow> a = b" "accounts s" "\<And>t. at s t = L_unborn \<longleftrightarrow> j \<le> t"
  shows "lic_inv s"
  using assms by (simp add: lic_inv_def)

lemma lic_create_inv:
  assumes inv: "lic_inv s" and at_pc: "main_pc s = LM_create j" and less: "j < 7"
    and st: "lic_main True no_error s = Some s'"
  shows "lic_inv s'"
proof -
  have j: "j \<le> 7" "\<And>t. at s t = L_unborn \<longleftrightarrow> j \<le> t" and acc: "accounts s"
    using inv at_pc by (simp_all add: lic_inv_def)
  note ok = lic_inv_parts(2) [OF inv]
  let ?s = "s\<lparr>License_user_tid := (License_user_tid s)(j := Some j), at := (at s)(j := L_num),
            main_pc := LM_create (j + 1)\<rparr>"
  have s': "s' = ?s" using st at_pc less by (simp add: lic_main_def NUM_LICENSE_USER_THREADS_def)
  have u: "at s j = L_unborn" using j(2) by simp
  have ok': "user_ok ?s t" for t
    using ok [of t] ok [of j] less u by (cases "t = j") (auto simp: user_ok_def)
  have "tokens ?s t = tokens s t" "licences ?s t = licences s t" "requesting ?s t = requesting s t" for t
    using u account_cong [of ?s t s] account_idle [of s j] account_idle [of ?s j] by (cases "t = j"; simp)+
  then have acc': "accounts ?s" using acc by (simp add: accounts_def)
  have at': "at ?s t = L_unborn \<longleftrightarrow> j + 1 \<le> t" for t using j(2) [of t] by auto
  have tids': "License_user_tid ?s a = Some b \<Longrightarrow> a = b" for a b
    using lic_inv_parts(3) [OF inv] by (cases "a = j") auto
  have "failed ?s = None" "main_pc ?s = LM_create (j + 1)" "j + 1 \<le> 7"
    using lic_inv_parts(1) [OF inv] less by simp_all
  then have "lic_inv ?s" using ok' tids' acc' at' by (intro lic_inv_createI)
  then show ?thesis by (simp only: s')
qed

lemma lic_main_inv:
  assumes inv: "lic_inv s" and st: "lic_main True no_error s = Some s'"
  shows "lic_inv s'"
proof (cases "main_pc s")
  case LM_init
  then have u: "at s t = L_unborn" for t using inv by (simp add: lic_inv_def)
  have "at s' t = L_unborn" for t using st LM_init u by (auto simp: lic_main_def init_state_def)
  note z = account_idle [OF disjI1 [OF this]]
  have "user_ok s' t" for t
    using lic_inv_parts(2) [OF inv, of t] u st LM_init by (auto simp: lic_main_def init_state_def user_ok_def)
  moreover have "accounts s'" using z inv st LM_init
    by (auto simp: accounts_def lic_main_def init_state_def lic_inv_def MAX_RESOURCES_def)
  ultimately show ?thesis using inv st LM_init u
    by (auto simp: lic_inv_def lic_main_def init_state_def)
next
  case (LM_create j)
  then have j: "j \<le> 7" "\<And>t. at s t = L_unborn \<longleftrightarrow> j \<le> t" and acc: "accounts s"
    using inv by (simp_all add: lic_inv_def)
  note ok = lic_inv_parts(2) [OF inv]
  show ?thesis
  proof (cases "j < 7")
    case True
    then show ?thesis using lic_create_inv [OF inv LM_create _ st] by blast
  next
    case False
    then have s': "s' = s\<lparr>main_pc := LM_join 0\<rparr>"
      using st LM_create by (simp add: lic_main_def NUM_LICENSE_USER_THREADS_def)
    have "tokens s' t = tokens s t" "licences s' t = licences s t" "requesting s' t = requesting s t" for t
      using account_cong [of s' t s] unfolding s' by simp_all
    then have "accounts s'" using acc unfolding s' by (simp add: accounts_def)
    then show ?thesis using inv j False LM_create unfolding s' by (simp add: lic_inv_def user_ok_def)
  qed
next
  case (LM_created j)
  then show ?thesis using inv by (simp add: lic_inv_def)
next
  case (LM_join j)
  with st show ?thesis by (simp add: lic_main_def)
qed

interpretation lic: invariant_system "lic_step True no_error" lic_init lic_inv
proof unfold_locales
  show "lic_inv lic_init"
    by (simp add: lic_inv_def lic_init_def user_ok_def MAX_RESOURCES_def)
  show "lic_inv s'" if "lic_inv s" "lic_step True no_error e s = Some s'" for s e s'
  proof (cases e)
    case Main
    with that show ?thesis using lic_main_inv [OF that(1)] by (simp split: if_splits)
  next
    case (User t r)
    with that show ?thesis using user_inv [OF that(1)] by (simp split: if_splits)
  qed
qed

interpretation lic_start: initialised_system "lic_step sf" lic_init init_lines
    "\<lambda>e s. failed s = Some e \<and> main_pc s = LM_init" for sf
proof unfold_locales
  show "lic_step sf rc = lic_step sf no_error" if "checked_calls rc 0 init_lines = Inr ()" for rc
  proof (intro ext)
    have "init_state rc = init_state no_error" using that by (intro ext) (simp add: init_state_def)
    then show "lic_step sf rc e s = lic_step sf no_error e s" for e s
      by (cases e) (simp_all add: lic_main_def split: lic_main_pc.split)
  qed
  show "failed s = Some e \<and> main_pc s = LM_init"
    if "checked_calls rc 0 init_lines = Inl e" "lic_step sf rc ev lic_init = Some s" for rc e ev s
    using that by (cases ev) (auto simp: lic_main_def init_state_def lic_init_def lic_defs)
  show "lic_step sf rc ev s = None" if "failed s = Some e \<and> main_pc s = LM_init" for e s rc ev
    using that by (cases ev) simp_all
qed

section \<open>Identifiers that are stored late\<close>

text \<open>The state with the identifier stored that \<open>pthread_create\<close> has still to store.\<close>

definition stored :: "lic_state \<Rightarrow> lic_state" where
  "stored s = (case main_pc s of
     LM_created j \<Rightarrow> s\<lparr>License_user_tid := [j \<mapsto> j] ++ License_user_tid s, main_pc := LM_create (j + 1)\<rparr>
   | _ \<Rightarrow> s)"

lemma lic_stored_simps [simp]:
  "at (stored s) = at s" "mutex (stored s) = mutex s" "failed (stored s) = failed s" "req_count (stored s) = req_count s"
  "i (stored s) = i s" "result (stored s) = result s" "id (stored s) = id s"
  "available_resources (stored s) = available_resources s"
  "available_resources_sem (stored s) = available_resources_sem s"
  "user_req_pending_sem (stored s) = user_req_pending_sem s"
  "main_pc (stored s) = LM_init \<longleftrightarrow> main_pc s = LM_init"
  by (simp_all add: stored_def split: lic_main_pc.split)

lemma stored_accounts [simp]: "tokens (stored s) = tokens s" "licences (stored s) = licences s" "requesting (stored s) = requesting s"
  by (simp_all add: fun_eq_iff tokens_def licences_def requesting_def split: lic_pc.split)

lemma lic_fail_fields [simp]:
  "available_resources (fail a s) = available_resources s" "licences (fail a s) = licences s" "main_pc (fail a s) = main_pc s"
  "at (fail a s) = at s" "failed (fail a s) = Some a"
  by (simp_all add: fail_def licences_def fun_eq_iff)

text \<open>Apart from \<open>get_t_num\<close> a user neither reads nor changes what \<open>main\<close> keeps.\<close>

lemma user_ignores_main:
  assumes "at s t \<noteq> L_num"
  shows "Licence_user_thread_func t r (s\<lparr>License_user_tid := T, main_pc := p\<rparr>) =
    map_option (\<lambda>s'. s'\<lparr>License_user_tid := T, main_pc := p\<rparr>) (Licence_user_thread_func t r s)"
  using assms
  by (cases "at s t") (auto simp: lic_defs map_option_case split: option.splits sum.splits)

lemma lic_get_t_num_result:
  "case get_t_num tids j t of Inr k \<Rightarrow> tids k = Some t | Inl e \<Rightarrow> e = Assertion 254"
  by (induction tids j t rule: get_t_num.induct) (subst get_t_num.simps, simp)

text \<open>A user that has been started before its identifier is stored does not find itself.\<close>

definition lost :: "lic_state \<Rightarrow> lic_state \<Rightarrow> bool" where
  "lost s s' \<longleftrightarrow> s' = fail (Assertion 254) s \<and> (\<exists>j. main_pc s = LM_created j \<and> at s j = L_num)"

lemma user_late:
  assumes inv: "lic_inv (stored s)" and st: "Licence_user_thread_func t r s = Some s'"
  shows "lost s s' \<or> Licence_user_thread_func t r (stored s) = Some (stored s')"
proof (cases "at s t = L_num")
  case False
  have "main_pc s' = main_pc s \<and> License_user_tid s' = License_user_tid s" using st
    by (cases "at s t"; clarsimp simp: lic_defs split: if_splits option.splits sum.splits)
  then show ?thesis using user_ignores_main [OF False] st by (simp add: stored_def split: lic_main_pc.split)
next
  case True
  note P = lic_inv_parts [OF inv]
  have t: "t < 7" "License_user_tid (stored s) t = Some t" using P(2) [of t] True by (simp_all add: user_ok_def)
  have own: "License_user_tid s a = Some b \<Longrightarrow> a = b" for a b
    using P(3) [of a b] by (cases "main_pc s") (simp_all add: stored_def)
  have found: "get_t_num (License_user_tid (stored s)) 0 t = Inr t"
    using lic_get_t_num_found [of "License_user_tid (stored s)" t 0] t P(3) by blast
  show ?thesis
  proof (cases "get_t_num (License_user_tid s) 0 t")
    case (Inr k)
    then have "k = t" using lic_get_t_num_result [of "License_user_tid s" t 0] own by auto
    with Inr st True found show ?thesis
      by (auto simp: lic_defs stored_def split: lic_main_pc.splits)
  next
    case (Inl e)
    then have "License_user_tid s t \<noteq> Some t" using lic_get_t_num_found [of "License_user_tid s" t 0] t(1) own by auto
    then have "main_pc s = LM_created t" using t(2) by (cases "main_pc s") (auto simp: stored_def map_add_def split: option.splits if_splits)
    with Inl lic_get_t_num_result [of "License_user_tid s" t 0] st True show ?thesis by (simp add: lic_defs lost_def)
  qed
qed

lemma lic_main_late:
  assumes inv: "lic_inv (stored s)" and st: "lic_main False no_error s = Some s'"
  shows "stored s' = stored s \<or> lic_main True no_error (stored s) = Some (stored s')"
proof -
  have "License_user_tid s a = Some b \<Longrightarrow> a = b" for a b
    using lic_inv_parts(3) [OF inv, of a b] by (cases "main_pc s") (simp_all add: stored_def)
  then have upd: "[j \<mapsto> j] ++ License_user_tid s = (License_user_tid s)(j \<mapsto> j)" for j
    by (auto simp: fun_eq_iff map_add_def split: option.split)
  show ?thesis using st by (cases "main_pc s") (auto simp: lic_main_def init_state_def stored_def upd)
qed

interpretation lic_late: late_identifiers "\<lambda>sf. lic_step sf no_error" lic_init lic_inv stored lost
proof unfold_locales
  show "stored lic_init = lic_init" by (simp add: stored_def lic_init_def)
  show "lic_step False no_error e s = None" if "lost r s" for e r s using that by (cases e) (auto simp: lost_def)
  fix s e s'
  assume inv: "lic_inv (stored s)" and st: "lic_step False no_error e s = Some s'"
  then have nf: "failed s = None" by (cases e) (simp_all split: if_splits)
  have "lost s s' \<or> stored s' = stored s \<or> lic_step True no_error e (stored s) = Some (stored s')"
    using st nf lic_main_late [OF inv, of s'] user_late [OF inv, of _ _ s'] by (cases e) auto
  then show "lost s s' \<or> reachable (lic_step True no_error) (stored s) (stored s')"
    using reachable.start reachable.move [OF reachable.start] by metis
qed

lemma lic_inv_stored: "lic_inv s \<Longrightarrow> stored s = s"
  by (simp add: lic_inv_def stored_def split: lic_main_pc.splits)

text \<open>
  A reachable state of the program, in either order and for all return codes: it satisfies the invariant,
  up to the identifier that is still to be stored, or the assertion of \<open>get_t_num\<close> has failed in such a
  state, or an initialisation has failed.
\<close>

lemma lic_reachable:
  assumes "reachable (lic_step sf rc) lic_init s"
  obtains (runs) "lic_inv (stored s)" "s = lic_init \<or> lic_step sf rc = lic_step sf no_error"
  | (lost) r where "\<not> sf" "lost r s" "lic_inv (stored r)"
  | (fails) a where "init_state rc lic_init = Inl a" "failed s = Some a" "main_pc s = LM_init"
proof -
  consider (ok) "reachable (lic_step sf no_error) lic_init s" "s = lic_init \<or> lic_step sf rc = lic_step sf no_error"
    | (bad) a where "checked_calls rc 0 init_lines = Inl a" "failed s = Some a" "main_pc s = LM_init"
    using lic_start.reachable_cases [OF assms] by blast
  then show thesis
  proof cases
    case ok
    from ok(1) show thesis
      by (cases rule: lic_late.reachable_order) (use ok(2) that(1,2) lic_inv_stored in auto)
  qed (simp add: fails init_state_def)
qed

section \<open>Progress\<close>

lemma user_moves:
  assumes "at s t \<noteq> L_unborn" "in_cs (at s t) \<or> mutex s = None"
    "at s t = D_req \<longrightarrow> 0 < user_req_pending_sem s"
    "at s t = D_loop \<longrightarrow> i s t = req_count s t \<or> 0 < available_resources_sem s"
  shows "\<exists>s'. Licence_user_thread_func t 0 s = Some s'"
  using assms
  by (cases "at s t") (auto simp: lic_defs gr0_conv_Suc split: option.splits sum.splits)

text \<open>Not every user that has started can be blocked on one of the two semaphores.\<close>

lemma lic_not_all_blocked:
  assumes P: "\<And>t. user_ok s t" and acc: "accounts s" and zero: "at s 0 \<noteq> L_unborn"
    and blocked: "\<And>t. at s t \<noteq> L_unborn \<Longrightarrow> at s t = D_req \<and> user_req_pending_sem s = 0 \<or>
      at s t = D_loop \<and> i s t < req_count s t \<and> available_resources_sem s = 0"
  shows False
proof (cases "\<exists>t. at s t = D_loop")
  case True
  then obtain t where t: "at s t = D_loop" by blast
  then have b: "i s t < req_count s t" "available_resources_sem s = 0" "t < 7" "req_count s t \<le> 5"
    using blocked [of t] P [of t] by (auto simp: user_ok_def)
  then have "0 < (\<Sum>u<7. tokens s u) - tokens s t"
    using acc t by (simp add: accounts_def tokens_def)
  moreover have "(\<Sum>u<7. ((tokens s)(t := 0)) u) = (\<Sum>u<7. tokens s u) - tokens s t + 0"
    using sum_change [OF b(3), of "(tokens s)(t := 0)" "tokens s"] by simp
  ultimately have "0 < (\<Sum>u<7. ((tokens s)(t := 0)) u)" by linarith
  then obtain u where "u < 7" "0 < ((tokens s)(t := 0)) u" using sum_pos_ex by blast
  then have u: "u < 7" "u \<noteq> t" "0 < tokens s u" by (auto split: if_splits)
  then have "at s u = D_loop" using blocked [of u] by (cases "at s u") (auto simp: tokens_def)
  then have "2 \<le> requesting s t + requesting s u" using t by (simp add: requesting_def)
  also have "\<dots> \<le> (\<Sum>v<7. requesting s v)" using sum_ge_two [of t 7 u "requesting s"] b(3) u accounts_nonneg(3) [OF P] by simp
  finally show False using acc by (simp add: accounts_def)
next
  case False
  then have "requesting s u = 0" for u
    using blocked [of u] by (cases "at s u = L_unborn") (auto simp: requesting_def)
  then have "user_req_pending_sem s = 1" using acc by (simp add: accounts_def)
  with blocked [OF zero] False show False by auto
qed

lemma lic_progress:
  assumes inv: "lic_inv s"
  shows "(\<exists>s'. lic_step sf rc Main s = Some s') \<or> (\<exists>t s'. lic_step sf rc (User t 0) s = Some s')"
proof -
  note P = lic_inv_parts [OF inv]
  have go: "\<exists>t s'. lic_step sf rc (User t 0) s = Some s'" if "\<exists>s'. Licence_user_thread_func t 0 s = Some s'" for t
    using that P(1) by auto
  show ?thesis
  proof (cases "\<exists>j. main_pc s = LM_join j")
    case False
    then show ?thesis using P(1) by (cases "main_pc s") (auto simp: lic_main_def)
  next
    case True
    then have acc: "accounts s" and zero: "at s 0 \<noteq> L_unborn" using inv P(4) by (auto simp: lic_inv_def)
    show ?thesis
    proof (cases "mutex s")
      case (Some h)
      then have "in_cs (at s h)" using P(2) [of h] by (simp add: user_ok_def)
      then have "\<exists>s'. Licence_user_thread_func h 0 s = Some s'" by (intro user_moves) auto
      with go show ?thesis by blast
    next
      case None
      show ?thesis
      proof (rule ccontr)
        assume stuck: "\<not> ?thesis"
        have blocked: "at s t = D_req \<and> user_req_pending_sem s = 0 \<or>
            at s t = D_loop \<and> i s t < req_count s t \<and> available_resources_sem s = 0"
          if "at s t \<noteq> L_unborn" for t
        proof (rule ccontr)
          assume *: "\<not> ?thesis"
          have "i s t \<le> req_count s t" if "at s t = D_loop" using P(2) [of t] that by (simp add: user_ok_def)
          with * have "\<exists>s'. Licence_user_thread_func t 0 s = Some s'"
            by (intro user_moves) (use that None in auto)
          with go stuck show False by blast
        qed
        show False by (rule lic_not_all_blocked [OF P(2) acc zero]) (rule blocked)
      qed
    qed
  qed
qed

section \<open>Properties\<close>

text \<open>A schedule in which thread 0 holds three licences and thread 1 waits for its second one.\<close>

definition two_users :: "lic_event list" where
  "two_users = replicate 9 Main @ replicate 2 (User 0 0) @ User 0 2 # replicate 12 (User 0 0) @
     replicate 2 (User 1 0) @ User 1 4 # replicate 3 (User 1 0)"

lemma two_users_run:
  "map_option (\<lambda>s. (at s 0, at s 1, req_count s 0, available_resources s, available_resources_sem s, result s 0))
     (run (lic_step True no_error) two_users lic_init) = Some (L_use, D_loop, 3, 2, 0, 0)"
  by code_simp

lemma two_users_state:
  obtains s where "reachable (lic_step True no_error) lic_init s" "at s 0 = L_use" "at s 1 = D_loop" "req_count s 0 = 3"
    "available_resources s = 2" "available_resources_sem s = 0"
proof -
  obtain s where s: "run (lic_step True no_error) two_users lic_init = Some s" "at s 0 = L_use" "at s 1 = D_loop"
    "req_count s 0 = 3" "available_resources s = 2" "available_resources_sem s = 0"
    using two_users_run by (auto simp del: run.simps)
  show thesis using that run_reachable [OF reachable.start s(1)] s by blast
qed



text \<open>Contrary to its comment, \<open>decrease_count\<close> never returns -1: a requester that has taken its
  units from the semaphore finds at least as many in \<open>available_resources\<close>, so the request
  succeeds whenever the call returns.\<close>

theorem lic_never_refused:
  assumes "reachable (lic_step True no_error) lic_init s"
  shows "(at s t = D_test \<longrightarrow> req_count s t \<le> available_resources s) \<and> (at s t = L_result \<longrightarrow> result s t = 0)"
proof -
  note P = lic_inv_parts [OF lic.reachable_inv [OF assms]]
  have "req_count s t \<le> available_resources s" if a: "at s t = D_test"
  proof -
    have acc: "accounts s" using P(4) P(5) [of t] a by simp
    have "t < 7" using P(2) [of t] a by (simp add: user_ok_def)
    from accounts_bounds(5) [OF P(2) acc this] a show ?thesis by (simp add: tokens_def licences_def)
  qed
  with P(2) [of t] show ?thesis by (simp add: user_ok_def)
qed

theorem lic_never_refused_witness:
  "\<exists>s. reachable (lic_step True no_error) lic_init s \<and> at s 0 = L_result \<and> result s 0 = 0"
proof -
  have "map_option (\<lambda>s. at s 0)
     (run (lic_step True no_error) (replicate 9 Main @ replicate 2 (User 0 0) @ User 0 2 # replicate 11 (User 0 0)) lic_init) =
     Some L_result" by code_simp
  then obtain s where s: "run (lic_step True no_error) (replicate 9 Main @ replicate 2 (User 0 0) @ User 0 2 #
      replicate 11 (User 0 0)) lic_init = Some s" "at s 0 = L_result" by (auto simp del: run.simps)
  have r: "reachable (lic_step True no_error) lic_init s" by (rule run_reachable [OF reachable.start s(1)])
  from lic_never_refused [OF r, of 0] r s(2) show ?thesis by blast
qed



text \<open>If a user runs before \<open>pthread_create\<close> has stored its identifier, \<open>get_t_num\<close> does not find it and its assertion fails.\<close>

lemma lic_identifier_race:
  "\<exists>s. run (lic_step False no_error) [Main, Main, User 0 0] lic_init = Some s \<and> failed s = Some (Assertion 254)"
proof -
  have n: "get_t_num (\<lambda>_. None) j t = Inl (Assertion 254)" for j t
    by (induction "\<lambda>_ :: nat. None :: tid option" j t rule: get_t_num.induct) (subst get_t_num.simps, simp)
  show ?thesis
    by (simp add: lic_init_def lic_main_def init_state_def NUM_LICENSE_USER_THREADS_def lic_defs n)
qed

end
