(* ===== verification/Barrier.thy ===== *)
theory Barrier
  imports Posix_Sync
begin

text \<open>
  The reusable barrier of \<open>ch5/problems/pp5_41/barrier.c\<close> and its harness \<open>pp5.41.c\<close>: seven
  workers call \<open>barrier_point\<close> for ever. A semaphore lets at most seven threads in, a first wall
  holds back threads that come around before the last round has emptied, a second wall holds
  them until all are inside; both walls share one mutex and one condition variable. Statements on
  shared data are steps; spurious wake-ups are allowed. The history variables \<open>entered\<close> and \<open>left\<close>
  count the rounds a thread has been counted into and out of; no step reads them.
\<close>

section \<open>State\<close>

definition NUM_THREADS :: nat where
  "NUM_THREADS = 7"

definition NUM_WORKER_ITERS :: int where
  "NUM_WORKER_ITERS = 2"

definition INFINITE_ITERS :: bool where
  "INFINITE_ITERS = True"

datatype bar_pc =
    B_unborn | B_num | B_turn
  | E1_lock | E1_test | E1_close | E1_bcast | E1_unlock
  | E2_lock | E2_while | E2_wait | E2_blocked | E2_reacq | E2_unlock
  | E3_lock | E3_inc | E3_unlock
  | X1_lock | X1_while | X1_wait | X1_blocked | X1_reacq | X1_unlock
  | X2_lock | X2_test | X2_open | X2_bcast | X2_dec | X2_unlock
  | B_post | B_loop | B_exited

datatype bar_main_pc = BM_init | BM_create nat | BM_created nat | BM_join nat | BM_cleanup | BM_exit

record bar_state =
  entry_gate_sem :: sem
  mutex :: mutex
  is_closed :: bool
  inside_barrier_count :: int
  barrier_threshold_count :: int
  Barrier_thread_tid :: "nat \<Rightarrow> tid option"
  main_pc :: bar_main_pc
  at :: "tid \<Rightarrow> bar_pc"
  iters :: "tid \<Rightarrow> int"
  failed :: "c_abort option"
  entered :: "tid \<Rightarrow> int"
  left :: "tid \<Rightarrow> int"

datatype bar_event = Main | Worker tid | Spurious tid

definition bar_init :: bar_state where
  "bar_init = \<lparr>entry_gate_sem = 0, mutex = None, is_closed = False, inside_barrier_count = 0,
     barrier_threshold_count = 0, Barrier_thread_tid = (\<lambda>_. None), main_pc = BM_init,
     at = (\<lambda>_. B_unborn), iters = (\<lambda>_. 0), failed = None, entered = (\<lambda>_. 0), left = (\<lambda>_. 0)\<rparr>"

section \<open>Operations\<close>

definition goto :: "tid \<Rightarrow> bar_pc \<Rightarrow> bar_state \<Rightarrow> bar_state" where
  "goto t p s = s\<lparr>at := (at s)(t := p)\<rparr>"

definition fail :: "c_abort \<Rightarrow> bar_state \<Rightarrow> bar_state" where
  "fail e s = s\<lparr>failed := Some e\<rparr>"

definition lock :: "tid \<Rightarrow> bar_pc \<Rightarrow> bar_state \<Rightarrow> bar_state option" where
  "lock t p s = map_option (\<lambda>m. goto t p (s\<lparr>mutex := m\<rparr>)) (mutex_lock t (mutex s))"

definition unlock :: "nat \<Rightarrow> tid \<Rightarrow> bar_pc \<Rightarrow> bar_state \<Rightarrow> bar_state option" where
  "unlock line t p s = Some (case mutex_unlock t (mutex s) of
     None \<Rightarrow> fail (Assertion line) s | Some m \<Rightarrow> goto t p (s\<lparr>mutex := m\<rparr>))"

text \<open>\<open>pthread_cond_broadcast\<close> wakes every thread that waits at either wall.\<close>

definition woken :: "bar_pc \<Rightarrow> bar_pc" where
  "woken p = (if p = E2_blocked then E2_reacq else if p = X1_blocked then X1_reacq else p)"

definition broadcast :: "bar_state \<Rightarrow> bar_state" where
  "broadcast s = s\<lparr>at := (\<lambda>u. woken (at s u))\<rparr>"

definition enter_barrier :: "tid \<Rightarrow> bar_state \<Rightarrow> bar_state option" where
  "enter_barrier t s = (case at s t of
     E1_lock \<Rightarrow> lock t E1_test s
   | E1_test \<Rightarrow> Some (goto t (if inside_barrier_count s = 0 then E1_close else E1_unlock) s)
   | E1_close \<Rightarrow> Some (goto t E1_bcast (s\<lparr>is_closed := True\<rparr>))
   | E1_bcast \<Rightarrow> Some (goto t E1_unlock (broadcast s))
   | E1_unlock \<Rightarrow> unlock 41 t E2_lock s
   | E2_lock \<Rightarrow> lock t E2_while s
   | E2_while \<Rightarrow> Some (goto t (if \<not> is_closed s then E2_wait else E2_unlock) s)
   | E2_wait \<Rightarrow> unlock 55 t E2_blocked s
   | E2_reacq \<Rightarrow> lock t E2_while s
   | E2_unlock \<Rightarrow> unlock 63 t E3_lock s
   | E3_lock \<Rightarrow> lock t E3_inc s
   | E3_inc \<Rightarrow> Some (goto t E3_unlock (s\<lparr>inside_barrier_count := inside_barrier_count s + 1,
       entered := (entered s)(t := entered s t + 1)\<rparr>))
   | E3_unlock \<Rightarrow> unlock 84 t X1_lock s
   | _ \<Rightarrow> None)"

definition exit_barrier :: "tid \<Rightarrow> bar_state \<Rightarrow> bar_state option" where
  "exit_barrier t s = (let thresh = barrier_threshold_count s in case at s t of
     X1_lock \<Rightarrow> lock t X1_while s
   | X1_while \<Rightarrow> Some (goto t (if inside_barrier_count s < thresh \<and> is_closed s then X1_wait else X1_unlock) s)
   | X1_wait \<Rightarrow> unlock 110 t X1_blocked s
   | X1_reacq \<Rightarrow> lock t X1_while s
   | X1_unlock \<Rightarrow> unlock 120 t X2_lock s
   | X2_lock \<Rightarrow> lock t X2_test s
   | X2_test \<Rightarrow> Some (goto t (if inside_barrier_count s = thresh then X2_open else X2_dec) s)
   | X2_open \<Rightarrow> Some (goto t X2_bcast (s\<lparr>is_closed := False\<rparr>))
   | X2_bcast \<Rightarrow> Some (goto t X2_dec (broadcast s))
   | X2_dec \<Rightarrow> Some (goto t X2_unlock
       (if \<not> is_closed s \<and> inside_barrier_count s > 0
        then s\<lparr>inside_barrier_count := inside_barrier_count s - 1, left := (left s)(t := left s t + 1)\<rparr>
        else s))
   | X2_unlock \<Rightarrow> unlock 152 t B_post s
   | _ \<Rightarrow> None)"

definition barrier_point :: "tid \<Rightarrow> bar_state \<Rightarrow> bar_state option" where
  "barrier_point t s = (case at s t of
     B_turn \<Rightarrow> map_option (\<lambda>v. goto t E1_lock (s\<lparr>entry_gate_sem := v\<rparr>)) (sem_wait (entry_gate_sem s))
   | B_post \<Rightarrow> Some (case sem_post (entry_gate_sem s) of
       None \<Rightarrow> fail (Assertion 188) s | Some v \<Rightarrow> goto t B_loop (s\<lparr>entry_gate_sem := v\<rparr>))
   | X1_lock \<Rightarrow> exit_barrier t s | X1_while \<Rightarrow> exit_barrier t s | X1_wait \<Rightarrow> exit_barrier t s
   | X1_reacq \<Rightarrow> exit_barrier t s | X1_unlock \<Rightarrow> exit_barrier t s | X2_lock \<Rightarrow> exit_barrier t s
   | X2_test \<Rightarrow> exit_barrier t s | X2_open \<Rightarrow> exit_barrier t s | X2_bcast \<Rightarrow> exit_barrier t s
   | X2_dec \<Rightarrow> exit_barrier t s | X2_unlock \<Rightarrow> exit_barrier t s
   | _ \<Rightarrow> enter_barrier t s)"

function get_t_num :: "(nat \<Rightarrow> tid option) \<Rightarrow> nat \<Rightarrow> nat \<Rightarrow> tid \<Rightarrow> nat c_result" where
  "get_t_num tids num_t j t =
     (if \<not> num_t > 0 then Inl (Assertion 81)
      else if j < num_t
      then if tids j = Some t then Inr j else get_t_num tids num_t (j + 1) t
      else Inl (Assertion 91))"
  by pat_completeness auto
termination
  by (relation "measure (\<lambda>(tids, num_t, j, t). num_t - j)") auto

declare get_t_num.simps [simp del]

definition Worker_thread_func :: "tid \<Rightarrow> bar_state \<Rightarrow> bar_state option" where
  "Worker_thread_func t s = (case at s t of
     B_unborn \<Rightarrow> None
   | B_exited \<Rightarrow> None
   | B_num \<Rightarrow> Some (case get_t_num (Barrier_thread_tid s) NUM_THREADS 0 t of
       Inl e \<Rightarrow> fail e s
     | Inr j \<Rightarrow> goto t B_turn (s\<lparr>iters := (iters s)(t := NUM_WORKER_ITERS)\<rparr>))
   | B_loop \<Rightarrow> Some (case c_int (iters s t - 1) of
       Inl e \<Rightarrow> fail e s
     | Inr k \<Rightarrow> goto t (if k > 0 \<or> INFINITE_ITERS then B_turn else B_exited) (s\<lparr>iters := (iters s)(t := k)\<rparr>))
   | _ \<Rightarrow> barrier_point t s)"

text \<open>\<open>init\<close> of the barrier, with \<open>N\<close> its argument; \<open>rc k\<close> is the return code of the \<open>k\<close>-th of its three calls.\<close>

definition init_lines :: "nat list" where
  "init_lines = [225, 230, 236]"

definition init :: "(nat \<Rightarrow> int) \<Rightarrow> int \<Rightarrow> bar_state \<Rightarrow> bar_state c_result" where
  "init rc N s = (if \<not> N > 0 then Inl (Assertion 216)
     else c_bind (checked_calls rc 0 init_lines) (\<lambda>_. Inr (s\<lparr>is_closed := True, inside_barrier_count := 0, barrier_threshold_count := N,
       mutex := None, entry_gate_sem := nat N\<rparr>)))"

text \<open>\<open>cleanup_state\<close> destroys the mutex, the condition variable and the semaphore; a call on an
  object that a thread still holds or waits for fails.\<close>

definition cleanup_state :: "bar_state \<Rightarrow> bar_state" where
  "cleanup_state s =
     (if \<not> mutex_destroy_ok (mutex s) then fail (Assertion 199) s
      else if list_ex (\<lambda>t. at s t = E2_blocked \<or> at s t = X1_blocked) [0..<NUM_THREADS] then fail (Assertion 204) s
      else if entry_gate_sem s = 0 \<and> list_ex (\<lambda>t. at s t = B_turn) [0..<NUM_THREADS] then fail (Assertion 209) s
      else s\<lparr>main_pc := BM_exit\<rparr>)"

text \<open>\<open>rand_sleep\<close> of the test program, which nothing calls: the time it sleeps.\<close>

definition rand_sleep :: "int \<Rightarrow> int \<Rightarrow> bool \<Rightarrow> int \<Rightarrow> int c_result" where
  "rand_sleep caller_id mx use_rand r =
     (if \<not> (caller_id \<ge> -1 \<and> mx > 0) then Inl (Assertion 102)
      else Inr (if use_rand then r mod mx + 1 else mx))"

text \<open>\<open>main\<close>; with \<open>store_first\<close> a thread's identifier is stored before the thread runs, otherwise afterwards.
  Creating it, which main does not check, is taken to succeed.\<close>

definition bar_main :: "bool \<Rightarrow> (nat \<Rightarrow> int) \<Rightarrow> bar_state \<Rightarrow> bar_state option" where
  "bar_main store_first rc s = (case main_pc s of
     BM_init \<Rightarrow> Some (case init rc (int NUM_THREADS) s of
       Inl e \<Rightarrow> fail e s | Inr s' \<Rightarrow> s'\<lparr>main_pc := BM_create 0\<rparr>)
   | BM_create j \<Rightarrow> Some (
       if j < NUM_THREADS
       then if store_first
            then s\<lparr>Barrier_thread_tid := (Barrier_thread_tid s)(j := Some j), at := (at s)(j := B_num),
                   main_pc := BM_create (j + 1)\<rparr>
            else s\<lparr>at := (at s)(j := B_num), main_pc := BM_created j\<rparr>
       else s\<lparr>main_pc := BM_join 0\<rparr>)
   | BM_created j \<Rightarrow> Some (s\<lparr>Barrier_thread_tid := (Barrier_thread_tid s)(j := Some j), main_pc := BM_create (j + 1)\<rparr>)
   | BM_join j \<Rightarrow>
       if j < NUM_THREADS
       then if at s j = B_exited then Some (s\<lparr>main_pc := BM_join (j + 1)\<rparr>) else None
       else Some (s\<lparr>main_pc := BM_cleanup\<rparr>)
   | BM_cleanup \<Rightarrow> Some (cleanup_state s)
   | BM_exit \<Rightarrow> None)"

fun bar_step :: "bool \<Rightarrow> (nat \<Rightarrow> int) \<Rightarrow> bar_event \<Rightarrow> bar_state \<Rightarrow> bar_state option" where
  "bar_step sf rc Main s = (if failed s \<noteq> None then None else bar_main sf rc s)"
| "bar_step sf rc (Worker t) s = (if failed s \<noteq> None then None else Worker_thread_func t s)"
| "bar_step sf rc (Spurious t) s =
     (if failed s \<noteq> None then None
      else if at s t = E2_blocked \<or> at s t = X1_blocked then Some (goto t (woken (at s t)) s) else None)"

section \<open>Invariant\<close>

definition in_cs :: "bar_pc \<Rightarrow> bool" where
  "in_cs p \<longleftrightarrow> p \<in> {E1_test, E1_close, E1_bcast, E1_unlock, E2_while, E2_wait, E2_unlock, E3_inc, E3_unlock,
     X1_while, X1_wait, X1_unlock, X2_test, X2_open, X2_bcast, X2_dec, X2_unlock}"

text \<open>A thread is inside between its increment and its decrement of the counter, and in the gate
  between its operations on the semaphore.\<close>

definition inside :: "bar_pc \<Rightarrow> bool" where
  "inside p \<longleftrightarrow> p \<in> {E3_unlock, X1_lock, X1_while, X1_wait, X1_blocked, X1_reacq, X1_unlock,
     X2_lock, X2_test, X2_open, X2_bcast, X2_dec}"

definition in_gate :: "bar_pc \<Rightarrow> bool" where
  "in_gate p \<longleftrightarrow> p \<notin> {B_unborn, B_num, B_turn, B_loop, B_exited}"

definition before_check :: "bar_pc \<Rightarrow> bool" where
  "before_check p \<longleftrightarrow> p \<in> {B_unborn, B_num, B_turn, E1_lock, E1_test, E1_close, X2_unlock, B_post, B_loop}"

text \<open>What the mutex holder is doing matters to the threads blocked at a wall.\<close>

definition holder_at :: "bar_pc \<Rightarrow> bar_state \<Rightarrow> bool" where
  "holder_at p s \<longleftrightarrow> (\<exists>h. mutex s = Some h \<and> at s h = p)"

definition thread_ok :: "bar_state \<Rightarrow> tid \<Rightarrow> bool" where
  "thread_ok s t \<longleftrightarrow>
     (in_cs (at s t) \<longleftrightarrow> mutex s = Some t) \<and>
     entered s t = left s t + of_bool (inside (at s t)) \<and>
     (at s t \<in> {E2_unlock, E3_lock, E3_inc, E1_bcast, X1_wait} \<longrightarrow> is_closed s) \<and>
     (at s t \<in> {X2_bcast, X2_dec, E2_wait} \<longrightarrow> \<not> is_closed s) \<and>
     (at s t \<in> {X1_unlock, X2_lock, X2_test} \<longrightarrow> \<not> is_closed s \<or> inside_barrier_count s = 7) \<and>
     (at s t = X2_open \<longrightarrow> inside_barrier_count s = 7) \<and>
     (at s t = E1_close \<longrightarrow> inside_barrier_count s = 0) \<and>
     (at s t = X1_wait \<longrightarrow> inside_barrier_count s < 7) \<and>
     (at s t = E2_blocked \<and> is_closed s \<longrightarrow> holder_at E1_bcast s) \<and>
     (at s t = X1_blocked \<and> \<not> is_closed s \<longrightarrow> holder_at X2_bcast s) \<and>
     (at s t \<noteq> B_unborn \<longrightarrow> t < 7 \<and> Barrier_thread_tid s t = Some t) \<and> at s t \<noteq> B_exited \<and>
     INT_MIN \<le> iters s t \<and> iters s t \<le> 2"

definition counts_ok :: "bar_state \<Rightarrow> bool" where
  "counts_ok s \<longleftrightarrow> inside_barrier_count s = (\<Sum>t<7. of_bool (inside (at s t))) \<and>
     int (entry_gate_sem s) + (\<Sum>t<7. of_bool (in_gate (at s t))) = 7 \<and> barrier_threshold_count s = 7"

text \<open>While the barrier fills, all threads have left equally many rounds; while it drains, all have
  entered equally many.\<close>

definition agree :: "(tid \<Rightarrow> int) \<Rightarrow> bool" where
  "agree f \<longleftrightarrow> (\<forall>t<7. \<forall>u<7. f t = f u)"

definition rounds_ok :: "bar_state \<Rightarrow> bool" where
  "rounds_ok s \<longleftrightarrow> agree (if is_closed s then left s else entered s)"

definition live_ok :: "bar_state \<Rightarrow> bool" where
  "live_ok s \<longleftrightarrow>
     (is_closed s \<and> inside_barrier_count s = 7 \<longrightarrow> (\<exists>t<7. at s t \<noteq> X1_blocked)) \<and>
     (\<not> is_closed s \<and> inside_barrier_count s = 0 \<longrightarrow> (\<exists>t<7. before_check (at s t)))"

section \<open>Every step keeps the invariant\<close>

lemmas bar_defs = goto_def fail_def lock_def unlock_def broadcast_def enter_barrier_def exit_barrier_def
  barrier_point_def Worker_thread_func_def Let_def

lemmas pc_sets = in_cs_def inside_def in_gate_def before_check_def

lemma woken_simps [simp]:
  "in_cs (woken p) = in_cs p" "inside (woken p) = inside p" "in_gate (woken p) = in_gate p"
  "before_check (woken p) = before_check p" "woken p = B_unborn \<longleftrightarrow> p = B_unborn"
  "woken p = B_exited \<longleftrightarrow> p = B_exited"
  by (simp_all add: woken_def pc_sets)

lemma woken_cs: "in_cs p \<Longrightarrow> woken p = p"
  by (auto simp: woken_def pc_sets)

lemma bar_get_t_num_found:
  assumes "tids t = Some t" "j \<le> t" "t < 7" "\<And>a b. tids a = Some b \<Longrightarrow> a = b"
  shows "get_t_num tids NUM_THREADS j t = Inr t"
  using assms(2)
proof (induction "t - j" arbitrary: j)
  case 0
  then show ?case using assms by (subst get_t_num.simps) (simp add: NUM_THREADS_def)
next
  case (Suc k)
  then have "tids j \<noteq> Some t" "j < 7" "j + 1 \<le> t" using assms(3,4) by fastforce+
  moreover have "get_t_num tids NUM_THREADS (j + 1) t = Inr t" using Suc by simp
  ultimately show ?case by (subst get_t_num.simps) (simp add: NUM_THREADS_def)
qed

lemma holder_simps [simp]:
  "mutex s = None \<Longrightarrow> \<not> holder_at p s"
  "mutex s = Some h \<Longrightarrow> holder_at p s \<longleftrightarrow> at s h = p"
  by (simp_all add: holder_at_def)

text \<open>What the totals say of a single thread.\<close>

lemma count_bounds:
  assumes "counts_ok s" "u < 7"
  shows "inside (at s u) \<Longrightarrow> 1 \<le> inside_barrier_count s" "\<not> inside (at s u) \<Longrightarrow> inside_barrier_count s \<le> 6"
    "in_gate (at s u) \<Longrightarrow> entry_gate_sem s \<le> 6" "\<not> in_gate (at s u) \<Longrightarrow> 0 < entry_gate_sem s"
proof -
  have lt: "(\<Sum>t<7. of_bool (P t) :: int) \<le> 6" if "\<not> P u" for P :: "nat \<Rightarrow> bool"
  proof -
    have "(\<Sum>t<7. of_bool (P t) :: int) \<le> (\<Sum>t<7. if t = u then 0 else 1)"
      using that by (intro sum_mono) auto
    also have "\<dots> = 6" using assms(2)
      using sum_change [of u 7 "\<lambda>t. if t = u then 0 else 1" "\<lambda>_. 1"] by simp
    finally show ?thesis .
  qed
  have ge: "1 \<le> (\<Sum>t<7. of_bool (P t) :: int)" if "P u" for P :: "nat \<Rightarrow> bool"
    using sum_ge_one [of u 7 "\<lambda>t. of_bool (P t)"] that assms(2) by simp
  show "inside (at s u) \<Longrightarrow> 1 \<le> inside_barrier_count s" "\<not> inside (at s u) \<Longrightarrow> inside_barrier_count s \<le> 6"
    "in_gate (at s u) \<Longrightarrow> entry_gate_sem s \<le> 6" "\<not> in_gate (at s u) \<Longrightarrow> 0 < entry_gate_sem s"
    using assms(1) ge [of "\<lambda>t. inside (at s t)"] lt [of "\<lambda>t. inside (at s t)"]
      ge [of "\<lambda>t. in_gate (at s t)"] lt [of "\<lambda>t. in_gate (at s t)"]
    by (auto simp: counts_ok_def)
qed

lemma worker_frame:
  assumes "Worker_thread_func t s = Some s'"
  shows "u \<noteq> t \<Longrightarrow> at s' u = (if at s t = E1_bcast \<or> at s t = X2_bcast then woken (at s u) else at s u)"
    "u \<noteq> t \<Longrightarrow> entered s' u = entered s u \<and> left s' u = left s u \<and> iters s' u = iters s u"
    "Barrier_thread_tid s' = Barrier_thread_tid s" "main_pc s' = main_pc s"
    "barrier_threshold_count s' = barrier_threshold_count s" "at s t \<noteq> B_unborn"
  using assms
  by (cases "at s t"; clarsimp simp: bar_defs split: if_splits option.splits sum.splits)+

lemma worker_own:
  assumes st: "Worker_thread_func t s = Some s'" and ok: "thread_ok s t" and nf: "failed s = None"
    and num: "get_t_num (Barrier_thread_tid s) NUM_THREADS 0 t = Inr t"
    and th: "barrier_threshold_count s = 7" and ub: "inside_barrier_count s \<le> 7"
    and c: "inside (at s t) \<Longrightarrow> 1 \<le> inside_barrier_count s" "\<not> inside (at s t) \<Longrightarrow> inside_barrier_count s \<le> 6"
      "in_gate (at s t) \<Longrightarrow> entry_gate_sem s \<le> 6"
  shows "thread_ok s' t"
    "failed s' = None \<or> failed s' = Some Signed_Overflow \<and> iters s' t = INT_MIN"
    "inside_barrier_count s' - inside_barrier_count s = of_bool (inside (at s' t)) - of_bool (inside (at s t))"
    "int (entry_gate_sem s') - int (entry_gate_sem s) = of_bool (in_gate (at s t)) - of_bool (in_gate (at s' t))"
proof -
  have sm: "in_gate (at s t) \<Longrightarrow> int (entry_gate_sem s) < SEM_VALUE_MAX"
    using c(3) by (simp add: SEM_VALUE_MAX_def)
  have "thread_ok s' t \<and> (failed s' = None \<or> failed s' = Some Signed_Overflow \<and> iters s' t = INT_MIN) \<and>
    inside_barrier_count s' - inside_barrier_count s = of_bool (inside (at s' t)) - of_bool (inside (at s t)) \<and>
    int (entry_gate_sem s') - int (entry_gate_sem s) = of_bool (in_gate (at s t)) - of_bool (in_gate (at s' t))"
    using st ok nf num th c(1,2) sm ub
    by (cases "at s t"; clarsimp simp: bar_defs c_int_def INT_MAX_def NUM_WORKER_ITERS_def INFINITE_ITERS_def
          split: if_splits option.splits;
        auto simp: thread_ok_def pc_sets woken_def INT_MIN_def)
  then show "thread_ok s' t"
    "failed s' = None \<or> failed s' = Some Signed_Overflow \<and> iters s' t = INT_MIN"
    "inside_barrier_count s' - inside_barrier_count s = of_bool (inside (at s' t)) - of_bool (inside (at s t))"
    "int (entry_gate_sem s') - int (entry_gate_sem s) = of_bool (in_gate (at s t)) - of_bool (in_gate (at s' t))"
    by blast+
qed

text \<open>How a step changes what the other threads depend on.\<close>

lemma worker_shared:
  assumes "Worker_thread_func t s = Some s'" "thread_ok s t" "barrier_threshold_count s = 7"
  shows "is_closed s' = (if at s t = E1_close then True else if at s t = X2_open then False else is_closed s)"
    "inside_barrier_count s' = inside_barrier_count s +
       (if at s t = E3_inc then 1 else if at s t = X2_dec \<and> inside_barrier_count s > 0 then -1 else 0)"
    "mutex s' = (if in_cs (at s' t) then Some t else if in_cs (at s t) then None else mutex s)"
    "in_cs (at s' t) \<Longrightarrow> \<not> in_cs (at s t) \<Longrightarrow> mutex s = None"
    "at s t = E1_close \<Longrightarrow> at s' t = E1_bcast" "at s t = X2_open \<Longrightarrow> at s' t = X2_bcast"
    "at s t \<noteq> E1_close \<Longrightarrow> at s' t \<noteq> E1_bcast" "at s t \<noteq> X2_open \<Longrightarrow> at s' t \<noteq> X2_bcast"
    "failed s' = None \<Longrightarrow> at s t = E1_bcast \<Longrightarrow> at s' t = E1_unlock"
  using assms
  by (cases "at s t"; clarsimp simp: bar_defs c_int_def split: if_splits option.splits sum.splits;
      auto simp: thread_ok_def pc_sets woken_def)+

lemma worker_holder:
  assumes st: "Worker_thread_func t s = Some s'" and ok: "\<And>u. thread_ok s u" and th: "barrier_threshold_count s = 7"
    and p: "p = E1_bcast \<or> p = X2_bcast"
  shows "holder_at p s' \<longleftrightarrow> (if in_cs (at s t) \<or> in_cs (at s' t) then at s' t = p else holder_at p s)"
proof -
  note S = worker_shared [OF st ok th]
  have pc: "in_cs p" using p by (auto simp: pc_sets)
  have cs: "in_cs (at s t) \<longleftrightarrow> mutex s = Some t" using ok [of t] by (simp add: thread_ok_def)
  show ?thesis
  proof (cases "in_cs (at s t) \<or> in_cs (at s' t)")
    case True
    show ?thesis
    proof (cases "in_cs (at s' t)")
      case True
      then have "mutex s' = Some t" using S(3) by simp
      then show ?thesis using True by simp
    next
      case False
      then have "mutex s' = None" using S(3) True by simp
      moreover have "at s' t \<noteq> p" using False pc by auto
      ultimately show ?thesis using True by simp
    qed
  next
    case False
    then have m: "mutex s' = mutex s" using S(3) by simp
    show ?thesis
    proof (cases "mutex s")
      case (Some h)
      then have h: "h \<noteq> t" "in_cs (at s h)" using False cs ok [of h] by (auto simp: thread_ok_def)
      then have "at s' h = at s h" using worker_frame(1) [OF st, of h] woken_cs by auto
      then show ?thesis using False m Some by simp
    next
      case None
      then show ?thesis using False m by simp
    qed
  qed
qed

lemma thread_ok_frame:
  assumes "thread_ok s u" "at s' u = at s u" "is_closed s' = is_closed s"
    "inside_barrier_count s' = inside_barrier_count s" "entered s' u = entered s u" "left s' u = left s u"
    "iters s' u = iters s u" "Barrier_thread_tid s' = Barrier_thread_tid s"
    "mutex s' = Some u \<longleftrightarrow> mutex s = Some u"
    "holder_at E1_bcast s \<Longrightarrow> holder_at E1_bcast s'" "holder_at X2_bcast s \<Longrightarrow> holder_at X2_bcast s'"
  shows "thread_ok s' u"
  using assms unfolding thread_ok_def by simp

text \<open>What the invariant asks of a thread outside the critical sections.\<close>

lemma thread_ok_outside:
  assumes "\<not> in_cs (at s u)"
  shows "thread_ok s u \<longleftrightarrow> mutex s \<noteq> Some u \<and> entered s u = left s u + of_bool (inside (at s u)) \<and>
     (at s u = E3_lock \<longrightarrow> is_closed s) \<and> (at s u = X2_lock \<longrightarrow> \<not> is_closed s \<or> inside_barrier_count s = 7) \<and>
     (at s u = E2_blocked \<and> is_closed s \<longrightarrow> holder_at E1_bcast s) \<and>
     (at s u = X1_blocked \<and> \<not> is_closed s \<longrightarrow> holder_at X2_bcast s) \<and>
     (at s u \<noteq> B_unborn \<longrightarrow> u < 7 \<and> Barrier_thread_tid s u = Some u) \<and> at s u \<noteq> B_exited \<and>
     INT_MIN \<le> iters s u \<and> iters s u \<le> 2"
  using assms by (cases "at s u") (simp_all add: thread_ok_def in_cs_def)

lemma woken_free:
  "woken p \<noteq> E2_blocked" "woken p \<noteq> X1_blocked" "woken p = E3_lock \<longleftrightarrow> p = E3_lock" "woken p = X2_lock \<longleftrightarrow> p = X2_lock"
  by (auto simp: woken_def)

lemma worker_other_quiet:
  assumes st: "Worker_thread_func t s = Some s'" and ok: "\<And>u. thread_ok s u" and cnt: "counts_ok s"
    and ut: "u \<noteq> t" and quiet: "at s t \<notin> {E1_close, X2_open, E3_inc, X2_dec, E1_bcast, X2_bcast}"
  shows "thread_ok s' u"
proof -
  have th: "barrier_threshold_count s = 7" using cnt by (simp add: counts_ok_def)
  note S = worker_shared [OF st ok th] and F = worker_frame [OF st] and H = worker_holder [OF st ok th]
  have cs: "in_cs (at s v) \<longleftrightarrow> mutex s = Some v" for v using ok [of v] by (simp add: thread_ok_def)
  have m: "mutex s' = Some u \<longleftrightarrow> mutex s = Some u" using S(3,4) cs [of t] ut by auto
  have fr: "entered s' u = entered s u" "left s' u = left s u" "iters s' u = iters s u"
    "Barrier_thread_tid s' = Barrier_thread_tid s" using F(2,3) ut by simp_all
  have h: "holder_at p s'" if p: "p = E1_bcast \<or> p = X2_bcast" and hp: "holder_at p s" for p
  proof -
    from hp obtain h where h: "mutex s = Some h" "at s h = p" by (auto simp: holder_at_def)
    then have "h \<noteq> t" using quiet p by auto
    then have "\<not> in_cs (at s t)" "\<not> in_cs (at s' t)" using cs [of t] h(1) S(4) by auto
    then show ?thesis using H [OF p] hp by simp
  qed
  have "is_closed s' = is_closed s" "inside_barrier_count s' = inside_barrier_count s" "at s' u = at s u"
    using S(1,2) F(1) ut quiet by simp_all
  then show ?thesis using thread_ok_frame [OF ok [of u], of s'] fr m h by blast
qed

lemma worker_other_changing:
  assumes st: "Worker_thread_func t s = Some s'" and ok: "\<And>u. thread_ok s u" and cnt: "counts_ok s"
    and ut: "u \<noteq> t" and changing: "at s t \<in> {E1_close, X2_open, E3_inc, X2_dec, E1_bcast, X2_bcast}"
  shows "thread_ok s' u"
proof -
  have th: "barrier_threshold_count s = 7" using cnt by (simp add: counts_ok_def)
  note S = worker_shared [OF st ok th] and F = worker_frame [OF st] and H = worker_holder [OF st ok th]
  have cs: "in_cs (at s v) \<longleftrightarrow> mutex s = Some v" for v using ok [of v] by (simp add: thread_ok_def)
  have m: "mutex s' = Some u \<longleftrightarrow> mutex s = Some u" using S(3,4) cs [of t] ut by auto
  have fr: "entered s' u = entered s u" "left s' u = left s u" "iters s' u = iters s u"
    "Barrier_thread_tid s' = Barrier_thread_tid s" using F(2,3) ut by simp_all
  have t: "in_cs (at s t)" "at s t \<noteq> B_unborn" using changing by (auto simp: in_cs_def)
  then have mu: "mutex s = Some t" "\<not> in_cs (at s u)" using cs ut by auto
  have t7: "t < 7" using ok [of t] t(2) by (simp add: thread_ok_def)
  have t_out: "at s t = E3_inc \<Longrightarrow> inside_barrier_count s \<le> 6"
    using count_bounds(2) [OF cnt t7] by (auto simp: inside_def)
  have u_lock: "at s u = E3_lock \<Longrightarrow> inside_barrier_count s \<le> 6" "at s u = X2_lock \<Longrightarrow> 1 \<le> inside_barrier_count s"
  proof -
    have "u < 7" if "at s u \<noteq> B_unborn" using ok [of u] that by (simp add: thread_ok_def)
    then show "at s u = E3_lock \<Longrightarrow> inside_barrier_count s \<le> 6" "at s u = X2_lock \<Longrightarrow> 1 \<le> inside_barrier_count s"
      using count_bounds(1,2) [OF cnt, of u] by (auto simp: inside_def)
  qed
  have T: "at s t = E1_close \<Longrightarrow> inside_barrier_count s = 0" "at s t = X2_open \<Longrightarrow> inside_barrier_count s = 7"
    "at s t = X2_dec \<Longrightarrow> \<not> is_closed s" "at s t = E1_bcast \<Longrightarrow> is_closed s"
    "at s t = X2_bcast \<Longrightarrow> \<not> is_closed s" "at s t = E3_inc \<Longrightarrow> is_closed s"
    using ok [of t] by (simp_all add: thread_ok_def)
  note U = iffD1 [OF thread_ok_outside [OF mu(2)] ok [of u]]
  have at': "at s' u = (if at s t = E1_bcast \<or> at s t = X2_bcast then woken (at s u) else at s u)"
    using F(1) ut by simp
  then have out': "\<not> in_cs (at s' u)" using mu(2) by simp
  have hol: "holder_at E1_bcast s \<longleftrightarrow> at s t = E1_bcast" "holder_at X2_bcast s \<longleftrightarrow> at s t = X2_bcast"
    using mu(1) by simp_all
  have hol': "at s t = E1_close \<Longrightarrow> holder_at E1_bcast s'" "at s t = X2_open \<Longrightarrow> holder_at X2_bcast s'"
    using H t(1) S(5,6) by simp_all
  consider "at s t = E1_close" | "at s t = X2_open" | "at s t = E3_inc" | "at s t = X2_dec"
    | "at s t = E1_bcast" | "at s t = X2_bcast" using changing by blast
  then have "is_closed s' \<or> at s' u \<noteq> E3_lock" "\<not> is_closed s' \<or> inside_barrier_count s' = 7 \<or> at s' u \<noteq> X2_lock"
    "at s' u = E2_blocked \<and> is_closed s' \<longrightarrow> holder_at E1_bcast s'"
    "at s' u = X1_blocked \<and> \<not> is_closed s' \<longrightarrow> holder_at X2_bcast s'"
    using U S(1,2) T at' hol hol' t_out u_lock woken_free [of "at s u"] by (cases; auto)+
  moreover have "inside (at s' u) = inside (at s u)" "at s' u = B_unborn \<longleftrightarrow> at s u = B_unborn"
    "at s' u = B_exited \<longleftrightarrow> at s u = B_exited" using at' by simp_all
  moreover have "mutex s' \<noteq> Some u" using U m by simp
  ultimately show ?thesis unfolding thread_ok_outside [OF out'] fr using U by auto
qed

lemma worker_other:
  assumes st: "Worker_thread_func t s = Some s'" and ok: "\<And>u. thread_ok s u" and cnt: "counts_ok s"
    and ut: "u \<noteq> t"
  shows "thread_ok s' u"
  using worker_other_quiet [OF st ok cnt ut] worker_other_changing [OF st ok cnt ut] by blast

lemma worker_counts:
  assumes st: "Worker_thread_func t s = Some s'" and ok: "\<And>u. thread_ok s u" and cnt: "counts_ok s"
    and nf: "failed s = None" and tids: "\<And>a b. Barrier_thread_tid s a = Some b \<Longrightarrow> a = b"
  shows "counts_ok s'" "thread_ok s' u"
    "failed s' = None \<or> failed s' = Some Signed_Overflow \<and> iters s' t = INT_MIN"
proof -
  note F = worker_frame [OF st]
  have t7: "t < 7" "Barrier_thread_tid s t = Some t" using ok [of t] F(6) by (simp_all add: thread_ok_def)
  have num: "get_t_num (Barrier_thread_tid s) NUM_THREADS 0 t = Inr t"
    using bar_get_t_num_found [where tids = "Barrier_thread_tid s" and t = t and j = 0] t7 tids by auto
  have th: "barrier_threshold_count s = 7" using cnt by (simp add: counts_ok_def)
  have "(\<Sum>t<7. of_bool (inside (at s t)) :: int) \<le> (\<Sum>t<(7::nat). 1)" for s :: bar_state by (intro sum_mono) simp
  then have ub: "inside_barrier_count s \<le> 7" using cnt by (simp add: counts_ok_def)
  note W = worker_own [OF st ok nf num th ub count_bounds(1-3) [OF cnt t7(1)]]
  show "failed s' = None \<or> failed s' = Some Signed_Overflow \<and> iters s' t = INT_MIN" by (rule W(2))
  show "thread_ok s' u"
  proof (cases "u = t")
    case False
    then show ?thesis using worker_other [OF st ok cnt] by blast
  qed (use W(1) in simp)
  have "(\<Sum>u<7. of_bool (inside (at s' u)) :: int) =
      (\<Sum>u<7. of_bool (inside (at s u))) - of_bool (inside (at s t)) + of_bool (inside (at s' t))"
    using F(1) by (intro sum_change [OF t7(1)]) simp
  moreover have "(\<Sum>u<7. of_bool (in_gate (at s' u)) :: int) =
      (\<Sum>u<7. of_bool (in_gate (at s u))) - of_bool (in_gate (at s t)) + of_bool (in_gate (at s' t))"
    using F(1) by (intro sum_change [OF t7(1)]) simp
  ultimately show "counts_ok s'" using cnt W(3,4) F(5) unfolding counts_ok_def by linarith
qed

lemma all_inside:
  assumes "counts_ok s" "inside_barrier_count s = 7" "u < 7"
  shows "inside (at s u)"
  using count_bounds(2) [OF assms(1,3)] assms(2) by fastforce

lemma none_inside:
  assumes "counts_ok s" "inside_barrier_count s = 0" "u < 7"
  shows "\<not> inside (at s u)"
  using count_bounds(1) [OF assms(1,3)] assms(2) by fastforce

lemma worker_hist:
  assumes "Worker_thread_func t s = Some s'"
  shows "at s t \<noteq> E3_inc \<Longrightarrow> entered s' t = entered s t"
    "at s t = X2_dec \<and> \<not> is_closed s \<or> left s' t = left s t"
  using assms by (cases "at s t"; clarsimp simp: bar_defs split: if_splits option.splits sum.splits)+

lemma agreeD: "agree f \<Longrightarrow> t < 7 \<Longrightarrow> u < 7 \<Longrightarrow> f t = f u"
  unfolding agree_def by blast

lemma agree_shift: "(\<And>u. u < 7 \<Longrightarrow> f u = g u + k) \<Longrightarrow> agree f \<longleftrightarrow> agree g"
  by (simp add: agree_def)

lemma worker_rounds:
  assumes st: "Worker_thread_func t s = Some s'" and ok: "\<And>u. thread_ok s u" and cnt: "counts_ok s"
    and r: "rounds_ok s"
  shows "rounds_ok s'"
proof -
  have th: "barrier_threshold_count s = 7" using cnt by (simp add: counts_ok_def)
  note C = worker_shared(1) [OF st ok th] and F = worker_frame(2) [OF st] and W = worker_hist [OF st]
  have T: "at s t = E1_close \<Longrightarrow> inside_barrier_count s = 0" "at s t = X2_open \<Longrightarrow> inside_barrier_count s = 7"
    "at s t = E3_inc \<Longrightarrow> is_closed s" using ok [of t] by (simp_all add: thread_ok_def)
  have E: "entered s u = left s u + of_bool (inside (at s u))" for u using ok [of u] by (simp add: thread_ok_def)
  have eq: "entered s' u = entered s u" if "at s t \<noteq> E3_inc" for u using F [of u] W(1) that by (cases "u = t") auto
  have lq: "left s' u = left s u" if "\<not> (at s t = X2_dec \<and> \<not> is_closed s)" for u
    using F [of u] W(2) that by (cases "u = t") auto
  have a: "agree (left s) \<or> agree (entered s)" using r by (auto simp: rounds_ok_def split: if_splits)
  consider (close) "at s t = E1_close" | (op) "at s t = X2_open" | (other) "at s t \<noteq> E1_close" "at s t \<noteq> X2_open" by blast
  then show ?thesis
  proof cases
    case close
    have "entered s u = left s u + 0" if "u < 7" for u
      using E [of u] none_inside [OF cnt T(1) [OF close] that] by simp
    then have "agree (left s)" using a agree_shift [of "entered s" "left s" 0] by blast
    moreover have "left s' = left s" using lq close by fastforce
    ultimately show ?thesis using C close by (simp add: rounds_ok_def)
  next
    case op
    have "entered s u = left s u + 1" if "u < 7" for u
      using E [of u] all_inside [OF cnt T(2) [OF op] that] by simp
    then have "agree (entered s)" using a agree_shift [of "entered s" "left s" 1] by blast
    moreover have "entered s' = entered s" using eq op by fastforce
    ultimately show ?thesis using C op by (simp add: rounds_ok_def)
  next
    case other
    then have c: "is_closed s' = is_closed s" using C by simp
    show ?thesis
    proof (cases "is_closed s")
      case True
      then have "left s' = left s" using lq by fastforce
      then show ?thesis using r c True by (simp add: rounds_ok_def)
    next
      case False
      then have "entered s' = entered s" using eq T(3) by fastforce
      then show ?thesis using r c False by (simp add: rounds_ok_def)
    qed
  qed
qed

lemma worker_next:
  assumes "Worker_thread_func t s = Some s'" "thread_ok s t" "barrier_threshold_count s = 7"
  shows "at s' t = X1_blocked \<Longrightarrow> at s t = X1_wait" "at s t = X2_dec \<Longrightarrow> at s' t = X2_unlock"
    "at s t = E3_inc \<Longrightarrow> at s' t = E3_unlock"
    "failed s' = None \<Longrightarrow> before_check (at s t) \<Longrightarrow> inside_barrier_count s = 0 \<Longrightarrow> at s t \<noteq> E1_close \<Longrightarrow> before_check (at s' t)"
  using assms
  by (cases "at s t"; clarsimp simp: bar_defs before_check_def INFINITE_ITERS_def split: if_splits option.splits sum.splits)+

lemma worker_live:
  assumes st: "Worker_thread_func t s = Some s'" and ok: "\<And>u. thread_ok s u" and cnt: "counts_ok s"
    and l: "live_ok s" and nf: "failed s' = None"
  shows "live_ok s'"
proof -
  have th: "barrier_threshold_count s = 7" using cnt by (simp add: counts_ok_def)
  note S = worker_shared [OF st ok th] and F = worker_frame [OF st] and X = worker_next [OF st ok th]
  have t7: "t < 7" using ok [of t] F(6) by (simp add: thread_ok_def)
  have T: "at s t = E1_close \<Longrightarrow> inside_barrier_count s = 0" "at s t = X2_open \<Longrightarrow> inside_barrier_count s = 7"
    "at s t = X1_wait \<Longrightarrow> inside_barrier_count s < 7" using ok [of t] by (simp_all add: thread_ok_def)
  have "\<exists>u<7. at s' u \<noteq> X1_blocked" if "is_closed s'" "inside_barrier_count s' = 7"
  proof (cases "at s' t = X1_blocked")
    case True
    then have "at s t = X1_wait" using X(1) by blast
    then have "inside_barrier_count s' < 7" using S(2) T(3) by simp
    then show ?thesis using that by simp
  qed (use t7 in blast)
  moreover have "\<exists>u<7. before_check (at s' u)" if z: "\<not> is_closed s'" "inside_barrier_count s' = 0"
  proof (cases "at s t = X2_dec \<or> at s t = E3_inc")
    case True
    have "0 \<le> inside_barrier_count s" using cnt by (simp add: counts_ok_def sum_nonneg)
    then have "at s' t = X2_unlock" using True X(2) S(2) z(2) by auto
    then show ?thesis using t7 by (auto simp: before_check_def)
  next
    case False
    then have c0: "inside_barrier_count s = 0" using S(2) z(2) by simp
    have no: "at s t \<noteq> E1_close" "at s t \<noteq> X2_open" using S(1) z(1) T(2) c0 by auto
    then have "\<not> is_closed s" using S(1) z(1) by simp
    then obtain u where u: "u < 7" "before_check (at s u)" using l c0 by (auto simp: live_ok_def)
    have "before_check (at s' u)"
    proof (cases "u = t")
      case True
      then show ?thesis using X(4) [OF nf _ c0 no(1)] u(2) by simp
    next
      case False
      then show ?thesis using F(1) [of u] u(2) by simp
    qed
    then show ?thesis using u(1) by blast
  qed
  ultimately show ?thesis by (simp add: live_ok_def)
qed

definition bar_inv :: "bar_state \<Rightarrow> bool" where
  "bar_inv s \<longleftrightarrow> (\<forall>a b. Barrier_thread_tid s a = Some b \<longrightarrow> a = b) \<and>
     (failed s = None \<or> failed s = Some Signed_Overflow \<and> (\<exists>t. iters s t = INT_MIN)) \<and>
     (\<forall>t. thread_ok s t) \<and>
     (case main_pc s of
        BM_init \<Rightarrow> (\<forall>t. at s t = B_unborn \<and> entered s t = 0 \<and> left s t = 0)
      | BM_create j \<Rightarrow> j \<le> 7 \<and> (\<forall>t. at s t = B_unborn \<longleftrightarrow> j \<le> t)
      | BM_join j \<Rightarrow> j = 0 \<and> (\<forall>t<7. at s t \<noteq> B_unborn)
      | _ \<Rightarrow> False) \<and>
     (main_pc s \<noteq> BM_init \<longrightarrow> counts_ok s \<and> rounds_ok s \<and> (failed s = None \<longrightarrow> live_ok s))"

lemma bar_inv_parts:
  assumes "bar_inv s"
  shows "Barrier_thread_tid s a = Some b \<Longrightarrow> a = b" "thread_ok s t"
    "at s t \<noteq> B_unborn \<Longrightarrow> main_pc s \<noteq> BM_init"
    "main_pc s \<noteq> BM_init \<Longrightarrow> counts_ok s" "main_pc s \<noteq> BM_init \<Longrightarrow> rounds_ok s"
    "main_pc s \<noteq> BM_init \<Longrightarrow> failed s = None \<Longrightarrow> live_ok s"
  using assms by (auto simp: bar_inv_def split: bar_main_pc.splits)

lemma bar_worker_inv:
  assumes inv: "bar_inv s" and st: "Worker_thread_func t s = Some s'" and nf: "failed s = None"
  shows "bar_inv s'"
proof -
  note P = bar_inv_parts [OF inv] and F = worker_frame [OF st]
  have m: "main_pc s \<noteq> BM_init" using P(3) F(6) by blast
  note W = worker_counts [OF st P(2) P(4) [OF m] nf P(1)]
  have own: "at s' t \<noteq> B_unborn"
    using st by (cases "at s t"; clarsimp simp: bar_defs woken_def split: if_splits option.splits sum.splits)
  have "at s' u = B_unborn \<longleftrightarrow> at s u = B_unborn" for u
    using F(1) [of u] F(6) own by (cases "u = t") auto
  moreover have "rounds_ok s'" by (rule worker_rounds [OF st P(2) P(4) [OF m] P(5) [OF m]])
  moreover have "failed s' = None \<Longrightarrow> live_ok s'"
    by (rule worker_live [OF st P(2) P(4) [OF m] P(6) [OF m nf]])
  ultimately show ?thesis using inv W F(3,4) m unfolding bar_inv_def
    by (cases "main_pc s") auto
qed

lemma spurious_thread_ok:
  assumes ok: "\<And>u. thread_ok s u" and b: "at s t = E2_blocked \<or> at s t = X1_blocked"
  shows "thread_ok (goto t (woken (at s t)) s) u"
proof -
  let ?s = "goto t (woken (at s t)) s"
  have fr: "at ?s v = (if v = t then woken (at s t) else at s v)" "mutex ?s = mutex s" "is_closed ?s = is_closed s"
    "inside_barrier_count ?s = inside_barrier_count s" "entered ?s = entered s" "left ?s = left s"
    "iters ?s = iters s" "Barrier_thread_tid ?s = Barrier_thread_tid s" for v
    by (simp_all add: goto_def)
  have o1: "\<not> in_cs (at s t)" using b by (auto simp: pc_sets)
  then have mt: "mutex s \<noteq> Some t" using ok [of t] by (simp add: thread_ok_def)
  have h: "holder_at p ?s \<longleftrightarrow> holder_at p s" for p
  proof (cases "mutex s")
    case (Some h)
    then have "h \<noteq> t" using mt by auto
    then have "at ?s h = at s h" "mutex ?s = Some h" using Some fr(1,2) by simp_all
    then show ?thesis using holder_simps(2) [OF Some] holder_simps(2) [of ?s h] by simp
  next
    case None
    then have "mutex ?s = None" using fr(2) by simp
    then show ?thesis using holder_simps(1) None by blast
  qed
  show ?thesis
  proof (cases "u = t")
    case False
    then have "at ?s u = at s u" using fr(1) by simp
    then show ?thesis by (rule thread_ok_frame [OF ok]) (simp_all only: fr(2-8) h)
  next
    case True
    have o: "\<not> in_cs (at s t)" "\<not> in_cs (at ?s t)" using o1 fr(1) [of t] by simp_all
    note U = iffD1 [OF thread_ok_outside [OF o(1)] ok [of t]]
    have "at ?s t = woken (at s t)" using fr(1) by simp
    then have "inside (at ?s t) = inside (at s t)" "at ?s t \<noteq> E3_lock" "at ?s t \<noteq> X2_lock" "at ?s t \<noteq> E2_blocked"
      "at ?s t \<noteq> X1_blocked" "at ?s t \<noteq> B_exited" "t < 7" "Barrier_thread_tid s t = Some t"
      using woken_free [of "at s t"] b U by auto
    then show ?thesis unfolding True thread_ok_outside [OF o(2)] fr(2-8) h using U by simp
  qed
qed

lemma bar_spurious_inv:
  assumes inv: "bar_inv s" and b: "at s t = E2_blocked \<or> at s t = X1_blocked" and nf: "failed s = None"
  shows "bar_inv (goto t (woken (at s t)) s)"
proof -
  note P = bar_inv_parts [OF inv]
  let ?s = "goto t (woken (at s t)) s"
  have ok: "thread_ok ?s u" for u using spurious_thread_ok [OF P(2) b] .
  have m: "main_pc s \<noteq> BM_init" using P(3) [of t] b by auto
  have i: "inside (at ?s u) = inside (at s u)" "in_gate (at ?s u) = in_gate (at s u)"
    "before_check (at ?s u) = before_check (at s u)" "at ?s u = B_unborn \<longleftrightarrow> at s u = B_unborn" for u
    by (auto simp: goto_def)
  have fr: "is_closed ?s = is_closed s" "inside_barrier_count ?s = inside_barrier_count s" "left ?s = left s"
    "entered ?s = entered s" "entry_gate_sem ?s = entry_gate_sem s"
    "barrier_threshold_count ?s = barrier_threshold_count s" by (simp_all add: goto_def)
  have "counts_ok ?s" using P(4) [OF m] unfolding counts_ok_def i fr .
  moreover have "rounds_ok ?s" using P(5) [OF m] unfolding rounds_ok_def fr .
  moreover have t: "at ?s t \<noteq> X1_blocked" using woken_free(2) by (simp add: goto_def)
  have "at s t \<noteq> B_unborn" using b by auto
  then have "t < 7" using P(2) [of t] by (simp add: thread_ok_def)
  with t have "\<exists>u<7. at ?s u \<noteq> X1_blocked" by blast
  then have "live_ok ?s" using P(6) [OF m nf] unfolding live_ok_def i fr by simp
  moreover have "main_pc ?s = main_pc s" "failed ?s = None" "Barrier_thread_tid ?s = Barrier_thread_tid s"
    using nf by (simp_all add: goto_def)
  moreover have "\<forall>u. thread_ok ?s u" using ok by blast
  ultimately show ?thesis using inv m unfolding bar_inv_def i(4) fr by (cases "main_pc s") simp_all
qed

lemma bar_inv_createI:
  assumes "\<And>a b. Barrier_thread_tid s a = Some b \<Longrightarrow> a = b" "failed s = None" "\<And>t. thread_ok s t"
    "main_pc s = BM_create j" "j \<le> 7" "\<And>t. at s t = B_unborn \<longleftrightarrow> j \<le> t" "counts_ok s" "rounds_ok s" "live_ok s"
  shows "bar_inv s"
  using assms by (simp add: bar_inv_def)

lemma thread_ok_unborn:
  assumes "at s t = B_unborn" "mutex s \<noteq> Some t" "entered s t = left s t" "INT_MIN \<le> iters s t" "iters s t \<le> 2"
  shows "thread_ok s t"
  using assms by (simp add: thread_ok_def pc_sets)

lemma bar_main_init_inv:
  assumes inv: "bar_inv s" and at_pc: "main_pc s = BM_init" and st: "bar_main True no_error s = Some s'"
    and nf: "failed s = None"
  shows "bar_inv s'"
proof -
  let ?s = "s\<lparr>is_closed := True, inside_barrier_count := 0, barrier_threshold_count := 7,
       mutex := None, entry_gate_sem := 7, main_pc := BM_create 0\<rparr>"
  have u: "at s t = B_unborn" "entered s t = 0" "left s t = 0" for t using inv at_pc by (simp_all add: bar_inv_def)
  have s': "s' = ?s" using st at_pc by (auto simp: bar_main_def init_def NUM_THREADS_def)
  have it: "INT_MIN \<le> iters s t" "iters s t \<le> 2" for t
    using bar_inv_parts(2) [OF inv, of t] by (simp_all add: thread_ok_def)
  have "bar_inv ?s"
  proof (rule bar_inv_createI [of _ 0])
    show "Barrier_thread_tid ?s a = Some b \<Longrightarrow> a = b" for a b using bar_inv_parts(1) [OF inv] by simp
    show "failed ?s = None" using nf by simp
    show "thread_ok ?s t" for t by (rule thread_ok_unborn) (use u it in simp_all)
    show "counts_ok ?s" using u by (simp add: counts_ok_def pc_sets)
    show "rounds_ok ?s" using u by (simp add: rounds_ok_def agree_def)
  qed (use u in \<open>simp_all add: live_ok_def\<close>)
  then show ?thesis by (simp only: s')
qed

lemma bar_main_create_inv:
  assumes inv: "bar_inv s" and at_pc: "main_pc s = BM_create j" and less: "j < 7"
    and st: "bar_main True no_error s = Some s'" and nf: "failed s = None"
  shows "bar_inv s'"
proof -
  note P = bar_inv_parts [OF inv]
  have m: "main_pc s \<noteq> BM_init" using at_pc by simp
  have j: "j \<le> 7" "at s t = B_unborn \<longleftrightarrow> j \<le> t" for t using inv at_pc by (simp_all add: bar_inv_def)
  let ?s = "s\<lparr>Barrier_thread_tid := (Barrier_thread_tid s)(j := Some j), at := (at s)(j := B_num),
            main_pc := BM_create (j + 1)\<rparr>"
  have s': "s' = ?s" using st at_pc less by (simp add: bar_main_def NUM_THREADS_def)
  have u: "at s j = B_unborn" using j(2) by simp
  have mj: "mutex s \<noteq> Some j" using P(2) [of j] u by (simp add: thread_ok_def pc_sets)
  have i: "inside (at ?s t) = inside (at s t)" "in_gate (at ?s t) = in_gate (at s t)"
    "before_check (at ?s t) = before_check (at s t)" "at ?s t = X1_blocked \<longleftrightarrow> at s t = X1_blocked" for t
    using u by (simp_all add: pc_sets)
  have h: "holder_at p ?s \<longleftrightarrow> holder_at p s" for p
    using mj by (auto simp: holder_at_def)
  have "bar_inv ?s"
  proof (rule bar_inv_createI [of _ "j + 1"])
    show "Barrier_thread_tid ?s a = Some b \<Longrightarrow> a = b" for a b using P(1) by (auto split: if_splits)
    show "failed ?s = None" using nf by simp
    show "thread_ok ?s t" for t
    proof (cases "t = j")
      case False
      then show ?thesis using P(2) [of t] h by (simp add: thread_ok_def)
    next
      case eq: True
      have "entered s j = left s j" "INT_MIN \<le> iters s j" "iters s j \<le> 2"
        using P(2) [of j] u by (simp_all add: thread_ok_def inside_def)
      then show ?thesis using mj less eq by (simp add: thread_ok_def pc_sets)
    qed
    show "at ?s t = B_unborn \<longleftrightarrow> j + 1 \<le> t" for t using j(2) [of t] by auto
    show "counts_ok ?s" using P(4) [OF m] i unfolding counts_ok_def by simp
    show "rounds_ok ?s" using P(5) [OF m] by (cases "is_closed s") (simp_all add: rounds_ok_def)
    show "live_ok ?s" using P(6) [OF m nf] i unfolding live_ok_def by simp
  qed (use less in simp_all)
  then show ?thesis by (simp only: s')
qed

lemma bar_main_inv:
  assumes inv: "bar_inv s" and st: "bar_main True no_error s = Some s'" and nf: "failed s = None"
  shows "bar_inv s'"
proof (cases "main_pc s")
  case BM_init
  then show ?thesis using bar_main_init_inv [OF inv _ st nf] by blast
next
  case (BM_create j)
  note P = bar_inv_parts [OF inv]
  have m: "main_pc s \<noteq> BM_init" using BM_create by simp
  have j: "j \<le> 7" "at s t = B_unborn \<longleftrightarrow> j \<le> t" for t using inv BM_create by (simp_all add: bar_inv_def)
  show ?thesis
  proof (cases "j < 7")
    case True
    then show ?thesis using bar_main_create_inv [OF inv BM_create _ st nf] by blast
  next
    case False
    then have s': "s' = s\<lparr>main_pc := BM_join 0\<rparr>"
      using st BM_create by (simp add: bar_main_def NUM_THREADS_def)
    have "at s t \<noteq> B_unborn" if "t < 7" for t using j(2) [of t] False that by simp
    moreover have "thread_ok s' t" for t using P(2) [of t] unfolding s' by (simp add: thread_ok_def holder_at_def)
    moreover have "counts_ok s'" using P(4) [OF m] unfolding s' counts_ok_def by simp
    moreover have "rounds_ok s'" using P(5) [OF m] unfolding s' rounds_ok_def by (cases "is_closed s") simp_all
    moreover have "live_ok s'" using P(6) [OF m nf] unfolding s' live_ok_def by simp
    ultimately show ?thesis using P(1) nf unfolding s' bar_inv_def by auto
  qed
next
  case (BM_join j)
  then have "j = 0" "at s 0 \<noteq> B_exited" using inv bar_inv_parts(2) [OF inv, of 0] by (simp_all add: bar_inv_def thread_ok_def)
  then show ?thesis using st BM_join by (simp add: bar_main_def NUM_THREADS_def)
qed (use inv in \<open>simp_all add: bar_inv_def\<close>)

interpretation bar: invariant_system "bar_step True no_error" bar_init bar_inv
proof unfold_locales
  have "thread_ok bar_init t" for t by (rule thread_ok_unborn) (simp_all add: bar_init_def INT_MIN_def)
  then show "bar_inv bar_init" by (simp add: bar_inv_def) (simp add: bar_init_def)
  fix s e s'
  assume inv: "bar_inv s" and st: "bar_step True no_error e s = Some s'"
  then have nf: "failed s = None" by (cases e) (simp_all split: if_splits)
  show "bar_inv s'"
  proof (cases e)
    case Main
    with st nf show ?thesis using bar_main_inv [OF inv _ nf] by simp
  next
    case (Worker t)
    with st nf show ?thesis using bar_worker_inv [OF inv _ nf] by simp
  next
    case (Spurious t)
    with st nf show ?thesis using bar_spurious_inv [OF inv _ nf, of t] by (auto split: if_splits)
  qed
qed

text \<open>When an initialisation fails, the program stops before a worker exists.\<close>

interpretation bar_start: initialised_system "bar_step sf" bar_init init_lines
    "\<lambda>e s. s = bar_init\<lparr>failed := Some e\<rparr>" for sf
proof unfold_locales
  show "bar_step sf rc = bar_step sf no_error" if "checked_calls rc 0 init_lines = Inr ()" for rc
  proof (intro ext)
    have "init rc = init no_error" using that by (intro ext) (simp add: init_def)
    then show "bar_step sf rc e s = bar_step sf no_error e s" for e s
      by (cases e) (simp_all add: bar_main_def split: bar_main_pc.split)
  qed
  show "s = bar_init\<lparr>failed := Some e\<rparr>"
    if "checked_calls rc 0 init_lines = Inl e" "bar_step sf rc ev bar_init = Some s" for rc e ev s
    using that by (cases ev) (auto simp: bar_main_def init_def bar_init_def fail_def NUM_THREADS_def Worker_thread_func_def)
  show "bar_step sf rc ev s = None" if "s = bar_init\<lparr>failed := Some e\<rparr>" for e s rc ev
    using that by (cases ev) simp_all
qed

section \<open>Identifiers that are stored late\<close>

text \<open>The state with the identifier stored that \<open>pthread_create\<close> has still to store.\<close>

definition stored :: "bar_state \<Rightarrow> bar_state" where
  "stored s = (case main_pc s of
     BM_created j \<Rightarrow> s\<lparr>Barrier_thread_tid := [j \<mapsto> j] ++ Barrier_thread_tid s, main_pc := BM_create (j + 1)\<rparr>
   | _ \<Rightarrow> s)"

lemma bar_stored_simps [simp]:
  "at (stored s) = at s" "mutex (stored s) = mutex s" "failed (stored s) = failed s" "iters (stored s) = iters s"
  "entered (stored s) = entered s" "left (stored s) = left s" "is_closed (stored s) = is_closed s"
  "main_pc (stored s) = BM_init \<longleftrightarrow> main_pc s = BM_init"
  by (simp_all add: stored_def split: bar_main_pc.split)

lemma bar_fail_fields [simp]:
  "at (fail a s) = at s" "entered (fail a s) = entered s" "left (fail a s) = left s" "main_pc (fail a s) = main_pc s"
  "failed (fail a s) = Some a"
  by (simp_all add: fail_def)

text \<open>Apart from \<open>get_t_num\<close> a worker neither reads nor changes what \<open>main\<close> keeps.\<close>

lemma worker_ignores_main:
  assumes "at s t \<noteq> B_num"
  shows "Worker_thread_func t (s\<lparr>Barrier_thread_tid := T, main_pc := p\<rparr>) =
    map_option (\<lambda>s'. s'\<lparr>Barrier_thread_tid := T, main_pc := p\<rparr>) (Worker_thread_func t s)"
  using assms
  by (cases "at s t") (auto simp: bar_defs map_option_case split: option.splits sum.splits)

lemma bar_get_t_num_result:
  "0 < m \<Longrightarrow> case get_t_num tids m j t of Inr k \<Rightarrow> tids k = Some t | Inl e \<Rightarrow> e = Assertion 91"
  by (induction tids m j t rule: get_t_num.induct) (subst get_t_num.simps, simp)

lemma bar_stored_own_tids:
  assumes "bar_inv (stored s)"
  shows "Barrier_thread_tid s a = Some b \<Longrightarrow> a = b" "[j \<mapsto> j] ++ Barrier_thread_tid s = (Barrier_thread_tid s)(j \<mapsto> j)"
proof -
  show own: "Barrier_thread_tid s a = Some b \<Longrightarrow> a = b" for a b
    using bar_inv_parts(1) [OF assms, of a b] by (cases "main_pc s") (simp_all add: stored_def)
  show "[j \<mapsto> j] ++ Barrier_thread_tid s = (Barrier_thread_tid s)(j \<mapsto> j)"
    using own by (auto simp: fun_eq_iff map_add_def split: option.split)
qed

text \<open>A worker that has been started before its identifier is stored does not find itself.\<close>

definition lost :: "bar_state \<Rightarrow> bar_state \<Rightarrow> bool" where
  "lost s s' \<longleftrightarrow> s' = fail (Assertion 91) s \<and> (\<exists>j. main_pc s = BM_created j \<and> at s j = B_num)"

lemma worker_late:
  assumes inv: "bar_inv (stored s)" and st: "Worker_thread_func t s = Some s'"
  shows "lost s s' \<or> Worker_thread_func t (stored s) = Some (stored s')"
proof (cases "at s t = B_num")
  case False
  have "main_pc s' = main_pc s \<and> Barrier_thread_tid s' = Barrier_thread_tid s" using st
    by (cases "at s t"; clarsimp simp: bar_defs split: if_splits option.splits sum.splits)
  then show ?thesis using worker_ignores_main [OF False] st by (simp add: stored_def split: bar_main_pc.split)
next
  case True
  note P = bar_inv_parts [OF inv]
  have t: "t < 7" "Barrier_thread_tid (stored s) t = Some t" using P(2) [of t] True by (simp_all add: thread_ok_def)
  have found: "get_t_num (Barrier_thread_tid (stored s)) NUM_THREADS 0 t = Inr t"
    using bar_get_t_num_found [of "Barrier_thread_tid (stored s)" t 0] t P(1) by blast
  show ?thesis
  proof (cases "get_t_num (Barrier_thread_tid s) NUM_THREADS 0 t")
    case (Inr k)
    with st True found show ?thesis
      by (auto simp: bar_defs stored_def split: bar_main_pc.splits)
  next
    case (Inl e)
    then have "Barrier_thread_tid s t \<noteq> Some t"
      using bar_get_t_num_found [of "Barrier_thread_tid s" t 0] t(1) bar_stored_own_tids(1) [OF inv] by auto
    then have "main_pc s = BM_created t" using t(2) by (cases "main_pc s") (auto simp: stored_def map_add_def split: option.splits if_splits)
    with Inl bar_get_t_num_result [of NUM_THREADS "Barrier_thread_tid s" t 0] st True show ?thesis
      by (simp add: bar_defs NUM_THREADS_def lost_def)
  qed
qed

lemma bar_main_late:
  assumes inv: "bar_inv (stored s)" and st: "bar_main False no_error s = Some s'"
  shows "stored s' = stored s \<or> bar_main True no_error (stored s) = Some (stored s')"
  using st bar_stored_own_tids(2) [OF inv]
  by (cases "main_pc s") (auto simp: bar_main_def init_def cleanup_state_def fail_def NUM_THREADS_def stored_def split: if_splits)

interpretation bar_late: late_identifiers "\<lambda>sf. bar_step sf no_error" bar_init bar_inv stored lost
proof unfold_locales
  show "stored bar_init = bar_init" by (simp add: stored_def bar_init_def)
  show "bar_step False no_error e s = None" if "lost r s" for e r s using that by (cases e) (auto simp: lost_def)
  fix s e s'
  assume inv: "bar_inv (stored s)" and st: "bar_step False no_error e s = Some s'"
  then have nf: "failed s = None" by (cases e) (simp_all split: if_splits)
  have "stored (goto t p s) = goto t p (stored s)" for t p by (simp add: stored_def goto_def split: bar_main_pc.split)
  then have "lost s s' \<or> stored s' = stored s \<or> bar_step True no_error e (stored s) = Some (stored s')"
    using st nf bar_main_late [OF inv, of s'] worker_late [OF inv, of _ s'] by (cases e) (auto split: if_splits)
  then show "lost s s' \<or> reachable (bar_step True no_error) (stored s) (stored s')"
    using reachable.start reachable.move [OF reachable.start] by metis
qed

lemma bar_inv_stored: "bar_inv s \<Longrightarrow> stored s = s"
  by (simp add: bar_inv_def stored_def split: bar_main_pc.splits)

text \<open>
  A reachable state of the program, in either order and for all return codes: it satisfies the invariant,
  up to the identifier that is still to be stored, or the assertion of \<open>get_t_num\<close> has failed in such a
  state, or an initialisation has failed.
\<close>

lemma bar_reachable:
  assumes "reachable (bar_step sf rc) bar_init s"
  obtains (runs) "bar_inv (stored s)" "s = bar_init \<or> bar_step sf rc = bar_step sf no_error"
  | (lost) r where "\<not> sf" "lost r s" "bar_inv (stored r)"
  | (fails) a where "init rc (int NUM_THREADS) bar_init = Inl a" "s = bar_init\<lparr>failed := Some a\<rparr>"
proof -
  consider (ok) "reachable (bar_step sf no_error) bar_init s" "s = bar_init \<or> bar_step sf rc = bar_step sf no_error"
    | (bad) a where "checked_calls rc 0 init_lines = Inl a" "s = bar_init\<lparr>failed := Some a\<rparr>"
    using bar_start.reachable_cases [OF assms] by blast
  then show thesis
  proof cases
    case ok
    from ok(1) show thesis
      by (cases rule: bar_late.reachable_order) (use ok(2) that(1,2) bar_inv_stored in auto)
  qed (simp add: fails init_def NUM_THREADS_def)
qed

section \<open>Progress\<close>

lemma worker_moves:
  assumes "thread_ok s t" "at s t \<noteq> B_unborn" "in_cs (at s t) \<or> mutex s = None"
    "at s t \<noteq> E2_blocked" "at s t \<noteq> X1_blocked" "at s t = B_turn \<Longrightarrow> 0 < entry_gate_sem s"
  shows "\<exists>s'. Worker_thread_func t s = Some s'"
proof -
  have "at s t \<noteq> B_exited" using assms(1) by (simp add: thread_ok_def)
  then show ?thesis using assms(2-6)
    by (cases "at s t") (simp_all add: bar_defs in_cs_def split: option.splits)
qed

lemma bar_progress:
  assumes inv: "bar_inv s" and nf: "failed s = None"
  shows "(\<exists>s'. bar_step sf rc Main s = Some s') \<or> (\<exists>t s'. bar_step sf rc (Worker t) s = Some s')"
proof (cases "\<exists>j. main_pc s = BM_join j")
  case False
  then show ?thesis using inv nf by (cases "main_pc s") (auto simp: bar_inv_def bar_main_def)
next
  case True
  note P = bar_inv_parts [OF inv]
  have m: "main_pc s \<noteq> BM_init" and born: "\<And>t. t < 7 \<Longrightarrow> at s t \<noteq> B_unborn"
    using True inv by (auto simp: bar_inv_def)
  note cnt = P(4) [OF m] and live = P(6) [OF m nf]
  have go: ?thesis if "\<exists>s'. Worker_thread_func t s = Some s'" for t using that nf by auto
  show ?thesis
  proof (cases "mutex s")
    case (Some h)
    then have "in_cs (at s h)" using P(2) [of h] by (simp add: thread_ok_def)
    then show ?thesis by (intro go [of h] worker_moves P(2)) (auto simp: in_cs_def)
  next
    case None
    have h: "\<not> holder_at p s" for p using None by simp
    show ?thesis
    proof (rule ccontr)
      assume stuck: "\<not> ?thesis"
      have blocked: "at s t = E2_blocked \<and> \<not> is_closed s \<or> at s t = X1_blocked \<and> is_closed s" if "t < 7" for t
      proof -
        have "at s t = B_turn \<Longrightarrow> 0 < entry_gate_sem s"
          using count_bounds(4) [OF cnt that] by (simp add: in_gate_def)
        then have "at s t = E2_blocked \<or> at s t = X1_blocked"
          using worker_moves [OF P(2) born [OF that]] None stuck go [of t] by blast
        then show ?thesis using P(2) [of t] h by (auto simp: thread_ok_def)
      qed
      show False
      proof (cases "is_closed s")
        case True
        then have all: "at s t = X1_blocked" if "t < 7" for t using blocked [OF that] by simp
        then have "inside_barrier_count s = 7" using cnt by (simp add: counts_ok_def inside_def)
        then show False using live True all by (auto simp: live_ok_def)
      next
        case False
        then have all: "at s t = E2_blocked" if "t < 7" for t using blocked [OF that] by simp
        then have "inside_barrier_count s = 0" using cnt by (simp add: counts_ok_def inside_def)
        then show False using live False all by (auto simp: live_ok_def before_check_def)
      qed
    qed
  qed
qed

section \<open>Properties\<close>

text \<open>A schedule in which thread 0 is inside the barrier and blocked at the second wall.\<close>

definition at_first_wall :: "bar_event list" where
  "at_first_wall = replicate 9 Main @ replicate 5 (Worker 0)"

lemma at_first_wall_run:
  "map_option (\<lambda>s. (main_pc s, at s 0, mutex s, is_closed s, inside_barrier_count s, barrier_threshold_count s,
       entered s 0, failed s)) (run (bar_step True no_error) at_first_wall bar_init) =
     Some (BM_join 0, E1_bcast, Some 0, True, 0, 7, 0, None)"
  by code_simp

lemma pass_first_wall:
  assumes "at s t = E1_bcast" "mutex s = Some t" "is_closed s" "inside_barrier_count s = 0"
    "barrier_threshold_count s = 7" "failed s = None"
  shows "\<exists>s'. run (bar_step True no_error) (map (\<lambda>_. Worker t) [E1_bcast, E1_unlock, E2_lock, E2_while, E2_unlock, E3_lock,
      E3_inc, E3_unlock, X1_lock, X1_while, X1_wait]) s = Some s' \<and> at s' t = X1_blocked \<and>
      entered s' t = entered s t + 1 \<and> main_pc s' = main_pc s \<and> failed s' = None"
  using assms by (simp add: bar_defs)

lemma one_inside_state:
  obtains s where "reachable (bar_step True no_error) bar_init s" "main_pc s = BM_join 0" "at s 0 = X1_blocked"
    "entered s 0 = 1" "failed s = None"
proof -
  obtain s where s: "run (bar_step True no_error) at_first_wall bar_init = Some s" "main_pc s = BM_join 0" "at s 0 = E1_bcast"
    "mutex s = Some 0" "is_closed s" "inside_barrier_count s = 0" "barrier_threshold_count s = 7"
    "entered s 0 = 0" "failed s = None"
    using at_first_wall_run by (auto simp del: run.simps)
  note r = run_reachable [OF reachable.start s(1)]
  from pass_first_wall [OF s(3-7,9)] show thesis
    using that run_reachable [OF r] s(2,8) by (metis add_0)
qed

text \<open>C14: The barrier separates rounds: for all return codes, in every interleaving and whichever comes first in
  \<open>pthread_create\<close>, a thread that has left \<open>k\<close> rounds has left
  them after every thread had entered \<open>k\<close> rounds, and no thread enters a round before every thread
  has left the one before it.\<close>

theorem bar_separates:
  assumes "reachable (bar_step store_first rc) bar_init s" "main_pc s \<noteq> BM_init" "t < 7" "u < 7"
  shows "left s t \<le> entered s u \<and> entered s t \<le> left s u + 1"
proof -
  have sep: "left r t \<le> entered r u \<and> entered r t \<le> left r u + 1"
    if inv: "bar_inv (stored r)" and m: "main_pc r \<noteq> BM_init" for r
  proof -
    note P = bar_inv_parts [OF inv]
    have E: "entered r v = left r v + of_bool (inside (at r v))" for v using P(2) [of v] by (simp add: thread_ok_def)
    have "agree (if is_closed r then left r else entered r)" using P(5) m by (simp add: rounds_ok_def cong: if_cong)
    then have "left r t = left r u \<or> entered r t = entered r u"
      using agreeD [OF _ assms(3,4)] by (cases "is_closed r") simp_all
    moreover have "left r v \<le> entered r v \<and> entered r v \<le> left r v + 1" for v using E [of v] by simp
    ultimately show ?thesis by (metis add_le_cancel_right order_trans)
  qed
  from assms(1) show ?thesis
    by (cases rule: bar_reachable) (use sep assms(2) in \<open>auto simp: bar_init_def lost_def\<close>)
qed

theorem bar_separates_witness:
  "\<exists>s. reachable (bar_step True no_error) bar_init s \<and> entered s 0 = 1 \<and> left s 0 \<le> entered s 1 \<and> entered s 0 \<le> left s 1 + 1"
proof -
  obtain s where s: "reachable (bar_step True no_error) bar_init s" "main_pc s = BM_join 0" "entered s 0 = 1" by (rule one_inside_state)
  have "main_pc s \<noteq> BM_init" using s(2) by simp
  from bar_separates [OF s(1) this, of 0 1] s show ?thesis by auto
qed

text \<open>C15: The barrier does not deadlock: unless the program has stopped, \<open>main\<close> or some worker can take
  a step of its own, without counting spurious wake-ups and whichever comes first in \<open>pthread_create\<close>.\<close>

theorem bar_no_deadlock:
  assumes "reachable (bar_step store_first rc) bar_init s" "failed s = None"
  shows "(\<exists>s'. bar_step store_first rc Main s = Some s') \<or> (\<exists>t s'. bar_step store_first rc (Worker t) s = Some s')"
  using assms
proof (cases rule: bar_reachable)
  case runs
  show ?thesis
  proof (cases "stored s = s")
    case True
    with runs(1) show ?thesis using bar_progress [OF _ assms(2)] by simp
  next
    case False
    then obtain j where "main_pc s = BM_created j" by (auto simp: stored_def split: bar_main_pc.splits)
    then show ?thesis using assms(2) by (simp add: bar_main_def)
  qed
qed (auto simp: lost_def)

theorem bar_no_deadlock_witness:
  "\<exists>s. reachable (bar_step True no_error) bar_init s \<and> at s 0 = X1_blocked \<and>
     ((\<exists>s'. bar_step True no_error Main s = Some s') \<or> (\<exists>t s'. bar_step True no_error (Worker t) s = Some s'))"
proof -
  obtain s where s: "reachable (bar_step True no_error) bar_init s" "at s 0 = X1_blocked" "failed s = None" by (rule one_inside_state)
  from bar_no_deadlock [OF s(1,3)] s show ?thesis by blast
qed



text \<open>If a worker runs before \<open>pthread_create\<close> has stored its identifier, \<open>get_t_num\<close> does not find it and its assertion fails.\<close>

lemma bar_identifier_race:
  "\<exists>s. run (bar_step False no_error) [Main, Main, Worker 0] bar_init = Some s \<and> failed s = Some (Assertion 91)"
proof -
  have n: "get_t_num (\<lambda>_. None) 7 j t = Inl (Assertion 91)" for j t
    by (induction "\<lambda>_ :: nat. None :: tid option" "7 :: nat" j t rule: get_t_num.induct) (subst get_t_num.simps, simp)
  show ?thesis
    by (simp add: bar_init_def bar_main_def init_def NUM_THREADS_def Worker_thread_func_def fail_def n)
qed

end
