(* ===== verification/Number_Threads.thy ===== *)
theory Number_Threads
  imports OSC_Prelude
begin

text \<open>
  Programs that hand a computation to worker threads and print what they left in global data after
  joining them: the summation of \<open>ch4/thrd-posix.c\<close>, the Fibonacci sequence of \<open>pp4.26.c\<close>, the
  primes of \<open>pp4.24.c\<close> and the statistics of \<open>pp4.21.c\<close>. Each \<open>main\<close> maps its argument vector to
  what it prints, to its early return of -1 (\<open>None\<close>), or to the way it stops; additions on \<open>int\<close> are checked for
  overflow. The parent only reads after the join, so a single worker runs as a function call; the
  three workers of \<open>pp4.21.c\<close> run in any order.
\<close>

section \<open>Summation: ch4/thrd-posix.c\<close>

function sum_loop :: "int \<Rightarrow> int \<Rightarrow> int \<Rightarrow> int c_result" where
  "sum_loop upper i tot =
     (if i \<le> upper
      then c_bind (c_int (tot + i)) (\<lambda>tot'. c_bind (c_int (i + 1)) (\<lambda>i'. sum_loop upper (i + 1) tot'))
      else Inr tot)"
  by pat_completeness auto
termination
  by (relation "measure (\<lambda>(upper, i, tot). nat (upper + 1 - i))") auto

declare sum_loop.simps [simp del]

definition sum_runner :: "string \<Rightarrow> int c_result" where
  "sum_runner param = c_bind (c_atoi param) (\<lambda>upper. if upper > 0 then sum_loop upper 1 0 else Inr 0)"

definition sum_main :: "string list \<Rightarrow> int option c_result" where
  "sum_main argv =
     (if length argv \<noteq> 2 then Inr None
      else c_bind (c_atoi (argv ! 1)) (\<lambda>v. if v < 0 then Inr None
        else c_bind (sum_runner (argv ! 1)) (\<lambda>tot. Inr (Some tot))))"

section \<open>Fibonacci numbers: pp4.26.c\<close>

definition N_FIB_MAX :: int where
  "N_FIB_MAX = 1024"

definition fib_sequence_init :: "int list" where
  "fib_sequence_init = [0, 1] @ replicate (nat N_FIB_MAX - 2) 0"

function fib_loop :: "int \<Rightarrow> int \<Rightarrow> int list \<Rightarrow> int list c_result" where
  "fib_loop n_fib i buf =
     (if i < n_fib
      then c_bind (c_read buf (i - 1)) (\<lambda>a. c_bind (c_read buf (i - 2)) (\<lambda>b.
           c_bind (c_int (a + b)) (\<lambda>v. c_bind (c_write buf i v) (\<lambda>buf'. fib_loop n_fib (i + 1) buf'))))
      else Inr buf)"
  by pat_completeness auto
termination
  by (relation "measure (\<lambda>(n_fib, i, buf). nat (n_fib - i))") auto

declare fib_loop.simps [simp del]

definition fib_runner :: "int \<Rightarrow> int list \<Rightarrow> int list c_result" where
  "fib_runner n_fib buf = fib_loop n_fib 2 buf"

text \<open>The printing loop of \<open>main\<close>: the elements below \<open>n_fib - 1\<close>, then the one at the index reached.\<close>

function print_fib :: "int list \<Rightarrow> int \<Rightarrow> int \<Rightarrow> int list c_result" where
  "print_fib buf n_fib i =
     (if i < n_fib - 1
      then c_bind (c_read buf i) (\<lambda>v. c_bind (print_fib buf n_fib (i + 1)) (\<lambda>vs. Inr (v # vs)))
      else c_bind (c_read buf i) (\<lambda>v. Inr [v]))"
  by pat_completeness auto
termination
  by (relation "measure (\<lambda>(buf, n_fib, i). nat (n_fib - i))") auto

declare print_fib.simps [simp del]

definition fib_main :: "string list \<Rightarrow> int list option c_result" where
  "fib_main argv =
     (if length argv \<noteq> 2 then Inr None
      else c_bind (c_atoi (argv ! 1)) (\<lambda>n_fib. if n_fib \<le> 0 \<or> n_fib > N_FIB_MAX then Inr None
        else c_bind (fib_runner n_fib fib_sequence_init) (\<lambda>buf.
             c_bind (print_fib buf n_fib 0) (\<lambda>out. Inr (Some out)))))"

section \<open>Prime numbers: pp4.24.c\<close>

text \<open>
  \<open>(int) sqrt((double) n)\<close>: every \<open>int\<close> is a \<open>double\<close> and \<open>sqrt\<close> is correctly rounded, so the
  conversion yields the largest integer whose square does not exceed \<open>n\<close>.
\<close>

function isqrt_from :: "int \<Rightarrow> int \<Rightarrow> int" where
  "isqrt_from r n = (if 0 \<le> r \<and> (r + 1) * (r + 1) \<le> n then isqrt_from (r + 1) n else r)"
  by pat_completeness auto
termination
proof (relation "measure (\<lambda>(r, n). nat (n - r))", goal_cases)
  case (2 r n)
  then have "r < n" by (smt (verit) mult_le_cancel_right1)
  then show ?case by simp
qed simp

declare isqrt_from.simps [simp del]

function factor_loop :: "int \<Rightarrow> int \<Rightarrow> int \<Rightarrow> bool" where
  "factor_loop n max_factor i =
     (if i \<le> max_factor then if n mod i = 0 then False else factor_loop n max_factor (i + 1) else True)"
  by pat_completeness auto
termination
  by (relation "measure (\<lambda>(n, mf, i). nat (mf + 1 - i))") auto

declare factor_loop.simps [simp del]

definition is_prime :: "int \<Rightarrow> bool" where
  "is_prime n = (if n < 2 then False else if n = 2 then True else factor_loop n (isqrt_from 0 n) 2)"

function prime_loop :: "int \<Rightarrow> int \<Rightarrow> int \<Rightarrow> (int list \<times> int) c_result" where
  "prime_loop upper_bound i count =
     (if i \<le> upper_bound
      then let p = is_prime i in
           c_bind (c_int (i + 1)) (\<lambda>i'.
           c_bind (prime_loop upper_bound (i + 1) (if p then count + 1 else count)) (\<lambda>(out, c).
             Inr (if p then i # out else out, c)))
      else Inr ([], count))"
  by pat_completeness auto
termination
  by (relation "measure (\<lambda>(ub, i, c). nat (ub + 1 - i))") auto

declare prime_loop.simps [simp del]

definition prime_runner :: "int \<Rightarrow> (int list \<times> int) c_result" where
  "prime_runner upper_bound = prime_loop upper_bound 2 0"

definition prime_main :: "string list \<Rightarrow> (int list \<times> int) option c_result" where
  "prime_main argv =
     (if length argv \<noteq> 2 then Inr None
      else c_bind (c_atoi (argv ! 1)) (\<lambda>upper_bound. if upper_bound < 0 then Inr None
        else c_bind (prime_runner upper_bound) (\<lambda>out. Inr (Some out))))"

section \<open>Statistics: pp4.21.c\<close>

definition MAX_SAMPLE_SIZE :: int where
  "MAX_SAMPLE_SIZE = 256"

text \<open>\<open>avg\<close> is kept as the operands of its division of two \<open>double\<close>s; \<open>min\<close> and \<open>max\<close> are exact.\<close>

record stat_state =
  val_buffer :: "int list"
  val_buffer_len :: int
  avg :: "int \<times> int"
  min_result :: int
  max_result :: int

definition stat_init :: stat_state where
  "stat_init = \<lparr>val_buffer = replicate (nat MAX_SAMPLE_SIZE) 0, val_buffer_len = -1, avg = (0, 1),
     min_result = -1, max_result = 0\<rparr>"

text \<open>The three loops fold the samples \<open>val_buffer[i .. val_buffer_len - 1]\<close> into an accumulator.\<close>

function fold_samples :: "(int \<Rightarrow> int \<Rightarrow> int c_result) \<Rightarrow> int list \<Rightarrow> int \<Rightarrow> int \<Rightarrow> int \<Rightarrow> int c_result" where
  "fold_samples f buf len i acc =
     (if i < len
      then c_bind (c_read buf i) (\<lambda>v. c_bind (f acc v) (\<lambda>acc'. fold_samples f buf len (i + 1) acc'))
      else Inr acc)"
  by pat_completeness auto
termination
  by (relation "measure (\<lambda>(f, buf, len, i, acc). nat (len - i))") auto

declare fold_samples.simps [simp del]

definition avg_calc :: "stat_state \<Rightarrow> stat_state c_result" where
  "avg_calc s = c_bind (fold_samples (\<lambda>tot v. c_int (tot + v)) (val_buffer s) (val_buffer_len s) 0 0)
     (\<lambda>tot. Inr (s\<lparr>avg := (tot, val_buffer_len s)\<rparr>))"

definition min_calc :: "stat_state \<Rightarrow> stat_state c_result" where
  "min_calc s = c_bind (c_read (val_buffer s) 0) (\<lambda>v0.
     c_bind (fold_samples (\<lambda>m v. Inr (if m > v then v else m)) (val_buffer s) (val_buffer_len s) 1 v0)
       (\<lambda>m. Inr (s\<lparr>min_result := m\<rparr>)))"

definition max_calc :: "stat_state \<Rightarrow> stat_state c_result" where
  "max_calc s = c_bind (c_read (val_buffer s) 0) (\<lambda>v0.
     c_bind (fold_samples (\<lambda>m v. Inr (if m < v then v else m)) (val_buffer s) (val_buffer_len s) 1 v0)
       (\<lambda>m. Inr (s\<lparr>max_result := m\<rparr>)))"

text \<open>The function pointers of \<open>calc_funcs\<close>; \<open>order\<close> is the order in which the threads run.\<close>

datatype calc_func = Avg_calc | Min_calc | Max_calc

fun run_calc :: "calc_func \<Rightarrow> stat_state \<Rightarrow> stat_state c_result" where
  "run_calc Avg_calc s = avg_calc s" | "run_calc Min_calc s = min_calc s" | "run_calc Max_calc s = max_calc s"

fun run_calcs :: "calc_func list \<Rightarrow> stat_state \<Rightarrow> stat_state c_result" where
  "run_calcs [] s = Inr s"
| "run_calcs (c # cs) s = c_bind (run_calc c s) (run_calcs cs)"

text \<open>Reading the arguments stops at the first one that is not positive.\<close>

fun read_samples :: "string list \<Rightarrow> int \<Rightarrow> stat_state \<Rightarrow> stat_state option c_result" where
  "read_samples [] i s = Inr (Some s)"
| "read_samples (a # as) i s =
     c_bind (c_atoi a) (\<lambda>v. c_bind (c_write (val_buffer s) i v) (\<lambda>buf.
       if v \<le> 0 then Inr None else read_samples as (i + 1) (s\<lparr>val_buffer := buf\<rparr>)))"

definition stat_main :: "calc_func list \<Rightarrow> string list \<Rightarrow> stat_state option c_result" where
  "stat_main order argv =
     (let argc = int (length argv) in
      if argc \<le> 1 \<or> argc - 1 \<ge> MAX_SAMPLE_SIZE then Inr None
      else c_bind (read_samples (tl argv) 0 stat_init) (\<lambda>r. case r of
          None \<Rightarrow> Inr None
        | Some s \<Rightarrow> c_bind (run_calcs order (s\<lparr>val_buffer_len := argc - 1\<rparr>)) (\<lambda>s'. Inr (Some s'))))"

section \<open>Facts about the computations\<close>

lemma c_int_ok [simp]: "INT_MIN \<le> x \<Longrightarrow> x \<le> INT_MAX \<Longrightarrow> c_int x = Inr x"
  by (simp add: c_int_def)

lemma c_int_over [simp]: "INT_MAX < x \<Longrightarrow> c_int x = Inl Signed_Overflow"
  by (simp add: c_int_def)

text \<open>Triangular numbers.\<close>

definition tri :: "int \<Rightarrow> int" where
  "tri k = k * (k + 1) div 2"

lemma tri_step: "tri (i - 1) + i = tri i"
proof -
  have "even (i * (i - 1))" by simp
  have "i * (i + 1) = (i - 1) * i + i * 2" by (simp add: algebra_simps)
  then show ?thesis unfolding tri_def by simp
qed

lemma tri_mono: "0 \<le> a \<Longrightarrow> a \<le> b \<Longrightarrow> tri a \<le> tri b"
  unfolding tri_def by (intro zdiv_mono1 mult_mono) auto

lemma tri_pos: "0 \<le> a \<Longrightarrow> 0 \<le> tri a"
  by (simp add: tri_def)

lemma sum_loop_fits:
  assumes "1 \<le> i" "i \<le> upper + 1" "upper \<le> 65535"
  shows "sum_loop upper i (tri (i - 1)) = Inr (tri upper)"
  using assms
proof (induction "nat (upper + 1 - i)" arbitrary: i)
  case 0
  then have "i - 1 = upper" by simp
  with 0 show ?case by (subst sum_loop.simps) simp
next
  case (Suc k)
  then have i: "i \<le> upper" by simp
  have "tri i \<le> tri 65535" using Suc.prems i by (intro tri_mono) auto
  also have "\<dots> \<le> INT_MAX" by (simp add: tri_def INT_MAX_def)
  finally have "c_int (tri (i - 1) + i) = Inr (tri i)"
    using Suc.prems tri_pos [of i] by (simp add: tri_step INT_MIN_def)
  moreover have "c_int (i + 1) = Inr (i + 1)"
    using Suc.prems i by (simp add: INT_MIN_def INT_MAX_def)
  moreover have "sum_loop upper (i + 1) (tri i) = Inr (tri upper)"
    using Suc.hyps(1) [of "i + 1"] Suc.hyps(2) Suc.prems i by simp
  ultimately show ?case using i by (subst sum_loop.simps) simp
qed

lemma sum_loop_overflow:
  assumes "1 \<le> i" "i \<le> 65536" "65536 \<le> upper"
  shows "sum_loop upper i (tri (i - 1)) = Inl Signed_Overflow"
  using assms
proof (induction "nat (65536 - i)" arbitrary: i)
  case 0
  then have "i = 65536" by simp
  moreover have "c_int (tri 65535 + 65536) = Inl Signed_Overflow"
    by (simp add: tri_def INT_MAX_def)
  ultimately show ?case using assms(3) by (subst sum_loop.simps) simp
next
  case (Suc k)
  then have i: "i < 65536" by simp
  have "tri i \<le> tri 65535" using Suc.prems i by (intro tri_mono) auto
  also have "\<dots> \<le> INT_MAX" by (simp add: tri_def INT_MAX_def)
  finally have "c_int (tri (i - 1) + i) = Inr (tri i)"
    using Suc.prems tri_pos [of i] by (simp add: tri_step INT_MIN_def)
  moreover have "c_int (i + 1) = Inr (i + 1)"
    using Suc.prems i by (simp add: INT_MIN_def INT_MAX_def)
  moreover have "sum_loop upper (i + 1) (tri i) = Inl Signed_Overflow"
    using Suc.hyps(1) [of "i + 1"] Suc.hyps(2) Suc.prems i by simp
  ultimately show ?case using i Suc.prems(3) by (subst sum_loop.simps) simp
qed

text \<open>The mathematical Fibonacci numbers, with a pairwise computation.\<close>

fun fib :: "nat \<Rightarrow> int" where
  "fib 0 = 0" | "fib (Suc 0) = 1" | "fib (Suc (Suc k)) = fib (Suc k) + fib k"

fun fib_pair :: "nat \<Rightarrow> int \<times> int" where
  "fib_pair 0 = (0, 1)" | "fib_pair (Suc k) = (case fib_pair k of (a, b) \<Rightarrow> (b, a + b))"

lemma fib_pair_eq: "fib_pair k = (fib k, fib (Suc k))"
  by (induction k) (auto simp: add.commute)

lemma fib_46_47: "fib 46 = 1836311903" "fib 47 = 2971215073"
proof -
  have "fib_pair 46 = (1836311903, 2971215073)" by code_simp
  moreover have "Suc 46 = 47" by simp
  ultimately show "fib 46 = 1836311903" "fib 47 = 2971215073" unfolding fib_pair_eq by (metis prod.inject)+
qed

lemma fib_nonneg: "0 \<le> fib k"
  by (induction k rule: fib.induct) auto

lemma fib_step_mono: "fib k \<le> fib (Suc k)"
  using fib_nonneg [of "k - 1"] by (cases k) auto

lemma fib_mono: "a \<le> b \<Longrightarrow> fib a \<le> fib b"
  by (rule lift_Suc_mono_le [of fib]) (auto intro: fib_step_mono)

definition holds_fib :: "int list \<Rightarrow> nat \<Rightarrow> bool" where
  "holds_fib buf k \<longleftrightarrow> length buf = 1024 \<and> (\<forall>j < k. buf ! j = fib j)"

lemma fib_write:
  assumes "holds_fib buf i" "i < 1024" "2 \<le> i"
  shows "c_read buf (int i - 1) = Inr (fib (i - 1))" "c_read buf (int i - 2) = Inr (fib (i - 2))"
    "fib (i - 1) + fib (i - 2) = fib i" "c_write buf (int i) (fib i) = Inr (buf[i := fib i])"
    "holds_fib (buf[i := fib i]) (Suc i)"
proof -
  obtain j where j: "i = Suc (Suc j)" using assms(3) by (metis add_2_eq_Suc le_Suc_ex)
  show "c_read buf (int i - 1) = Inr (fib (i - 1))" "c_read buf (int i - 2) = Inr (fib (i - 2))"
    "fib (i - 1) + fib (i - 2) = fib i" "c_write buf (int i) (fib i) = Inr (buf[i := fib i])"
    using assms by (simp_all add: j holds_fib_def nat_add_distrib)
  show "holds_fib (buf[i := fib i]) (Suc i)"
    using assms by (auto simp: holds_fib_def less_Suc_eq)
qed

lemma fib_loop_fits:
  assumes "holds_fib buf i" "2 \<le> i" "i \<le> k" "k \<le> 47"
  shows "\<exists>buf'. fib_loop (int k) (int i) buf = Inr buf' \<and> holds_fib buf' k"
  using assms
proof (induction "k - i" arbitrary: i buf)
  case 0
  then show ?case by (subst fib_loop.simps) simp
next
  case (Suc m)
  then have i: "i < k" and m: "m = k - Suc i" by simp_all
  note W = fib_write [OF Suc.prems(1) _ Suc.prems(2)]
  have "fib i \<le> fib 46" using i Suc.prems(4) by (intro fib_mono) simp
  then have "c_int (fib (i - 1) + fib (i - 2)) = Inr (fib i)"
    using W(3) i Suc.prems(4) fib_nonneg [of i] fib_46_47 by (simp add: INT_MIN_def INT_MAX_def)
  moreover obtain buf' where "fib_loop (int k) (int (Suc i)) (buf[i := fib i]) = Inr buf'" "holds_fib buf' k"
    using Suc.hyps(1) [OF m, of "buf[i := fib i]"] Suc.prems W(5) i by auto
  ultimately show ?case using W(1,2,4) i Suc.prems(4)
    by (subst fib_loop.simps) (simp add: add.commute)
qed

lemma fib_loop_overflow:
  assumes "holds_fib buf i" "2 \<le> i" "i \<le> 47" "48 \<le> k" "k \<le> 1024"
  shows "fib_loop (int k) (int i) buf = Inl Signed_Overflow"
  using assms
proof (induction "47 - i" arbitrary: i buf)
  case 0
  then have i: "i = 47" by simp
  note W = fib_write [OF 0(2) _ 0(3)]
  have "c_int (fib 46 + fib 45) = Inl Signed_Overflow"
    using W(3) fib_46_47 by (simp add: i INT_MAX_def)
  then show ?case using W(1,2) 0(5) by (subst fib_loop.simps) (simp add: i)
next
  case (Suc m)
  then have i: "i < 47" and m: "m = 47 - Suc i" by simp_all
  note W = fib_write [OF Suc.prems(1) _ Suc.prems(2)]
  have "fib i \<le> fib 46" using i by (intro fib_mono) simp
  then have "c_int (fib (i - 1) + fib (i - 2)) = Inr (fib i)"
    using W(3) i fib_nonneg [of i] fib_46_47 by (simp add: INT_MIN_def INT_MAX_def)
  moreover have "fib_loop (int k) (int (Suc i)) (buf[i := fib i]) = Inl Signed_Overflow"
    using Suc.hyps(1) [OF m, of "buf[i := fib i]"] Suc.prems W(5) i by auto
  ultimately show ?case using W(1,2,4) i Suc.prems(4)
    by (subst fib_loop.simps) (simp add: add.commute)
qed

lemma holds_fib_init: "holds_fib fib_sequence_init 2"
  by (auto simp: holds_fib_def fib_sequence_init_def N_FIB_MAX_def less_Suc_eq numeral_2_eq_2)

lemma print_fib_eq:
  assumes "i < k" "k \<le> length buf"
  shows "print_fib buf (int k) (int i) = Inr (map ((!) buf) [i..<k])"
  using assms
proof (induction "k - i" arbitrary: i)
  case (Suc m)
  show ?case
  proof (cases "Suc i = k")
    case True
    then show ?thesis using Suc.prems by (subst print_fib.simps) (auto simp: upt_rec)
  next
    case False
    have m: "m = k - Suc i" using Suc.hyps(2) by simp
    have "print_fib buf (int k) (int (Suc i)) = Inr (map ((!) buf) [Suc i..<k])"
      by (rule Suc.hyps(1) [OF m]) (use False Suc.prems in auto)
    moreover have "[i..<k] = i # [Suc i..<k]" using Suc.prems by (simp add: upt_rec)
    ultimately show ?thesis using False Suc.prems
      by (subst print_fib.simps) (simp add: add.commute)
  qed
qed simp

text \<open>Integer square roots and primality.\<close>

lemma isqrt_from_spec:
  assumes "0 \<le> r" "r * r \<le> n"
  shows "0 \<le> isqrt_from r n \<and> isqrt_from r n * isqrt_from r n \<le> n \<and>
    n < (isqrt_from r n + 1) * (isqrt_from r n + 1)"
  using assms
proof (induction r n rule: isqrt_from.induct)
  case (1 r n)
  show ?case
  proof (cases "(r + 1) * (r + 1) \<le> n")
    case True
    then have "isqrt_from r n = isqrt_from (r + 1) n" using 1(2) by (subst isqrt_from.simps) simp
    with 1 True show ?thesis by simp
  next
    case False
    then have "isqrt_from r n = r" by (subst isqrt_from.simps) simp
    with 1 False show ?thesis by simp
  qed
qed

lemma factor_loop_iff:
  assumes "2 \<le> i"
  shows "factor_loop n mf i \<longleftrightarrow> (\<forall>d. i \<le> d \<and> d \<le> mf \<longrightarrow> \<not> d dvd n)"
  using assms
proof (induction n mf i rule: factor_loop.induct)
  case (1 n mf i)
  show ?case
  proof (cases "i \<le> mf")
    case True
    have split: "(\<forall>d. i \<le> d \<and> d \<le> mf \<longrightarrow> \<not> d dvd n) \<longleftrightarrow> \<not> i dvd n \<and> (\<forall>d. i + 1 \<le> d \<and> d \<le> mf \<longrightarrow> \<not> d dvd n)"
      using True by (metis add1_zle_eq linorder_not_less order_le_less order_refl)
    show ?thesis
    proof (cases "n mod i = 0")
      case True
      then have "i dvd n" by (simp add: dvd_eq_mod_eq_0)
      then show ?thesis using True \<open>i \<le> mf\<close> split by (subst factor_loop.simps) simp
    next
      case False
      then have "factor_loop n mf i = factor_loop n mf (i + 1)"
        using True by (subst factor_loop.simps) simp
      moreover have "\<not> i dvd n" using False by (simp add: dvd_eq_mod_eq_0)
      ultimately show ?thesis using 1(1) [OF True False] 1(2) split by simp
    qed
  next
    case False
    then show ?thesis by (subst factor_loop.simps) auto
  qed
qed

definition prime_number :: "int \<Rightarrow> bool" where
  "prime_number n \<longleftrightarrow> 2 \<le> n \<and> (\<forall>d. 1 < d \<and> d < n \<longrightarrow> \<not> d dvd n)"

lemma small_factor:
  fixes n :: int
  assumes "d dvd n" "1 < d" "d < n" "0 \<le> r" "n < (r + 1) * (r + 1)"
  shows "\<exists>e. 2 \<le> e \<and> e \<le> r \<and> e dvd n"
proof -
  obtain e where e: "n = d * e" using assms(1) by (auto simp: dvd_def)
  have "1 < e"
  proof (rule ccontr)
    assume "\<not> 1 < e"
    then have "d * e \<le> d * 1" using assms(2) mult_left_mono [of e 1 d] by simp
    then show False using e assms(3) by simp
  qed
  show ?thesis
  proof (cases "d \<le> r")
    case True
    then show ?thesis using assms(1,2) by (intro exI [of _ d]) auto
  next
    case False
    have "e \<le> r"
    proof (rule ccontr)
      assume "\<not> e \<le> r"
      then have "(r + 1) * (r + 1) \<le> d * e" using False assms(4) by (intro mult_mono) auto
      then show False using e assms(5) by simp
    qed
    then show ?thesis using e \<open>1 < e\<close> by (intro exI [of _ e]) auto
  qed
qed

lemma is_prime_iff: "is_prime n \<longleftrightarrow> prime_number n"
proof (cases "n \<le> 2")
  case True
  then show ?thesis by (cases "n = 2") (auto simp: is_prime_def prime_number_def)
next
  case False
  define r where "r = isqrt_from 0 n"
  have r: "0 \<le> r" "r * r \<le> n" "n < (r + 1) * (r + 1)"
    using isqrt_from_spec [of 0 n] False by (auto simp: r_def)
  have rn: "r < n"
  proof (rule ccontr)
    assume "\<not> r < n"
    then have "n * n \<le> r * r" using False by (intro mult_mono) auto
    moreover have "2 * n < n * n" using False by simp
    ultimately show False using r(2) False by linarith
  qed
  have "is_prime n \<longleftrightarrow> (\<forall>d. 2 \<le> d \<and> d \<le> r \<longrightarrow> \<not> d dvd n)"
    using False by (simp add: is_prime_def factor_loop_iff r_def)
  also have "\<dots> \<longleftrightarrow> (\<forall>d. 1 < d \<and> d < n \<longrightarrow> \<not> d dvd n)"
    using small_factor [OF _ _ _ r(1,3)] rn by (smt (verit))
  finally show ?thesis using False by (simp add: prime_number_def)
qed

lemma prime_loop_fits:
  assumes "2 \<le> i" "i \<le> ub + 1" "ub < INT_MAX"
  shows "prime_loop ub i c = Inr (filter prime_number [i..ub], c + int (length (filter prime_number [i..ub])))"
  using assms
proof (induction "nat (ub + 1 - i)" arbitrary: i c)
  case 0
  then show ?case by (subst prime_loop.simps) simp
next
  case (Suc k)
  then have i: "i \<le> ub" by simp
  have "c_int (i + 1) = Inr (i + 1)" using Suc.prems i by (simp add: INT_MIN_def)
  moreover have "prime_loop ub (i + 1) c' = Inr (filter prime_number [i + 1..ub],
      c' + int (length (filter prime_number [i + 1..ub])))" for c'
    using Suc.hyps(1) [of "i + 1"] Suc.hyps(2) Suc.prems i by simp
  moreover have "[i..ub] = i # [i + 1..ub]" using i by (simp add: upto.simps)
  ultimately show ?case using i by (subst prime_loop.simps) (simp add: is_prime_iff Let_def)
qed

lemma prime_loop_overflow:
  assumes "2 \<le> i" "i \<le> INT_MAX"
  shows "prime_loop INT_MAX i c = Inl Signed_Overflow"
  using assms
proof (induction "nat (INT_MAX - i)" arbitrary: i c)
  case 0
  then have "i = INT_MAX" by simp
  then show ?case by (subst prime_loop.simps) (simp add: Let_def)
next
  case (Suc k)
  then have i: "i < INT_MAX" by simp
  have "c_int (i + 1) = Inr (i + 1)" using Suc.prems i by (simp add: INT_MIN_def)
  moreover have "prime_loop INT_MAX (i + 1) c' = Inl Signed_Overflow" for c'
    using Suc.hyps(1) [of "i + 1"] Suc.hyps(2) Suc.prems i by simp
  ultimately show ?case using i by (subst prime_loop.simps) (simp add: Let_def)
qed

text \<open>Folding the samples.\<close>

lemma fold_samples_sum:
  assumes "0 \<le> i" "i \<le> length vs" "take (length vs) buf = vs" "length vs \<le> length buf"
    "\<And>v. v \<in> set vs \<Longrightarrow> 0 < v" "sum_list vs \<le> INT_MAX"
  shows "fold_samples (\<lambda>tot v. c_int (tot + v)) buf (int (length vs)) (int i) (sum_list (take i vs)) = Inr (sum_list vs)"
  using assms
proof (induction "length vs - i" arbitrary: i)
  case 0
  then show ?case by (subst fold_samples.simps) simp
next
  case (Suc k)
  then have i: "i < length vs" and k: "k = length vs - Suc i" by simp_all
  have tk: "sum_list (take (Suc i) vs) = sum_list (take i vs) + vs ! i"
    using i by (simp add: take_Suc_conv_app_nth)
  have rest: "0 \<le> sum_list (drop (Suc i) vs)"
    using Suc.prems(5) by (intro sum_list_nonneg) (auto dest: in_set_dropD less_imp_le)
  have pre: "0 \<le> sum_list (take (Suc i) vs)"
    using Suc.prems(5) by (intro sum_list_nonneg) (auto dest: in_set_takeD less_imp_le)
  have "sum_list (take (Suc i) vs) + sum_list (drop (Suc i) vs) = sum_list vs"
    by (metis append_take_drop_id sum_list_append)
  then have "c_int (sum_list (take i vs) + vs ! i) = Inr (sum_list (take (Suc i) vs))"
    using rest pre tk Suc.prems(6) by (simp add: INT_MIN_def)
  moreover have "c_read buf (int i) = Inr (vs ! i)"
    using i Suc.prems(3,4) by (simp add: nth_take [symmetric, of i "length vs" buf])
  moreover have "fold_samples (\<lambda>tot v. c_int (tot + v)) buf (int (length vs)) (int (Suc i))
      (sum_list (take (Suc i) vs)) = Inr (sum_list vs)"
    using Suc.hyps(1) [OF k] Suc.prems i by simp
  ultimately show ?case using i by (subst fold_samples.simps) (simp add: add.commute)
qed

lemma fold_samples_pure:
  assumes "i \<le> length vs" "take (length vs) buf = vs" "length vs \<le> length buf"
  shows "fold_samples (\<lambda>m v. Inr (g m v)) buf (int (length vs)) (int i) m = Inr (foldl g m (drop i vs))"
  using assms
proof (induction "length vs - i" arbitrary: i m)
  case 0
  then show ?case by (subst fold_samples.simps) simp
next
  case (Suc k)
  then have i: "i < length vs" and k: "k = length vs - Suc i" by simp_all
  have "c_read buf (int i) = Inr (vs ! i)"
    using i Suc.prems(2,3) by (simp add: nth_take [symmetric, of i "length vs" buf])
  moreover have "fold_samples (\<lambda>m v. Inr (g m v)) buf (int (length vs)) (int (Suc i)) m' =
      Inr (foldl g m' (drop (Suc i) vs))" for m'
    using Suc.hyps(1) [OF k] Suc.prems i by simp
  moreover have "drop i vs = vs ! i # drop (Suc i) vs" using i by (simp add: Cons_nth_drop_Suc)
  ultimately show ?case using i by (subst fold_samples.simps) (simp add: add.commute)
qed

lemma foldl_min: "foldl (\<lambda>m v. if m > v then v else m) m vs = Min (insert m (set vs))" for m :: int
proof (induction vs arbitrary: m)
  case (Cons v vs)
  have "(if m > v then v else m) = min m v" by (simp add: min_def)
  then show ?case using Cons [of "min m v"] by (cases "vs = []") (simp_all add: min.assoc)
qed simp

lemma foldl_max: "foldl (\<lambda>m v. if m < v then v else m) m vs = Max (insert m (set vs))" for m :: int
proof (induction vs arbitrary: m)
  case (Cons v vs)
  have "(if m < v then v else m) = max m v" by (simp add: max_def)
  then show ?case using Cons [of "max m v"] by (cases "vs = []") (simp_all add: max.assoc)
qed simp

text \<open>A state whose buffer holds the samples \<open>vs\<close>, and the effect of the three calculations on it.\<close>

definition holds_samples :: "int list \<Rightarrow> stat_state \<Rightarrow> bool" where
  "holds_samples vs s \<longleftrightarrow> vs \<noteq> [] \<and> take (length vs) (val_buffer s) = vs \<and>
     length vs \<le> length (val_buffer s) \<and> val_buffer_len s = int (length vs) \<and>
     (\<forall>v \<in> set vs. 0 < v) \<and> sum_list vs \<le> INT_MAX"

lemma holds_samples_first:
  assumes "holds_samples vs s"
  shows "c_read (val_buffer s) 0 = Inr (hd vs)" "insert (hd vs) (set (drop 1 vs)) = set vs"
proof -
  have "vs \<noteq> []" "take (length vs) (val_buffer s) = vs" "length vs \<le> length (val_buffer s)"
    using assms by (auto simp: holds_samples_def)
  then have "0 < length (val_buffer s)" "val_buffer s ! 0 = vs ! 0"
    by (auto simp: nth_take [symmetric, of 0 "length vs" "val_buffer s"])
  then show "c_read (val_buffer s) 0 = Inr (hd vs)" using \<open>vs \<noteq> []\<close> by (simp add: hd_conv_nth)
  show "insert (hd vs) (set (drop 1 vs)) = set vs" using \<open>vs \<noteq> []\<close> by (cases vs) auto
qed

lemma avg_calc_eq: "holds_samples vs s \<Longrightarrow> avg_calc s = Inr (s\<lparr>avg := (sum_list vs, int (length vs))\<rparr>)"
  using fold_samples_sum [of 0 vs "val_buffer s"] by (simp add: holds_samples_def avg_calc_def)

lemma min_calc_eq:
  assumes "holds_samples vs s"
  shows "min_calc s = Inr (s\<lparr>min_result := Min (set vs)\<rparr>)"
proof -
  have "fold_samples (\<lambda>m v. Inr (if m > v then v else m)) (val_buffer s) (int (length vs)) (int 1) (hd vs) =
      Inr (Min (set vs))"
    using assms holds_samples_first [OF assms]
    by (subst fold_samples_pure) (auto simp: holds_samples_def foldl_min Suc_le_eq)
  then show ?thesis using assms holds_samples_first [OF assms]
    by (simp add: min_calc_def holds_samples_def)
qed

lemma max_calc_eq:
  assumes "holds_samples vs s"
  shows "max_calc s = Inr (s\<lparr>max_result := Max (set vs)\<rparr>)"
proof -
  have "fold_samples (\<lambda>m v. Inr (if m < v then v else m)) (val_buffer s) (int (length vs)) (int 1) (hd vs) =
      Inr (Max (set vs))"
    using assms holds_samples_first [OF assms]
    by (subst fold_samples_pure) (auto simp: holds_samples_def foldl_max Suc_le_eq)
  then show ?thesis using assms holds_samples_first [OF assms]
    by (simp add: max_calc_def holds_samples_def)
qed

definition stat_effect :: "int list \<Rightarrow> calc_func \<Rightarrow> stat_state \<Rightarrow> stat_state" where
  "stat_effect vs c s = (case c of Avg_calc \<Rightarrow> s\<lparr>avg := (sum_list vs, int (length vs))\<rparr>
     | Min_calc \<Rightarrow> s\<lparr>min_result := Min (set vs)\<rparr> | Max_calc \<Rightarrow> s\<lparr>max_result := Max (set vs)\<rparr>)"

lemma run_calc_effect:
  assumes "holds_samples vs s"
  shows "run_calc c s = Inr (stat_effect vs c s)" "holds_samples vs (stat_effect vs c s)"
  using assms
  by (cases c; simp add: stat_effect_def avg_calc_eq min_calc_eq max_calc_eq)
    (use assms in \<open>cases c; simp add: stat_effect_def holds_samples_def\<close>)

lemma run_calcs_result:
  assumes "holds_samples vs s"
  shows "\<exists>s'. run_calcs order s = Inr s' \<and>
     avg s' = (if Avg_calc \<in> set order then (sum_list vs, int (length vs)) else avg s) \<and>
     min_result s' = (if Min_calc \<in> set order then Min (set vs) else min_result s) \<and>
     max_result s' = (if Max_calc \<in> set order then Max (set vs) else max_result s)"
  using assms
proof (induction order arbitrary: s)
  case (Cons c cs)
  from Cons.IH [OF run_calc_effect(2) [OF Cons.prems, of c]]
  show ?case by (cases c) (auto simp: run_calc_effect(1) [OF Cons.prems] stat_effect_def)
qed simp

lemma read_samples_ok:
  assumes "map c_atoi as = map Inr vs" "\<forall>v \<in> set vs. 0 < v" "i + length vs \<le> length (val_buffer s)"
  shows "read_samples as (int i) s =
    Inr (Some (s\<lparr>val_buffer := take i (val_buffer s) @ vs @ drop (i + length vs) (val_buffer s)\<rparr>))"
  using assms
proof (induction as arbitrary: vs i s)
  case (Cons a as)
  then obtain v ws where vs: "vs = v # ws" "c_atoi a = Inr v" "map c_atoi as = map Inr ws" by auto
  let ?s = "s\<lparr>val_buffer := (val_buffer s)[i := v]\<rparr>"
  have i: "i < length (val_buffer s)" using Cons.prems vs by simp
  have "read_samples as (int (Suc i)) ?s = Inr (Some (?s\<lparr>val_buffer :=
      take (Suc i) (val_buffer ?s) @ ws @ drop (Suc i + length ws) (val_buffer ?s)\<rparr>))"
    using Cons.prems vs by (intro Cons.IH) auto
  moreover have "take (Suc i) ((val_buffer s)[i := v]) = take i (val_buffer s) @ [v]"
    using i by (simp add: take_Suc_conv_app_nth)
  ultimately show ?case using i Cons.prems vs by (simp add: add.commute)
qed simp

lemma read_samples_stop:
  assumes "map c_atoi as = map Inr vs" "\<exists>v \<in> set vs. v \<le> 0" "i + length vs \<le> length (val_buffer s)"
  shows "read_samples as (int i) s = Inr None"
  using assms
proof (induction as arbitrary: vs i s)
  case (Cons a as)
  then obtain v ws where vs: "vs = v # ws" "c_atoi a = Inr v" "map c_atoi as = map Inr ws" by auto
  have "read_samples as (int (Suc i)) (s\<lparr>val_buffer := (val_buffer s)[i := v]\<rparr>) = Inr None" if "0 < v"
    using Cons.prems vs that by (intro Cons.IH [of ws]) auto
  then show ?case using Cons.prems vs by (auto simp: add.commute)
qed simp

section \<open>What the programs print\<close>

text \<open>For a single argument that reads as an int, thrd-posix prints the sum of 1 to that number
  when it lies between 0 and 65535, prints only an error for a negative one, and overflows its
  int accumulator for every larger one.\<close>

theorem sum_main_correct:
  assumes "c_atoi a = Inr n"
  shows "sum_main [prog, a] =
    (if n < 0 then Inr None
     else if n \<le> 65535 then Inr (Some (n * (n + 1) div 2)) else Inl Signed_Overflow)"
  using assms sum_loop_fits [of 1 n] sum_loop_overflow [of 1 n]
  by (cases "n = 0") (auto simp: sum_main_def sum_runner_def tri_def)

theorem sum_main_correct_witness: "sum_main [''sum'', ''100''] = Inr (Some 5050)"
proof -
  have "c_atoi ''100'' = Inr 100" by code_simp
  from sum_main_correct [OF this, of "''sum''"] show ?thesis by simp
qed

text \<open>For a single argument n that reads as an int, pp4.26 prints an error unless n is between 1 and
  1024; for n up to 47 it prints the first n Fibonacci numbers, and for 48 to 1024, which its
  check accepts, the worker overflows int.\<close>

theorem fib_main_correct:
  assumes "c_atoi a = Inr n"
  shows "fib_main [prog, a] =
    (if n \<le> 0 \<or> 1024 < n then Inr None
     else if n \<le> 47 then Inr (Some (map fib [0..<nat n])) else Inl Signed_Overflow)"
proof (cases "n \<le> 0 \<or> 1024 < n")
  case True
  then show ?thesis using assms by (auto simp: fib_main_def N_FIB_MAX_def)
next
  case False
  then have unf: "fib_main [prog, a] = c_bind (fib_loop n 2 fib_sequence_init)
      (\<lambda>buf. c_bind (print_fib buf n 0) (\<lambda>out. Inr (Some out)))"
    using assms by (simp add: fib_main_def fib_runner_def N_FIB_MAX_def)
  show ?thesis
  proof (cases "n \<le> 47")
    case True
    have "\<exists>buf. fib_loop n 2 fib_sequence_init = Inr buf \<and> holds_fib buf (nat n)"
    proof (cases "2 \<le> n")
      case two: True
      then show ?thesis using fib_loop_fits [OF holds_fib_init, of "nat n"] True by simp
    next
      case False
      then show ?thesis using holds_fib_init
        by (subst fib_loop.simps) (auto simp: holds_fib_def)
    qed
    then obtain buf where buf: "fib_loop n 2 fib_sequence_init = Inr buf" "holds_fib buf (nat n)" by blast
    then have "print_fib buf n 0 = Inr (map ((!) buf) [0..<nat n])"
      using print_fib_eq [of 0 "nat n" buf] False True by (simp add: holds_fib_def)
    then show ?thesis using buf unf False True by (auto simp: holds_fib_def)
  next
    case big: False
    then show ?thesis using unf False fib_loop_overflow [OF holds_fib_init, of "nat n"] by simp
  qed
qed

theorem fib_main_correct_witness: "fib_main [''fib'', ''8''] = Inr (Some [0, 1, 1, 2, 3, 5, 8, 13])"
proof -
  have "c_atoi ''8'' = Inr 8" by code_simp
  moreover have "map fib [0..<8] = [0, 1, 1, 2, 3, 5, 8, 13]" by code_simp
  ultimately show ?thesis using fib_main_correct [of "''8''" 8 "''fib''"] by simp
qed

text \<open>C40: For a single argument n that reads as an int, pp4.24 prints exactly the prime numbers up to n,
  in increasing order, followed by how many there are; a negative n is refused, and at INT_MAX
  the loop counter overflows. Trial division up to the square root therefore decides primality.\<close>

theorem prime_main_correct:
  assumes "c_atoi a = Inr n" "n \<le> INT_MAX"
  shows "prime_main [prog, a] =
    (if n < 0 then Inr None
     else if n < INT_MAX then Inr (Some (filter prime_number [2..n], int (length (filter prime_number [2..n]))))
     else Inl Signed_Overflow)"
proof (cases "n < 0")
  case False
  have "prime_loop n 2 0 = (if n < INT_MAX
      then Inr (filter prime_number [2..n], int (length (filter prime_number [2..n]))) else Inl Signed_Overflow)"
  proof (cases "n < 1")
    case True
    then have "n = 0" using False by simp
    then show ?thesis by (subst prime_loop.simps) (simp add: INT_MAX_def)
  next
    case pos: False
    then show ?thesis using assms(2) prime_loop_fits [of 2 n 0] prime_loop_overflow [of 2 0]
      by (auto simp: INT_MAX_def)
  qed
  then show ?thesis using False assms(1) by (simp add: prime_main_def prime_runner_def)
qed (use assms in \<open>simp add: prime_main_def\<close>)

theorem prime_main_correct_witness:
  "prime_main [''primes'', ''20''] = Inr (Some (filter prime_number [2..20], 8)) \<and> \<not> prime_number 15"
proof -
  have "c_atoi ''20'' = Inr 20" by code_simp
  then have "prime_main [''primes'', ''20''] =
      Inr (Some (filter prime_number [2..20], int (length (filter prime_number [2..20]))))"
    using prime_main_correct [of "''20''" 20 "''primes''"] by (simp add: INT_MAX_def)
  moreover have "filter is_prime [2..20] = [2, 3, 5, 7, 11, 13, 17, 19]" "\<not> is_prime 15" by code_simp+
  then have "filter prime_number [2..20] = [2, 3, 5, 7, 11, 13, 17, 19]" "\<not> prime_number 15"
    unfolding is_prime_iff by simp_all
  ultimately show ?thesis by simp
qed

text \<open>In whatever order its three workers run, pp4.21 reports the sum over the count, the least and
  the greatest of 1 to 255 positive samples whose sum fits an int; one sample that is not
  positive makes it refuse the input, and so do 256 samples.\<close>

theorem stat_main_correct:
  assumes "set order = {Avg_calc, Min_calc, Max_calc}" "map c_atoi as = map Inr vs" "vs \<noteq> []"
    "sum_list vs \<le> INT_MAX"
  shows "if length vs < 256 \<and> (\<forall>v \<in> set vs. 0 < v)
    then \<exists>s. stat_main order (prog # as) = Inr (Some s) \<and> avg s = (sum_list vs, int (length vs)) \<and>
           min_result s = Min (set vs) \<and> max_result s = Max (set vs)
    else stat_main order (prog # as) = Inr None"
proof -
  have len: "length as = length vs" using assms(2) by (metis length_map)
  have buf: "val_buffer stat_init = replicate 256 0" by (simp add: stat_init_def MAX_SAMPLE_SIZE_def)
  show ?thesis
  proof (cases "length vs < 256 \<and> (\<forall>v \<in> set vs. 0 < v)")
    case True
    define s where "s = stat_init\<lparr>val_buffer := vs @ drop (length vs) (replicate 256 0),
      val_buffer_len := int (length vs)\<rparr>"
    have "holds_samples vs s" using True assms(3,4) by (simp add: holds_samples_def s_def)
    from run_calcs_result [OF this, of order] obtain s' where s': "run_calcs order s = Inr s'"
      "avg s' = (sum_list vs, int (length vs))" "min_result s' = Min (set vs)" "max_result s' = Max (set vs)"
      using assms(1) by auto
    have "read_samples as 0 stat_init = Inr (Some (stat_init\<lparr>val_buffer := vs @ drop (length vs) (replicate 256 0)\<rparr>))"
      using read_samples_ok [OF assms(2), of 0 stat_init] True buf by simp
    then have "stat_main order (prog # as) = Inr (Some s')"
      using s'(1) True assms(3) len by (simp add: stat_main_def MAX_SAMPLE_SIZE_def s_def Let_def)
    with s' True show ?thesis by auto
  next
    case False
    then have "stat_main order (prog # as) = Inr None"
      using read_samples_stop [OF assms(2), of 0 stat_init] buf len
      by (cases "length vs < 256") (auto simp: stat_main_def MAX_SAMPLE_SIZE_def Let_def not_less)
    with False show ?thesis by auto
  qed
qed

theorem stat_main_correct_witness:
  "(\<exists>s. stat_main [Max_calc, Avg_calc, Min_calc] [''stat'', ''90'', ''81'', ''78''] = Inr (Some s) \<and>
      avg s = (249, 3) \<and> min_result s = 78 \<and> max_result s = 90) \<and>
   stat_main [Max_calc, Avg_calc, Min_calc] [''stat'', ''90'', ''x'', ''78''] = Inr None"
proof -
  have "map c_atoi [''90'', ''81'', ''78''] = map Inr [90, 81, 78]" "map c_atoi [''90'', ''x'', ''78''] = map Inr [90, 0, 78]"
    by code_simp+
  from stat_main_correct [OF _ this(1), of "[Max_calc, Avg_calc, Min_calc]" "''stat''"]
    stat_main_correct [OF _ this(2), of "[Max_calc, Avg_calc, Min_calc]" "''stat''"]
  show ?thesis by (auto simp: INT_MAX_def)
qed

end
