(* ===== verification/Pid_Race.thy ===== *)
theory Pid_Race
  imports Pid_Manager
begin

text \<open>
  The multithreaded PID program of \<open>ch4/programming_problems/pp4_20\<close>, the version of chapter 4
  whose \<open>pid_manager.c\<close> takes no lock. One step is one read or one write of a shared variable: \<open>x++\<close> and
  \<open>x %= n\<close> are a read and a write, an array element is accessed after its index was read
  (a condition on one variable reads it once). The lemmas show what the code does when a worker
  is not interrupted, which is the behaviour of the sequential manager of \<open>Pid_Manager\<close>, and
  what can happen when two workers interleave.
\<close>

section \<open>State\<close>

definition NUM_WORKER_THREADS :: nat where
  "NUM_WORKER_THREADS = 100"

definition MAX_SLEEP_TIME :: int where
  "MAX_SLEEP_TIME = 7"

datatype upc =
    U_unborn | U_cnt | U_cnt_w
  | U_assert | U_full
  | U_loop | U_test | U_inc | U_inc_w | U_mod | U_mod_w
  | U_found | U_free | U_mark | U_mark_w | U_use | U_use_w | U_ret | U_adv | U_adv_w | U_wrap | U_wrap_w
  | U_got | U_sleep
  | U_rel | U_rel_max | U_rel_arg | U_rel_used | U_rel_mark | U_rel_cnt | U_rel_cnt_w
  | U_exited

datatype umain = UM_init | UM_create nat | UM_join nat | UM_exit

record u_state =
  mgr :: pid_mgr
  thread_counter :: int
  u_main :: umain
  at :: "nat \<Rightarrow> upc"
  tmp :: "nat \<Rightarrow> int"
  iter_count :: "nat \<Rightarrow> int"
  ret_pid :: "nat \<Rightarrow> int"
  my_pid :: "nat \<Rightarrow> int"
  aborted :: bool

datatype u_event = UMain | UWorker nat int

definition u_init :: u_state where
  "u_init = \<lparr>mgr = pid_mgr_init, thread_counter = 0, u_main = UM_init, at = (\<lambda>_. U_unborn),
     tmp = (\<lambda>_. 0), iter_count = (\<lambda>_. 0), ret_pid = (\<lambda>_. 0), my_pid = (\<lambda>_. 0), aborted = False\<rparr>"

section \<open>Steps\<close>

definition goto :: "nat \<Rightarrow> upc \<Rightarrow> u_state \<Rightarrow> u_state" where
  "goto t p s = s\<lparr>at := (at s)(t := p)\<rparr>"

definition load :: "nat \<Rightarrow> int \<Rightarrow> upc \<Rightarrow> u_state \<Rightarrow> u_state" where
  "load t v p s = goto t p (s\<lparr>tmp := (tmp s)(t := v)\<rparr>)"

definition abort :: "u_state \<Rightarrow> u_state" where
  "abort s = s\<lparr>aborted := True\<rparr>"

definition check :: "bool \<Rightarrow> nat \<Rightarrow> upc \<Rightarrow> u_state \<Rightarrow> u_state" where
  "check b t p s = (if b then goto t p s else abort s)"

definition rand_sleep :: "int \<Rightarrow> bool \<Rightarrow> int \<Rightarrow> int c_result" where
  "rand_sleep mx use_rand r =
     (if \<not> mx > 0 then Inl (Assertion 94) else Inr (if use_rand then r mod mx + 1 else mx))"

definition alloc_step :: "nat \<Rightarrow> u_state \<Rightarrow> u_state option" where
  "alloc_step t s = (let m = mgr s; v = tmp s t in case at s t of
     U_assert \<Rightarrow> Some (check (pid_in_use_count m \<ge> 0 \<and> pid_in_use_count m \<le> PID_STATE_BUF_SIZE) t U_full s)
   | U_full \<Rightarrow> Some (if pid_in_use_count m \<ge> PID_STATE_BUF_SIZE
        then goto t U_got (s\<lparr>my_pid := (my_pid s)(t := -1)\<rparr>)
        else goto t U_loop (s\<lparr>iter_count := (iter_count s)(t := 0)\<rparr>))
   | U_loop \<Rightarrow> Some (load t (next_free_pid_index m) U_test s)
   | U_test \<Rightarrow> Some (case c_read (pid_alloc_state m) v of
        Inl e \<Rightarrow> abort s
      | Inr x \<Rightarrow> if x = PID_IS_IN_USE \<and> iter_count s t < PID_STATE_BUF_SIZE
          then goto t U_inc (s\<lparr>iter_count := (iter_count s)(t := iter_count s t + 1)\<rparr>)
          else goto t U_found s)
   | U_inc \<Rightarrow> Some (load t (next_free_pid_index m) U_inc_w s)
   | U_inc_w \<Rightarrow> Some (goto t U_mod (s\<lparr>mgr := m\<lparr>next_free_pid_index := v + 1\<rparr>\<rparr>))
   | U_mod \<Rightarrow> Some (load t (next_free_pid_index m) U_mod_w s)
   | U_mod_w \<Rightarrow> Some (goto t U_loop (s\<lparr>mgr := m\<lparr>next_free_pid_index := v mod PID_STATE_BUF_SIZE\<rparr>\<rparr>))
   | U_found \<Rightarrow> Some (load t (next_free_pid_index m) U_free s)
   | U_free \<Rightarrow> Some (case c_read (pid_alloc_state m) v of
        Inl e \<Rightarrow> abort s | Inr x \<Rightarrow> check (x = PID_IS_AVAILABLE) t U_mark s)
   | U_mark \<Rightarrow> Some (load t (next_free_pid_index m) U_mark_w s)
   | U_mark_w \<Rightarrow> Some (case c_write (pid_alloc_state m) v PID_IS_IN_USE of
        Inl e \<Rightarrow> abort s | Inr st \<Rightarrow> goto t U_use (s\<lparr>mgr := m\<lparr>pid_alloc_state := st\<rparr>\<rparr>))
   | U_use \<Rightarrow> Some (load t (pid_in_use_count m) U_use_w s)
   | U_use_w \<Rightarrow> Some (goto t U_ret (s\<lparr>mgr := m\<lparr>pid_in_use_count := v + 1\<rparr>\<rparr>))
   | U_ret \<Rightarrow> Some (goto t U_adv (s\<lparr>ret_pid := (ret_pid s)(t := next_free_pid_index m + MIN_PID)\<rparr>))
   | U_adv \<Rightarrow> Some (load t (next_free_pid_index m) U_adv_w s)
   | U_adv_w \<Rightarrow> Some (goto t U_wrap (s\<lparr>mgr := m\<lparr>next_free_pid_index := v + 1\<rparr>\<rparr>))
   | U_wrap \<Rightarrow> Some (load t (next_free_pid_index m) U_wrap_w s)
   | U_wrap_w \<Rightarrow> Some (goto t U_got
        (s\<lparr>mgr := m\<lparr>next_free_pid_index := v mod PID_STATE_BUF_SIZE\<rparr>, my_pid := (my_pid s)(t := ret_pid s t)\<rparr>))
   | _ \<Rightarrow> None)"

definition release_step :: "nat \<Rightarrow> u_state \<Rightarrow> u_state option" where
  "release_step t s = (let m = mgr s in case at s t of
     U_rel \<Rightarrow> Some (check (pid_in_use_count m > 0) t U_rel_max s)
   | U_rel_max \<Rightarrow> Some (check (pid_in_use_count m \<le> PID_STATE_BUF_SIZE) t U_rel_arg s)
   | U_rel_arg \<Rightarrow> Some (check (my_pid s t \<ge> MIN_PID \<and> my_pid s t \<le> MAX_PID) t U_rel_used s)
   | U_rel_used \<Rightarrow> Some (case c_read (pid_alloc_state m) (my_pid s t - MIN_PID) of
        Inl e \<Rightarrow> abort s | Inr x \<Rightarrow> check (x = PID_IS_IN_USE) t U_rel_mark s)
   | U_rel_mark \<Rightarrow> Some (case c_write (pid_alloc_state m) (my_pid s t - MIN_PID) PID_IS_AVAILABLE of
        Inl e \<Rightarrow> abort s | Inr st \<Rightarrow> goto t U_rel_cnt (s\<lparr>mgr := m\<lparr>pid_alloc_state := st\<rparr>\<rparr>))
   | U_rel_cnt \<Rightarrow> Some (load t (pid_in_use_count m) U_rel_cnt_w s)
   | U_rel_cnt_w \<Rightarrow> Some (goto t U_exited (s\<lparr>mgr := m\<lparr>pid_in_use_count := tmp s t - 1\<rparr>\<rparr>))
   | _ \<Rightarrow> None)"

definition in_release :: "upc \<Rightarrow> bool" where
  "in_release p \<longleftrightarrow> p \<in> {U_rel, U_rel_max, U_rel_arg, U_rel_used, U_rel_mark, U_rel_cnt, U_rel_cnt_w}"

definition worker_step :: "nat \<Rightarrow> int \<Rightarrow> u_state \<Rightarrow> u_state option" where
  "worker_step t r s =
     (if in_release (at s t) then release_step t s
      else case at s t of
        U_unborn \<Rightarrow> None
      | U_exited \<Rightarrow> None
      | U_cnt \<Rightarrow> Some (load t (thread_counter s) U_cnt_w s)
      | U_cnt_w \<Rightarrow> Some (goto t U_assert (s\<lparr>thread_counter := tmp s t + 1\<rparr>))
      | U_got \<Rightarrow> Some (goto t (if my_pid s t = -1 then U_exited else U_sleep) s)
      | U_sleep \<Rightarrow> if r < 0 then None else Some (case rand_sleep MAX_SLEEP_TIME True r of
           Inl e \<Rightarrow> abort s | Inr _ \<Rightarrow> goto t U_rel s)
      | _ \<Rightarrow> alloc_step t s)"

definition init_state :: "u_state \<Rightarrow> u_state" where
  "init_state s = s\<lparr>mgr := snd (allocate_map (mgr s)), thread_counter := 0\<rparr>"

text \<open>\<open>rc k\<close> is the return code of the \<open>k\<close>-th checked call of \<open>main\<close>: the attributes, then the threads.\<close>

definition main_step :: "(nat \<Rightarrow> int) \<Rightarrow> u_state \<Rightarrow> u_state option" where
  "main_step rc s = (case u_main s of
     UM_init \<Rightarrow> Some (if rc 0 \<noteq> 0 then abort (init_state s) else (init_state s)\<lparr>u_main := UM_create 0\<rparr>)
   | UM_create i \<Rightarrow> Some (
       if i < NUM_WORKER_THREADS
       then if rc (i + 1) \<noteq> 0 then abort s
            else s\<lparr>at := (at s)(i := U_cnt), u_main := UM_create (i + 1)\<rparr>
       else s\<lparr>u_main := UM_join 0\<rparr>)
   | UM_join i \<Rightarrow>
       if i < NUM_WORKER_THREADS
       then if at s i = U_exited then Some (s\<lparr>u_main := UM_join (i + 1)\<rparr>) else None
       else Some (s\<lparr>u_main := UM_exit\<rparr>)
   | UM_exit \<Rightarrow> None)"

fun u_step :: "(nat \<Rightarrow> int) \<Rightarrow> u_event \<Rightarrow> u_state \<Rightarrow> u_state option" where
  "u_step rc UMain s = (if aborted s then None else main_step rc s)"
| "u_step rc (UWorker t r) s = (if aborted s then None else worker_step t r s)"

section \<open>A worker that is not interrupted\<close>

text \<open>\<open>solo\<close> runs worker \<open>t\<close> alone; \<open>r\<close> is the value of its call of \<open>rand()\<close>.\<close>

definition solo :: "(nat \<Rightarrow> int) \<Rightarrow> nat \<Rightarrow> int \<Rightarrow> u_state \<Rightarrow> u_state \<Rightarrow> bool" where
  "solo rc t r s s' \<longleftrightarrow> (\<exists>k. run (u_step rc) (replicate k (UWorker t r)) s = Some s')"

lemma solo_refl: "solo rc t r s s"
  unfolding solo_def by (rule exI [of _ 0]) simp

lemma solo_step:
  assumes "u_step rc (UWorker t r) s = Some s1" "solo rc t r s1 s'"
  shows "solo rc t r s s'"
proof -
  from assms(2) obtain k where "run (u_step rc) (replicate k (UWorker t r)) s1 = Some s'"
    by (auto simp: solo_def)
  then have "run (u_step rc) (replicate (Suc k) (UWorker t r)) s = Some s'" using assms(1) by simp
  then show ?thesis unfolding solo_def by blast
qed

lemma solo_trans:
  assumes "solo rc t r s s1" "solo rc t r s1 s'"
  shows "solo rc t r s s'"
proof -
  from assms obtain k l where "run (u_step rc) (replicate k (UWorker t r)) s = Some s1"
    "run (u_step rc) (replicate l (UWorker t r)) s1 = Some s'" by (auto simp: solo_def)
  then have "run (u_step rc) (replicate (k + l) (UWorker t r)) s = Some s'"
    by (simp add: replicate_add run_append)
  then show ?thesis unfolding solo_def by blast
qed

lemmas u_defs = worker_step_def alloc_step_def release_step_def in_release_def goto_def load_def
  check_def abort_def rand_sleep_def MAX_SLEEP_TIME_def

text \<open>What a worker leaves alone, and its record of the rest.\<close>

definition others :: "nat \<Rightarrow> u_state \<Rightarrow> u_state \<Rightarrow> bool" where
  "others t s s' \<longleftrightarrow> u_main s' = u_main s \<and> (\<forall>u. u \<noteq> t \<longrightarrow> at s' u = at s u \<and> my_pid s' u = my_pid s u)"

lemma others_refl [simp]: "others t s s"
  by (simp add: others_def)

lemma others_trans: "others t s s1 \<Longrightarrow> others t s1 s' \<Longrightarrow> others t s s'"
  by (simp add: others_def)

lemma solo_steps: "run (u_step rc) (replicate k (UWorker t r)) s = Some s' \<Longrightarrow> solo rc t r s s'"
  by (auto simp: solo_def)

lemma search_iter:
  assumes "at s t = U_loop" "\<not> aborted s" "iter_count s t < PID_STATE_BUF_SIZE"
    "c_read (pid_alloc_state (mgr s)) (next_free_pid_index (mgr s)) = Inr PID_IS_IN_USE"
  shows "\<exists>s'. run (u_step rc) (replicate 6 (UWorker t r)) s = Some s' \<and> at s' t = U_loop \<and> \<not> aborted s' \<and>
    others t s s' \<and> iter_count s' t = iter_count s t + 1 \<and> thread_counter s' = thread_counter s \<and>
    mgr s' = (mgr s)\<lparr>next_free_pid_index := (next_free_pid_index (mgr s) + 1) mod PID_STATE_BUF_SIZE\<rparr>"
  using assms by (simp add: u_defs others_def numeral_eq_Suc del: PID_STATE_BUF_SIZE_eq)

lemma search_end:
  assumes "at s t = U_loop" "\<not> aborted s" "\<not> (v = PID_IS_IN_USE \<and> iter_count s t < PID_STATE_BUF_SIZE)"
    "c_read (pid_alloc_state (mgr s)) (next_free_pid_index (mgr s)) = Inr v"
  shows "\<exists>s'. run (u_step rc) (replicate 2 (UWorker t r)) s = Some s' \<and> at s' t = U_found \<and> \<not> aborted s' \<and>
    others t s s' \<and> thread_counter s' = thread_counter s \<and> mgr s' = mgr s"
  using assms by (simp add: u_defs others_def numeral_eq_Suc del: PID_STATE_BUF_SIZE_eq)

lemma search_simulated:
  assumes "pid_search (pid_alloc_state m) idx it = Inr (idx', it')"
    "at s t = U_loop" "\<not> aborted s" "mgr s = m\<lparr>next_free_pid_index := idx\<rparr>" "iter_count s t = it"
  shows "\<exists>s'. solo rc t r s s' \<and> at s' t = U_found \<and> \<not> aborted s' \<and> others t s s' \<and>
    thread_counter s' = thread_counter s \<and> mgr s' = m\<lparr>next_free_pid_index := idx'\<rparr>"
  using assms
proof (induction "pid_alloc_state m" idx it arbitrary: s rule: pid_search.induct)
  case (1 idx it)
  from "1.prems"(1) obtain v where v: "c_read (pid_alloc_state m) idx = Inr v"
    by (subst (asm) pid_search.simps) (auto split: sum.splits)
  show ?case
  proof (cases "v = PID_IS_IN_USE \<and> it < PID_STATE_BUF_SIZE")
    case True
    then have search: "pid_search (pid_alloc_state m) ((idx + 1) mod PID_STATE_BUF_SIZE) (it + 1) = Inr (idx', it')"
      using "1.prems"(1) v by (subst (asm) pid_search.simps) (simp del: PID_STATE_BUF_SIZE_eq)
    from search_iter [of s t rc r] "1.prems" v True obtain s1 where
      s1: "run (u_step rc) (replicate 6 (UWorker t r)) s = Some s1" "at s1 t = U_loop" "\<not> aborted s1"
      "others t s s1" "iter_count s1 t = it + 1" "thread_counter s1 = thread_counter s"
      "mgr s1 = m\<lparr>next_free_pid_index := (idx + 1) mod PID_STATE_BUF_SIZE\<rparr>"
      by (auto simp del: PID_STATE_BUF_SIZE_eq)
    from "1.hyps" [OF v True search s1(2,3,7,5)] obtain s' where
      "solo rc t r s1 s'" "at s' t = U_found" "\<not> aborted s'" "others t s1 s'"
      "thread_counter s' = thread_counter s1" "mgr s' = m\<lparr>next_free_pid_index := idx'\<rparr>" by blast
    then show ?thesis using solo_steps [OF s1(1)] s1(4,6) by (metis solo_trans others_trans)
  next
    case False
    then have "idx' = idx" using "1.prems"(1) v by (subst (asm) pid_search.simps) (auto simp del: PID_STATE_BUF_SIZE_eq)
    moreover obtain s' where "run (u_step rc) (replicate 2 (UWorker t r)) s = Some s'" "at s' t = U_found"
      "\<not> aborted s'" "others t s s'" "thread_counter s' = thread_counter s" "mgr s' = mgr s"
      using search_end [of s t v rc r] "1.prems" v False by auto
    ultimately show ?thesis using "1.prems"(4) by (metis solo_steps)
  qed
qed

lemma alloc_begin:
  assumes "at s t = U_assert" "\<not> aborted s"
    "0 \<le> pid_in_use_count (mgr s)" "pid_in_use_count (mgr s) < PID_STATE_BUF_SIZE"
  shows "\<exists>s'. run (u_step rc) (replicate 2 (UWorker t r)) s = Some s' \<and> at s' t = U_loop \<and> \<not> aborted s' \<and>
    others t s s' \<and> iter_count s' t = 0 \<and> thread_counter s' = thread_counter s \<and> mgr s' = mgr s"
  using assms by (simp add: u_defs others_def numeral_eq_Suc del: PID_STATE_BUF_SIZE_eq)

lemma alloc_end:
  assumes "at s t = U_found" "\<not> aborted s" "next_free_pid_index (mgr s) = i"
    "c_read (pid_alloc_state (mgr s)) i = Inr PID_IS_AVAILABLE"
    "c_write (pid_alloc_state (mgr s)) i PID_IS_IN_USE = Inr st"
  shows "\<exists>s'. run (u_step rc) (replicate 11 (UWorker t r)) s = Some s' \<and> at s' t = U_got \<and> \<not> aborted s' \<and>
    others t s s' \<and> my_pid s' t = i + MIN_PID \<and> thread_counter s' = thread_counter s \<and>
    mgr s' = (mgr s)\<lparr>pid_alloc_state := st, pid_in_use_count := pid_in_use_count (mgr s) + 1,
      next_free_pid_index := (i + 1) mod PID_STATE_BUF_SIZE\<rparr>"
  using assms by (simp add: u_defs others_def numeral_eq_Suc del: PID_STATE_BUF_SIZE_eq)

text \<open>An uninterrupted call of \<open>allocate_pid\<close> has the result and the effect of the sequential one.\<close>

lemma alloc_simulated:
  assumes "allocate_pid (mgr s) = Inr (p, m')" "at s t = U_assert" "\<not> aborted s"
  shows "\<exists>s'. solo rc t r s s' \<and> at s' t = U_got \<and> \<not> aborted s' \<and> others t s s' \<and>
    my_pid s' t = p \<and> thread_counter s' = thread_counter s \<and> mgr s' = m'"
proof (cases "pid_in_use_count (mgr s) \<ge> PID_STATE_BUF_SIZE")
  case True
  then have "p = -1" "m' = mgr s" "pid_in_use_count (mgr s) = PID_STATE_BUF_SIZE"
    using assms(1) by (auto simp: allocate_pid_def simp del: PID_STATE_BUF_SIZE_eq split: if_splits)
  then have "\<exists>s'. run (u_step rc) (replicate 2 (UWorker t r)) s = Some s' \<and> at s' t = U_got \<and> \<not> aborted s' \<and>
      others t s s' \<and> my_pid s' t = p \<and> thread_counter s' = thread_counter s \<and> mgr s' = m'"
    using assms(2,3) by (simp add: u_defs others_def numeral_eq_Suc)
  then show ?thesis using solo_steps by metis
next
  case False
  then obtain idx it st where search: "pid_search (pid_alloc_state (mgr s)) (next_free_pid_index (mgr s)) 0 = Inr (idx, it)"
    and st: "c_read (pid_alloc_state (mgr s)) idx = Inr PID_IS_AVAILABLE"
      "c_write (pid_alloc_state (mgr s)) idx PID_IS_IN_USE = Inr st"
    and p: "p = idx + MIN_PID" "m' = (mgr s)\<lparr>pid_alloc_state := st, pid_in_use_count := pid_in_use_count (mgr s) + 1,
      next_free_pid_index := (idx + 1) mod PID_STATE_BUF_SIZE\<rparr>"
    and cnt: "0 \<le> pid_in_use_count (mgr s)"
    using assms(1) by (auto simp: allocate_pid_def c_bind_Inr_iff simp del: PID_STATE_BUF_SIZE_eq split: if_splits prod.splits)
  from alloc_begin [OF assms(2,3) cnt, of rc r] False obtain s1 where
    s1: "run (u_step rc) (replicate 2 (UWorker t r)) s = Some s1" "at s1 t = U_loop" "\<not> aborted s1"
    "others t s s1" "iter_count s1 t = 0" "thread_counter s1 = thread_counter s" "mgr s1 = mgr s" by auto
  from search_simulated [OF search s1(2,3), of rc r] s1(5,7) obtain s2 where
    s2: "solo rc t r s1 s2" "at s2 t = U_found" "\<not> aborted s2" "others t s1 s2"
    "thread_counter s2 = thread_counter s1" "mgr s2 = (mgr s)\<lparr>next_free_pid_index := idx\<rparr>" by auto
  from alloc_end [OF s2(2,3), of idx st rc r] s2(6) st obtain s3 where
    s3: "run (u_step rc) (replicate 11 (UWorker t r)) s2 = Some s3" "at s3 t = U_got" "\<not> aborted s3"
    "others t s2 s3" "my_pid s3 t = p" "thread_counter s3 = thread_counter s2" "mgr s3 = m'"
    by (auto simp: p simp del: PID_STATE_BUF_SIZE_eq)
  have "solo rc t r s s3" by (rule solo_trans [OF solo_steps [OF s1(1)] solo_trans [OF s2(1) solo_steps [OF s3(1)]]])
  moreover have "others t s s3" by (rule others_trans [OF s1(4) others_trans [OF s2(4) s3(4)]])
  ultimately show ?thesis using s1 s2 s3 by (intro exI [of _ s3]) simp
qed

lemma release_simulated:
  assumes "release_pid (my_pid s t) (mgr s) = Inr m'" "at s t = U_rel" "\<not> aborted s"
  shows "\<exists>s'. run (u_step rc) (replicate 7 (UWorker t r)) s = Some s' \<and> at s' t = U_exited \<and> \<not> aborted s' \<and>
    others t s s' \<and> thread_counter s' = thread_counter s \<and> mgr s' = m'"
proof -
  obtain st where "pid_in_use_count (mgr s) > 0" "pid_in_use_count (mgr s) \<le> PID_STATE_BUF_SIZE"
    "my_pid s t \<ge> MIN_PID" "my_pid s t \<le> MAX_PID"
    "c_read (pid_alloc_state (mgr s)) (my_pid s t - MIN_PID) = Inr PID_IS_IN_USE"
    "c_write (pid_alloc_state (mgr s)) (my_pid s t - MIN_PID) PID_IS_AVAILABLE = Inr st"
    "m' = (mgr s)\<lparr>pid_alloc_state := st, pid_in_use_count := pid_in_use_count (mgr s) - 1\<rparr>"
    using assms(1) by (auto simp: release_pid_def c_bind_Inr_iff simp del: PID_STATE_BUF_SIZE_eq split: if_splits)
  then show ?thesis using assms(2,3)
    by (simp add: u_defs others_def numeral_eq_Suc del: PID_STATE_BUF_SIZE_eq)
qed

lemma worker_begins:
  assumes "at s t = U_cnt" "\<not> aborted s"
  shows "\<exists>s'. run (u_step rc) (replicate 2 (UWorker t r)) s = Some s' \<and> at s' t = U_assert \<and> \<not> aborted s' \<and>
    others t s s' \<and> thread_counter s' = thread_counter s + 1 \<and> mgr s' = mgr s"
  using assms by (simp add: u_defs others_def numeral_eq_Suc)

lemma worker_sleeps:
  assumes "at s t = U_got" "\<not> aborted s" "my_pid s t \<noteq> -1" "0 \<le> r"
  shows "\<exists>s'. run (u_step rc) (replicate 2 (UWorker t r)) s = Some s' \<and> at s' t = U_rel \<and> \<not> aborted s' \<and>
    others t s s' \<and> my_pid s' t = my_pid s t \<and> thread_counter s' = thread_counter s \<and> mgr s' = mgr s"
  using assms by (simp add: u_defs others_def numeral_eq_Suc)

lemma worker_gives_up:
  assumes "at s t = U_got" "\<not> aborted s" "my_pid s t = -1"
  shows "\<exists>s'. run (u_step rc) (replicate 1 (UWorker t r)) s = Some s' \<and> at s' t = U_exited \<and> \<not> aborted s' \<and>
    others t s s' \<and> thread_counter s' = thread_counter s \<and> mgr s' = mgr s"
  using assms by (simp add: u_defs others_def)

text \<open>The consequence: a worker served alone takes and returns an identifier nobody holds.\<close>

lemma solo_worker:
  assumes "pid_inv (mgr s)" "at s t = U_cnt" "\<not> aborted s" "0 \<le> r"
  shows "\<exists>s'. solo rc t r s s' \<and> at s' t = U_exited \<and> \<not> aborted s' \<and> others t s s' \<and>
    thread_counter s' = thread_counter s + 1 \<and> pid_inv (mgr s') \<and> in_use (mgr s') = in_use (mgr s)"
proof -
  from worker_begins [OF assms(2,3), of rc r] obtain s1 where
    s1: "run (u_step rc) (replicate 2 (UWorker t r)) s = Some s1" "at s1 t = U_assert" "\<not> aborted s1"
    "others t s s1" "thread_counter s1 = thread_counter s + 1" "mgr s1 = mgr s" by blast
  from pm.alloc_total [OF assms(1)] obtain p m1 where m1: "allocate_pid (mgr s) = Inr (p, m1)" "pid_inv m1" by blast
  from alloc_simulated [of s1 p m1 t rc r] m1(1) s1 obtain s2 where
    s2: "solo rc t r s1 s2" "at s2 t = U_got" "\<not> aborted s2" "others t s1 s2" "my_pid s2 t = p"
    "thread_counter s2 = thread_counter s1" "mgr s2 = m1" by auto
  have s12: "solo rc t r s s2" "others t s s2"
    using solo_trans [OF solo_steps [OF s1(1)] s2(1)] others_trans [OF s1(4) s2(4)] by simp_all
  show ?thesis
  proof (cases "in_use (mgr s) = pids")
    case True
    then have "p = -1" "m1 = mgr s" using m1(1) pm.alloc_full [OF assms(1)] by auto
    with worker_gives_up [OF s2(2,3), of rc r] s2(5) obtain s3 where
      "run (u_step rc) (replicate 1 (UWorker t r)) s2 = Some s3" "at s3 t = U_exited" "\<not> aborted s3"
      "others t s2 s3" "thread_counter s3 = thread_counter s2" "mgr s3 = mgr s2" by blast
    moreover from this(1) have "solo rc t r s s3" by (rule solo_trans [OF s12(1) solo_steps])
    ultimately show ?thesis using s12 s2 s1 assms(1) \<open>m1 = mgr s\<close> others_trans [OF s12(2)]
      by (intro exI [of _ s3]) simp
  next
    case False
    from pm.alloc_fresh [OF assms(1) False] m1(1) have
      p: "p \<in> pids - in_use (mgr s)" "in_use m1 = insert p (in_use (mgr s))" by auto
    then have "p \<in> in_use m1" "p \<noteq> -1" using pm.ids_valid by auto
    from worker_sleeps [OF s2(2,3) _ assms(4), of rc] \<open>p \<noteq> -1\<close> s2(5) obtain s3 where
      s3: "run (u_step rc) (replicate 2 (UWorker t r)) s2 = Some s3" "at s3 t = U_rel" "\<not> aborted s3"
      "others t s2 s3" "my_pid s3 t = p" "thread_counter s3 = thread_counter s2" "mgr s3 = m1"
      using s2(7) by auto
    from release_pid_used [OF m1(2) \<open>p \<in> in_use m1\<close>] obtain m2 where
      m2: "release_pid p m1 = Inr m2" "in_use m2 = in_use m1 - {p}" "pid_inv m2" by blast
    from release_simulated [of s3 t m2 rc r] m2(1) s3 obtain s4 where
      s4: "run (u_step rc) (replicate 7 (UWorker t r)) s3 = Some s4" "at s4 t = U_exited" "\<not> aborted s4"
      "others t s3 s4" "thread_counter s4 = thread_counter s3" "mgr s4 = m2" by auto
    have "solo rc t r s s4"
      by (rule solo_trans [OF s12(1) solo_trans [OF solo_steps [OF s3(1)] solo_steps [OF s4(1)]]])
    moreover have "others t s s4" by (rule others_trans [OF s12(2) others_trans [OF s3(4) s4(4)]])
    moreover have "in_use m2 = in_use (mgr s)" using m2(2) p by auto
    ultimately show ?thesis using s1 s2 s3 s4 m2 by (intro exI [of _ s4]) simp
  qed
qed

section \<open>Properties\<close>

text \<open>C27: Without interruption the unlocked allocate_pid of pp4_20 is the sequential one: from any state of the
  manager in which the sequential function returns, the worker's steps end at the return with the
  same result and the same manager, without a failed assertion, and change nothing of the other threads.\<close>

theorem unlocked_alloc_sequential:
  assumes "allocate_pid (mgr s) = Inr (p, m')" "at s t = U_assert" "\<not> aborted s"
  shows "\<exists>k s'. run (u_step rc) (replicate k (UWorker t r)) s = Some s' \<and> at s' t = U_got \<and> \<not> aborted s' \<and>
    my_pid s' t = p \<and> mgr s' = m' \<and> (\<forall>u. u \<noteq> t \<longrightarrow> at s' u = at s u \<and> my_pid s' u = my_pid s u)"
  using alloc_simulated [OF assms, of rc r] unfolding solo_def others_def by metis

definition one_worker :: u_state where
  "one_worker = u_init\<lparr>at := (\<lambda>_. U_unborn)(0 := U_assert), u_main := UM_create 1\<rparr>"

theorem unlocked_alloc_sequential_witness:
  "\<exists>k s'. run (u_step (\<lambda>_. 0)) (replicate k (UWorker 0 0)) one_worker = Some s' \<and> at s' 0 = U_got \<and> my_pid s' 0 \<in> pids"
proof -
  have "in_use pid_mgr_init \<noteq> pids" unfolding pid_mgr_init_inv(2) by (simp add: pids_def pid_consts)
  from pm.alloc_fresh [OF pid_mgr_init_inv(1) this] obtain p m' where
    p: "allocate_pid pid_mgr_init = Inr (p, m')" "p \<in> pids" by auto
  have "allocate_pid (mgr one_worker) = Inr (p, m')" "at one_worker 0 = U_assert" "\<not> aborted one_worker"
    using p(1) by (simp_all add: one_worker_def u_init_def)
  from unlocked_alloc_sequential [OF this, of "\<lambda>_. 0" 0] p(2) show ?thesis by blast
qed

text \<open>C26: The race that the mutex of pp5_36 removes is real in pp4_20: a schedule of two workers gives both the
  identifier 300, counts both workers as one, and from there a further schedule makes the second release fail an assertion.\<close>

theorem unlocked_race:
  "\<exists>s. reachable (u_step (\<lambda>_. 0)) u_init s \<and> at s 0 = U_sleep \<and> at s 1 = U_sleep \<and> my_pid s 0 = 300 \<and> my_pid s 1 = 300 \<and>
     thread_counter s = 1 \<and> \<not> aborted s \<and> (\<exists>es s'. run (u_step (\<lambda>_. 0)) es s = Some s' \<and> aborted s')"
proof -
  let ?S = "[UMain, UMain, UMain] @ concat (replicate 18 [UWorker 0 0, UWorker 1 0])"
  let ?E = "replicate 8 (UWorker 0 0) @ replicate 2 (UWorker 1 0)"
  have "map_option (\<lambda>s. (at s 0, at s 1, my_pid s 0, my_pid s 1, thread_counter s, aborted s,
      map_option aborted (run (u_step (\<lambda>_. 0)) ?E s))) (run (u_step (\<lambda>_. 0)) ?S u_init)
    = Some (U_sleep, U_sleep, 300, 300, 1, False, Some True)" by code_simp
  then obtain s s' where s: "run (u_step (\<lambda>_. 0)) ?S u_init = Some s" "at s 0 = U_sleep" "at s 1 = U_sleep"
    "my_pid s 0 = 300" "my_pid s 1 = 300" "thread_counter s = 1" "\<not> aborted s"
    and s': "run (u_step (\<lambda>_. 0)) ?E s = Some s'" "aborted s'"
    by (auto simp del: run.simps replicate.simps)
  from run_reachable [OF reachable.start s(1)] s s' show ?thesis by blast
qed

end
