(* ===== verification/Teaching_Assistant.thy ===== *)
theory Teaching_Assistant
  imports Posix_Sync
begin

text \<open>
  The sleeping teaching assistant of \<open>ch5/projects/proj1/posix-unnamed-sem-TA.c\<close>: five student
  threads, three chairs outside the office, one TA thread, coordinated by eight semaphores. One
  step is one semaphore operation or one read or write of shared data, so \<open>free_chairs_count--\<close> is
  a read and a write. \<open>acquire_chair\<close>, \<open>acquire_TA\<close> and \<open>Student_thread_func\<close> are the students'
  functions, \<open>TA_take_nap\<close>, \<open>check_for_waiting_students\<close>, \<open>TA_help_next_student\<close> and
  \<open>TA_thread_func\<close> those of the TA. The program never calls \<open>sem_init\<close> on \<open>Chair_outside_sem\<close>; as
  a static object it is all zero, and the model lets it count from 0.
\<close>

section \<open>State\<close>

definition MAX_STUDENT_PROG_TIME :: int where
  "MAX_STUDENT_PROG_TIME = 7"

definition MAX_WITH_TA_TIME :: int where
  "MAX_WITH_TA_TIME = 3"

definition NUM_STUDENTS :: nat where
  "NUM_STUDENTS = 5"

definition NUM_TA_CHAIRS :: nat where
  "NUM_TA_CHAIRS = 3"

datatype STUDENT_STATE = PROGRAMMING | WAITING_FOR_TA | WITH_TA

datatype TA_STATE = NAPPING | TEACHING

datatype stu_pc =
    S_unborn | S_id | S_prog
  | C_try | C_assert | C_help | C_help1 | C_dec | C_dec_w | C_state | C_outside | C_inc | C_inc_w | C_post
  | S_test | S_back
  | A_lock | A_with | A_help2 | A_office | A_leave | A_unlock | A_help3

datatype ta_pc =
    T_unborn | T_nap | T_nap_wait | T_wake
  | W_help1 | W_call
  | H_help2 | H_assert | H_assert_state | H_with | H_teach | H_prog | H_office | H_help3
  | T_exited

datatype tm_pc = M_init | M_ta | M_ta_created | M_create nat | M_created nat | M_join_ta | M_join nat | M_cleanup | M_exit

record ta_state =
  Students :: "STUDENT_STATE list"
  Ta :: TA_STATE
  TA_tid :: "tid option"
  Stu_tid :: "nat \<Rightarrow> tid option"
  TA_lock_sem :: sem
  TA_office_chair_sem :: sem
  TA_help_request_sem :: sem
  TA_help_request_sem1 :: sem
  TA_help_request_sem2 :: sem
  TA_help_request_sem3 :: sem
  Chair_outside_sem :: sem
  Wait_chairs_sem :: sem
  student_with_TA :: int
  free_chairs_count :: int
  student_id :: "tid \<Rightarrow> nat"
  tmp :: "tid \<Rightarrow> int"
  stu_at :: "tid \<Rightarrow> stu_pc"
  ta_at :: ta_pc
  tm_at :: tm_pc
  stopped :: "c_abort option"

text \<open>The TA's thread identifier; the students have 0 to 4.\<close>

definition ta_tid :: tid where
  "ta_tid = NUM_STUDENTS"

definition ta_init :: ta_state where
  "ta_init = \<lparr>Students = replicate NUM_STUDENTS PROGRAMMING, Ta = NAPPING, TA_tid = None, Stu_tid = (\<lambda>_. None),
     TA_lock_sem = 0, TA_office_chair_sem = 0, TA_help_request_sem = 0, TA_help_request_sem1 = 0,
     TA_help_request_sem2 = 0, TA_help_request_sem3 = 0, Chair_outside_sem = 0, Wait_chairs_sem = 0,
     student_with_TA = 0, free_chairs_count = 0, student_id = (\<lambda>_. 0), tmp = (\<lambda>_. 0),
     stu_at = (\<lambda>_. S_unborn), ta_at = T_unborn, tm_at = M_init, stopped = None\<rparr>"

section \<open>Steps\<close>

definition fail :: "c_abort \<Rightarrow> ta_state \<Rightarrow> ta_state" where
  "fail e s = s\<lparr>stopped := Some e\<rparr>"

definition stu_goto :: "tid \<Rightarrow> stu_pc \<Rightarrow> ta_state \<Rightarrow> ta_state" where
  "stu_goto t p s = s\<lparr>stu_at := (stu_at s)(t := p)\<rparr>"

definition ta_goto :: "ta_pc \<Rightarrow> ta_state \<Rightarrow> ta_state" where
  "ta_goto p s = s\<lparr>ta_at := p\<rparr>"

text \<open>\<open>rc k\<close> is the return code of the \<open>k\<close>-th \<open>sem_init\<close>.\<close>

definition init_lines :: "nat list" where
  "init_lines = [199, 205, 211, 217, 222, 228, 236]"

definition init_state :: "(nat \<Rightarrow> int) \<Rightarrow> ta_state \<Rightarrow> ta_state c_result" where
  "init_state rc s = c_bind (checked_calls rc 0 init_lines) (\<lambda>_. Inr (s\<lparr>student_with_TA := -1, Ta := NAPPING, Students := replicate NUM_STUDENTS PROGRAMMING,
     TA_lock_sem := 1, TA_office_chair_sem := 0, TA_help_request_sem := 0, TA_help_request_sem1 := 0,
     TA_help_request_sem2 := 0, TA_help_request_sem3 := 0, free_chairs_count := int NUM_TA_CHAIRS,
     Wait_chairs_sem := NUM_TA_CHAIRS\<rparr>))"

text \<open>\<open>rand_sleep\<close>: the time slept, for the value \<open>r\<close> of \<open>rand()\<close>; -1 identifies the TA.\<close>

definition rand_sleep :: "int \<Rightarrow> int \<Rightarrow> int \<Rightarrow> int c_result" where
  "rand_sleep stu mx r = (if \<not> (stu \<ge> -1 \<and> mx > 0) then Inl (Assertion 340) else Inr (r mod mx + 1))"

function find_student :: "(nat \<Rightarrow> tid option) \<Rightarrow> nat \<Rightarrow> tid \<Rightarrow> nat c_result" where
  "find_student tids i t =
     (if i < NUM_STUDENTS then if tids i = Some t then Inr i else find_student tids (i + 1) t
      else Inl (Assertion 455))"
  by pat_completeness auto
termination
  by (relation "measure (\<lambda>(tids, i, t). NUM_STUDENTS - i)") auto

declare find_student.simps [simp del]

definition get_student_id :: "tid \<Rightarrow> ta_state \<Rightarrow> nat c_result" where
  "get_student_id t s = (if TA_tid s = Some t then Inl (Assertion 447) else find_student (Stu_tid s) 0 t)"

definition student_programming :: "tid \<Rightarrow> int \<Rightarrow> ta_state \<Rightarrow> ta_state" where
  "student_programming t r s = (case rand_sleep (int (student_id s t)) MAX_STUDENT_PROG_TIME r of
     Inl e \<Rightarrow> fail e s | Inr _ \<Rightarrow> stu_goto t C_try s)"

text \<open>
  \<open>acquire_chair\<close>: without a free chair it returns at once. \<open>S_test\<close> and \<open>S_back\<close> are the same statement,
  reached with and without a chair.
\<close>

definition acquire_chair :: "tid \<Rightarrow> ta_state \<Rightarrow> ta_state option" where
  "acquire_chair t s = (case stu_at s t of
     C_try \<Rightarrow> Some (if TA_tid s = Some t then fail (Assertion 465) s
       else case sem_wait (Wait_chairs_sem s) of
           None \<Rightarrow> stu_goto t S_back s
         | Some v \<Rightarrow> stu_goto t C_assert (s\<lparr>Wait_chairs_sem := v\<rparr>))
   | C_assert \<Rightarrow> Some (if free_chairs_count s \<ge> 0 then stu_goto t C_help s else fail (Assertion 476) s)
   | C_help \<Rightarrow> Some (case sem_post (TA_help_request_sem s) of
       None \<Rightarrow> fail (Assertion 479) s | Some v \<Rightarrow> stu_goto t C_help1 (s\<lparr>TA_help_request_sem := v\<rparr>))
   | C_help1 \<Rightarrow> Some (case sem_post (TA_help_request_sem1 s) of
       None \<Rightarrow> fail (Assertion 484) s | Some v \<Rightarrow> stu_goto t C_dec (s\<lparr>TA_help_request_sem1 := v\<rparr>))
   | C_dec \<Rightarrow> Some (stu_goto t C_dec_w (s\<lparr>tmp := (tmp s)(t := free_chairs_count s)\<rparr>))
   | C_dec_w \<Rightarrow> Some (stu_goto t C_state (s\<lparr>free_chairs_count := tmp s t - 1\<rparr>))
   | C_state \<Rightarrow> Some (case c_write (Students s) (int (student_id s t)) WAITING_FOR_TA of
       Inl e \<Rightarrow> fail e s | Inr xs \<Rightarrow> stu_goto t C_outside (s\<lparr>Students := xs\<rparr>))
   | C_outside \<Rightarrow> map_option (\<lambda>v. stu_goto t C_inc (s\<lparr>Chair_outside_sem := v\<rparr>)) (sem_wait (Chair_outside_sem s))
   | C_inc \<Rightarrow> Some (stu_goto t C_inc_w (s\<lparr>tmp := (tmp s)(t := free_chairs_count s)\<rparr>))
   | C_inc_w \<Rightarrow> Some (stu_goto t C_post (s\<lparr>free_chairs_count := tmp s t + 1\<rparr>))
   | C_post \<Rightarrow> Some (case sem_post (Wait_chairs_sem s) of
       None \<Rightarrow> fail (Assertion 499) s | Some v \<Rightarrow> stu_goto t S_test (s\<lparr>Wait_chairs_sem := v\<rparr>))
   | _ \<Rightarrow> None)"

definition acquire_TA :: "tid \<Rightarrow> ta_state \<Rightarrow> ta_state option" where
  "acquire_TA t s = (case stu_at s t of
     A_lock \<Rightarrow> if TA_tid s = Some t then Some (fail (Assertion 374) s)
       else map_option (\<lambda>v. stu_goto t A_with (s\<lparr>TA_lock_sem := v\<rparr>)) (sem_wait (TA_lock_sem s))
   | A_with \<Rightarrow> Some (stu_goto t A_help2 (s\<lparr>student_with_TA := int (student_id s t)\<rparr>))
   | A_help2 \<Rightarrow> Some (case sem_post (TA_help_request_sem2 s) of
       None \<Rightarrow> fail (Assertion 405) s | Some v \<Rightarrow> stu_goto t A_office (s\<lparr>TA_help_request_sem2 := v\<rparr>))
   | A_office \<Rightarrow> map_option (\<lambda>v. stu_goto t A_leave (s\<lparr>TA_office_chair_sem := v\<rparr>)) (sem_wait (TA_office_chair_sem s))
   | A_leave \<Rightarrow> Some (stu_goto t A_unlock (s\<lparr>student_with_TA := -1\<rparr>))
   | A_unlock \<Rightarrow> Some (case sem_post (TA_lock_sem s) of
       None \<Rightarrow> fail (Assertion 423) s | Some v \<Rightarrow> stu_goto t A_help3 (s\<lparr>TA_lock_sem := v\<rparr>))
   | A_help3 \<Rightarrow> Some (case sem_post (TA_help_request_sem3 s) of
       None \<Rightarrow> fail (Assertion 429) s | Some v \<Rightarrow> stu_goto t S_prog (s\<lparr>TA_help_request_sem3 := v\<rparr>))
   | _ \<Rightarrow> None)"

definition in_acquire_TA :: "stu_pc \<Rightarrow> bool" where
  "in_acquire_TA p \<longleftrightarrow> p \<in> {A_lock, A_with, A_help2, A_office, A_leave, A_unlock, A_help3}"

definition test_state :: "tid \<Rightarrow> ta_state \<Rightarrow> ta_state" where
  "test_state t s = (case c_read (Students s) (int (student_id s t)) of
     Inl e \<Rightarrow> fail e s | Inr v \<Rightarrow> stu_goto t (if v = WAITING_FOR_TA then A_lock else S_prog) s)"

definition Student_thread_func :: "tid \<Rightarrow> int \<Rightarrow> ta_state \<Rightarrow> ta_state option" where
  "Student_thread_func t r s =
     (if in_acquire_TA (stu_at s t) then acquire_TA t s
      else case stu_at s t of
        S_unborn \<Rightarrow> None
      | S_id \<Rightarrow> Some (case get_student_id t s of
          Inl e \<Rightarrow> fail e s | Inr i \<Rightarrow> stu_goto t S_prog (s\<lparr>student_id := (student_id s)(t := i)\<rparr>))
      | S_prog \<Rightarrow> if r < 0 then None else Some (student_programming t r s)
      | S_test \<Rightarrow> Some (test_state t s)
      | S_back \<Rightarrow> Some (test_state t s)
      | _ \<Rightarrow> acquire_chair t s)"

text \<open>The TA. Its functions run one after the other in an endless loop.\<close>

definition TA_take_nap :: "ta_state \<Rightarrow> ta_state option" where
  "TA_take_nap s = (case ta_at s of
     T_nap \<Rightarrow> Some (if TA_tid s \<noteq> Some ta_tid then fail (Assertion 605) s else ta_goto T_nap_wait (s\<lparr>Ta := NAPPING\<rparr>))
   | T_nap_wait \<Rightarrow> map_option (\<lambda>v. ta_goto T_wake (s\<lparr>TA_help_request_sem := v\<rparr>)) (sem_wait (TA_help_request_sem s))
   | T_wake \<Rightarrow> Some (ta_goto W_help1 (s\<lparr>Ta := TEACHING\<rparr>))
   | _ \<Rightarrow> None)"

definition check_for_waiting_students :: "ta_state \<Rightarrow> ta_state option" where
  "check_for_waiting_students s = (case ta_at s of
     W_help1 \<Rightarrow> if TA_tid s \<noteq> Some ta_tid then Some (fail (Assertion 542) s)
       else map_option (\<lambda>v. ta_goto W_call (s\<lparr>TA_help_request_sem1 := v\<rparr>)) (sem_wait (TA_help_request_sem1 s))
   | W_call \<Rightarrow> Some (case sem_post (Chair_outside_sem s) of
       None \<Rightarrow> fail (Assertion 553) s | Some v \<Rightarrow> ta_goto H_help2 (s\<lparr>Chair_outside_sem := v\<rparr>))
   | _ \<Rightarrow> None)"

definition TA_help_next_student :: "int \<Rightarrow> ta_state \<Rightarrow> ta_state option" where
  "TA_help_next_student r s = (case ta_at s of
     H_help2 \<Rightarrow> if TA_tid s \<noteq> Some ta_tid then Some (fail (Assertion 566) s)
       else map_option (\<lambda>v. ta_goto H_assert (s\<lparr>TA_help_request_sem2 := v\<rparr>)) (sem_wait (TA_help_request_sem2 s))
   | H_assert \<Rightarrow> Some (if student_with_TA s \<ge> 0 then ta_goto H_assert_state s else fail (Assertion 575) s)
   | H_assert_state \<Rightarrow> Some (case c_read (Students s) (student_with_TA s) of
       Inl e \<Rightarrow> fail e s | Inr v \<Rightarrow> if v \<noteq> WITH_TA then ta_goto H_with s else fail (Assertion 580) s)
   | H_with \<Rightarrow> Some (case c_write (Students s) (student_with_TA s) WITH_TA of
       Inl e \<Rightarrow> fail e s | Inr xs \<Rightarrow> ta_goto H_teach (s\<lparr>Students := xs\<rparr>))
   | H_teach \<Rightarrow> if r < 0 then None else Some (case rand_sleep (-1) MAX_WITH_TA_TIME r of
       Inl e \<Rightarrow> fail e s | Inr _ \<Rightarrow> ta_goto H_prog s)
   | H_prog \<Rightarrow> Some (case c_write (Students s) (student_with_TA s) PROGRAMMING of
       Inl e \<Rightarrow> fail e s | Inr xs \<Rightarrow> ta_goto H_office (s\<lparr>Students := xs\<rparr>))
   | H_office \<Rightarrow> Some (case sem_post (TA_office_chair_sem s) of
       None \<Rightarrow> fail (Assertion 590) s | Some v \<Rightarrow> ta_goto H_help3 (s\<lparr>TA_office_chair_sem := v\<rparr>))
   | H_help3 \<Rightarrow> map_option (\<lambda>v. ta_goto T_nap (s\<lparr>TA_help_request_sem3 := v\<rparr>)) (sem_wait (TA_help_request_sem3 s))
   | _ \<Rightarrow> None)"

definition TA_thread_func :: "int \<Rightarrow> ta_state \<Rightarrow> ta_state option" where
  "TA_thread_func r s = (case ta_at s of
     T_unborn \<Rightarrow> None
   | T_exited \<Rightarrow> None
   | T_nap \<Rightarrow> TA_take_nap s
   | T_nap_wait \<Rightarrow> TA_take_nap s
   | T_wake \<Rightarrow> TA_take_nap s
   | W_help1 \<Rightarrow> check_for_waiting_students s
   | W_call \<Rightarrow> check_for_waiting_students s
   | _ \<Rightarrow> TA_help_next_student r s)"

text \<open>\<open>cleanup_state\<close>: \<open>rc k\<close> is the return code of the \<open>k\<close>-th \<open>sem_destroy\<close>.\<close>

definition cleanup_lines :: "nat list" where
  "cleanup_lines = [252, 257, 262, 267, 272, 277, 282, 287]"

fun cleanup_state :: "(nat \<Rightarrow> int) \<Rightarrow> nat \<Rightarrow> nat list \<Rightarrow> ta_state \<Rightarrow> ta_state" where
  "cleanup_state rc k [] s = s"
| "cleanup_state rc k (l # ls) s = (if rc k \<noteq> 0 then fail (Assertion l) s else cleanup_state rc (k + 1) ls s)"

text \<open>
  \<open>main\<close>. \<open>pthread_create\<close> starts a thread and stores its identifier; with \<open>store_first\<close> the identifier is
  stored before the thread runs, otherwise after it has been started. Its result is not looked at; it is taken to
  succeed.
\<close>

definition ta_main :: "bool \<Rightarrow> (nat \<Rightarrow> int) \<Rightarrow> (nat \<Rightarrow> int) \<Rightarrow> ta_state \<Rightarrow> ta_state option" where
  "ta_main store_first init_rc rc s = (case tm_at s of
     M_init \<Rightarrow> Some (case init_state init_rc s of Inl e \<Rightarrow> fail e s | Inr s' \<Rightarrow> s'\<lparr>tm_at := M_ta\<rparr>)
   | M_ta \<Rightarrow> Some (if store_first
       then s\<lparr>TA_tid := Some ta_tid, ta_at := T_nap, tm_at := M_create 0\<rparr>
       else s\<lparr>ta_at := T_nap, tm_at := M_ta_created\<rparr>)
   | M_ta_created \<Rightarrow> Some (s\<lparr>TA_tid := Some ta_tid, tm_at := M_create 0\<rparr>)
   | M_create i \<Rightarrow> Some (if i < NUM_STUDENTS
       then if store_first
            then s\<lparr>Stu_tid := (Stu_tid s)(i := Some i), stu_at := (stu_at s)(i := S_id), tm_at := M_create (i + 1)\<rparr>
            else s\<lparr>stu_at := (stu_at s)(i := S_id), tm_at := M_created i\<rparr>
       else s\<lparr>tm_at := M_join_ta\<rparr>)
   | M_created i \<Rightarrow> Some (s\<lparr>Stu_tid := (Stu_tid s)(i := Some i), tm_at := M_create (i + 1)\<rparr>)
   | M_join_ta \<Rightarrow> if ta_at s = T_exited then Some (s\<lparr>tm_at := M_join 0\<rparr>) else None
   | M_join i \<Rightarrow> if i < NUM_STUDENTS then None else Some (s\<lparr>tm_at := M_cleanup\<rparr>)
   | M_cleanup \<Rightarrow> Some ((cleanup_state rc 0 cleanup_lines s)\<lparr>tm_at := M_exit\<rparr>)
   | M_exit \<Rightarrow> None)"

datatype ta_event = TMain | TA_moves int | Student tid int

fun ta_step :: "bool \<Rightarrow> (nat \<Rightarrow> int) \<Rightarrow> (nat \<Rightarrow> int) \<Rightarrow> ta_event \<Rightarrow> ta_state \<Rightarrow> ta_state option" where
  "ta_step sf irc rc e s = (if stopped s \<noteq> None then None else case e of
     TMain \<Rightarrow> ta_main sf irc rc s | TA_moves r \<Rightarrow> TA_thread_func r s | Student t r \<Rightarrow> Student_thread_func t r s)"

section \<open>Invariant\<close>

text \<open>
  Accounts: the number of students at a set of program points, against the semaphores and the
  place of the TA.
\<close>

fun requested :: "stu_pc \<Rightarrow> int" where
  "requested C_help1 = 1"
| "requested C_dec = 1"
| "requested C_dec_w = 1"
| "requested C_state = 1"
| "requested C_outside = 1"
| "requested _ = 0"

fun seated :: "stu_pc \<Rightarrow> int" where
  "seated C_dec = 1"
| "seated C_dec_w = 1"
| "seated C_state = 1"
| "seated C_outside = 1"
| "seated _ = 0"

fun coming :: "stu_pc \<Rightarrow> int" where
  "coming C_inc = 1"
| "coming C_inc_w = 1"
| "coming C_post = 1"
| "coming S_test = 1"
| "coming A_lock = 1"
| "coming A_with = 1"
| "coming A_help2 = 1"
| "coming _ = 0"

fun sitting :: "stu_pc \<Rightarrow> int" where
  "sitting A_office = 1"
| "sitting _ = 0"

fun leaving :: "stu_pc \<Rightarrow> int" where
  "leaving A_leave = 1"
| "leaving A_unlock = 1"
| "leaving A_help3 = 1"
| "leaving _ = 0"

fun locked :: "stu_pc \<Rightarrow> int" where
  "locked A_with = 1"
| "locked A_help2 = 1"
| "locked A_office = 1"
| "locked A_leave = 1"
| "locked A_unlock = 1"
| "locked _ = 0"

fun chaired :: "stu_pc \<Rightarrow> int" where
  "chaired C_assert = 1"
| "chaired C_help = 1"
| "chaired C_help1 = 1"
| "chaired C_dec = 1"
| "chaired C_dec_w = 1"
| "chaired C_state = 1"
| "chaired C_outside = 1"
| "chaired C_inc = 1"
| "chaired C_inc_w = 1"
| "chaired C_post = 1"
| "chaired _ = 0"

fun awake :: "ta_pc \<Rightarrow> int" where
  "awake T_wake = 1"
| "awake W_help1 = 1"
| "awake W_call = 1"
| "awake _ = 0"

fun calling :: "ta_pc \<Rightarrow> int" where
  "calling W_call = 1"
| "calling _ = 0"

fun expecting :: "ta_pc \<Rightarrow> int" where
  "expecting H_help2 = 1"
| "expecting _ = 0"

fun helping :: "ta_pc \<Rightarrow> int" where
  "helping H_assert = 1"
| "helping H_assert_state = 1"
| "helping H_with = 1"
| "helping H_teach = 1"
| "helping H_prog = 1"
| "helping H_office = 1"
| "helping _ = 0"

fun dismissing :: "ta_pc \<Rightarrow> int" where
  "dismissing H_help3 = 1"
| "dismissing _ = 0"

fun started :: "tm_pc \<Rightarrow> int" where
  "started M_init = 0"
| "started _ = 1"

definition acc_help :: "ta_state \<Rightarrow> bool" where
  "acc_help s \<longleftrightarrow> int (TA_help_request_sem s) + awake (ta_at s) + int (Chair_outside_sem s) = tally 5 requested (stu_at s)"

definition acc_seated :: "ta_state \<Rightarrow> bool" where
  "acc_seated s \<longleftrightarrow> int (TA_help_request_sem1 s) + calling (ta_at s) + int (Chair_outside_sem s) = tally 5 seated (stu_at s)"

definition acc_coming :: "ta_state \<Rightarrow> bool" where
  "acc_coming s \<longleftrightarrow> int (TA_help_request_sem2 s) + int (Chair_outside_sem s) + tally 5 coming (stu_at s) = expecting (ta_at s)"

definition acc_office :: "ta_state \<Rightarrow> bool" where
  "acc_office s \<longleftrightarrow> tally 5 sitting (stu_at s) = int (TA_help_request_sem2 s) + helping (ta_at s) + int (TA_office_chair_sem s)"

definition acc_leaving :: "ta_state \<Rightarrow> bool" where
  "acc_leaving s \<longleftrightarrow> int (TA_office_chair_sem s) + tally 5 leaving (stu_at s) + int (TA_help_request_sem3 s) = dismissing (ta_at s)"

definition acc_lock :: "ta_state \<Rightarrow> bool" where
  "acc_lock s \<longleftrightarrow> int (TA_lock_sem s) + tally 5 locked (stu_at s) = started (tm_at s)"

definition acc_chairs :: "ta_state \<Rightarrow> bool" where
  "acc_chairs s \<longleftrightarrow> int (Wait_chairs_sem s) + tally 5 chaired (stu_at s) = 3 * started (tm_at s)"

definition acc_ok :: "ta_state \<Rightarrow> bool" where
  "acc_ok s \<longleftrightarrow> acc_help s \<and> acc_seated s \<and> acc_coming s \<and> acc_office s \<and> acc_leaving s \<and> acc_lock s \<and> acc_chairs s"

lemmas acc_defs = acc_help_def acc_seated_def acc_coming_def acc_office_def acc_leaving_def
  acc_lock_def acc_chairs_def

text \<open>What \<open>Students[t]\<close> is while student \<open>t\<close> is at a program point.\<close>

definition office_state :: "ta_pc \<Rightarrow> nat \<Rightarrow> STUDENT_STATE" where
  "office_state p oc = (if p = H_teach \<or> p = H_prog then WITH_TA
     else if p = H_office \<or> 0 < oc then PROGRAMMING else WAITING_FOR_TA)"

definition waiting :: "stu_pc set" where
  "waiting = {C_outside, C_inc, C_inc_w, C_post, S_test, A_lock, A_with, A_help2}"

definition stu_state :: "stu_pc \<Rightarrow> ta_pc \<Rightarrow> nat \<Rightarrow> STUDENT_STATE" where
  "stu_state p q oc = (if p = A_office then office_state q oc
     else if p \<in> waiting then WAITING_FOR_TA else PROGRAMMING)"

definition stu_ok :: "ta_state \<Rightarrow> bool" where
  "stu_ok s \<longleftrightarrow> length (Students s) = 5 \<and>
     (\<forall>t<5. Students s ! t = stu_state (stu_at s t) (ta_at s) (TA_office_chair_sem s) \<and>
       (stu_at s t \<in> {A_help2, A_office, A_leave} \<longrightarrow> student_with_TA s = int t))"

text \<open>Who has been created, under which identifier.\<close>

definition own_tids :: "(nat \<Rightarrow> tid option) \<Rightarrow> bool" where
  "own_tids tids \<longleftrightarrow> (\<forall>a b. tids a = Some b \<longrightarrow> a = b)"

definition ids_ok :: "ta_state \<Rightarrow> bool" where
  "ids_ok s \<longleftrightarrow> (\<forall>t. stu_at s t \<noteq> S_unborn \<longrightarrow> t < 5 \<and> Stu_tid s t = Some t \<and> (stu_at s t \<noteq> S_id \<longrightarrow> student_id s t = t)) \<and>
     own_tids (Stu_tid s) \<and> TA_tid s \<in> {None, Some 5} \<and>
     (ta_at s \<noteq> T_unborn \<longrightarrow> TA_tid s = Some 5)"

definition main_ok :: "ta_state \<Rightarrow> bool" where
  "main_ok s \<longleftrightarrow> ta_at s \<noteq> T_exited \<and> (case tm_at s of
     M_init \<Rightarrow> ta_at s = T_unborn \<and> (\<forall>t. stu_at s t = S_unborn)
   | M_ta \<Rightarrow> ta_at s = T_unborn \<and> (\<forall>t. stu_at s t = S_unborn)
   | M_create i \<Rightarrow> i \<le> 5 \<and> ta_at s \<noteq> T_unborn \<and> (\<forall>t. stu_at s t \<noteq> S_unborn \<longleftrightarrow> t < i)
   | M_join_ta \<Rightarrow> ta_at s \<noteq> T_unborn \<and> (\<forall>t. stu_at s t \<noteq> S_unborn \<longleftrightarrow> t < 5)
   | _ \<Rightarrow> False)"

definition ta_inv :: "ta_state \<Rightarrow> bool" where
  "ta_inv s \<longleftrightarrow> acc_ok s \<and> stu_ok s \<and> ids_ok s \<and> main_ok s \<and> stopped s \<in> {None, Some (Assertion 476)}"

section \<open>Accounts\<close>

text \<open>All weights are 0 or 1.\<close>

lemma stu_weights:
  "0 \<le> requested p" "0 \<le> seated p" "0 \<le> coming p" "0 \<le> sitting p" "0 \<le> leaving p" "0 \<le> locked p" "0 \<le> chaired p"
  "requested p \<le> 1" "seated p \<le> 1"
  by (cases p; simp)+

lemma ta_weights:
  "0 \<le> awake q" "0 \<le> calling q" "0 \<le> expecting q" "0 \<le> helping q" "0 \<le> dismissing q"
  "expecting q \<le> 1" "dismissing q \<le> 1"
  by (cases q; simp)+

lemma started_le: "started m \<le> 1"
  by (cases m) simp_all

text \<open>No semaphore is ever near its limit.\<close>

lemma sem_small:
  assumes "acc_ok s"
  shows "TA_help_request_sem s \<le> 5" "TA_help_request_sem1 s \<le> 5" "TA_help_request_sem2 s \<le> 1"
    "TA_help_request_sem3 s \<le> 1" "TA_office_chair_sem s \<le> 1" "Chair_outside_sem s \<le> 1"
    "TA_lock_sem s \<le> 1" "Wait_chairs_sem s \<le> 3"
proof -
  note a = assms [unfolded acc_ok_def acc_defs]
  note w = stu_weights and q = ta_weights [of "ta_at s"] started_le [of "tm_at s"]
  show "TA_help_request_sem s \<le> 5" using a tally_le [of requested 5 "stu_at s", OF w(8)] q by linarith
  show "TA_help_request_sem1 s \<le> 5" using a tally_le [of seated 5 "stu_at s", OF w(9)] q by linarith
  show "TA_help_request_sem2 s \<le> 1" "Chair_outside_sem s \<le> 1" using a tally_nonneg [of coming 5 "stu_at s", OF w(3)] q by linarith+
  show "TA_help_request_sem3 s \<le> 1" "TA_office_chair_sem s \<le> 1" using a tally_nonneg [of leaving 5 "stu_at s", OF w(5)] q by linarith+
  show "TA_lock_sem s \<le> 1" using a tally_nonneg [of locked 5 "stu_at s", OF w(6)] q by linarith
  show "Wait_chairs_sem s \<le> 3" using a tally_nonneg [of chaired 5 "stu_at s", OF w(7)] q by linarith
qed

lemma posts_succeed:
  assumes "acc_ok s"
  shows "sem_post (TA_help_request_sem s) = Some (Suc (TA_help_request_sem s))"
    "sem_post (TA_help_request_sem1 s) = Some (Suc (TA_help_request_sem1 s))"
    "sem_post (TA_help_request_sem2 s) = Some (Suc (TA_help_request_sem2 s))"
    "sem_post (TA_help_request_sem3 s) = Some (Suc (TA_help_request_sem3 s))"
    "sem_post (TA_office_chair_sem s) = Some (Suc (TA_office_chair_sem s))"
    "sem_post (Chair_outside_sem s) = Some (Suc (Chair_outside_sem s))"
    "sem_post (TA_lock_sem s) = Some (Suc (TA_lock_sem s))"
    "sem_post (Wait_chairs_sem s) = Some (Suc (Wait_chairs_sem s))"
  using sem_small [OF assms] by (simp_all add: SEM_VALUE_MAX_def)

lemma find_student_found:
  assumes "tids t = Some t" "j \<le> t" "t < 5" "own_tids tids"
  shows "find_student tids j t = Inr t"
  using assms(2)
proof (induction "t - j" arbitrary: j)
  case 0
  then show ?case using assms by (subst find_student.simps) (simp add: NUM_STUDENTS_def)
next
  case (Suc k)
  then have "j < 5" "j + 1 \<le> t" "j \<noteq> t" using assms(3) by auto
  moreover from this(3) have "tids j \<noteq> Some t" using assms(4) unfolding own_tids_def by blast
  moreover have "find_student tids (j + 1) t = Inr t" using Suc by simp
  ultimately show ?case by (subst find_student.simps) (simp add: NUM_STUDENTS_def)
qed

section \<open>The invariant is kept\<close>

lemmas stu_defs = Student_thread_func_def acquire_chair_def acquire_TA_def in_acquire_TA_def student_programming_def
  test_state_def get_student_id_def rand_sleep_def stu_goto_def fail_def MAX_STUDENT_PROG_TIME_def

lemmas ta_defs = TA_thread_func_def TA_take_nap_def check_for_waiting_students_def TA_help_next_student_def
  rand_sleep_def ta_goto_def fail_def MAX_WITH_TA_TIME_def ta_tid_def NUM_STUDENTS_def

text \<open>What a student knows of itself.\<close>

lemma stu_facts:
  assumes "ta_inv s" "stu_at s t \<noteq> S_unborn"
  shows "t < 5" "TA_tid s \<noteq> Some t" "stu_at s t \<noteq> S_id \<Longrightarrow> student_id s t = t" "length (Students s) = 5"
    "Students s ! t = stu_state (stu_at s t) (ta_at s) (TA_office_chair_sem s)"
    "find_student (Stu_tid s) 0 t = Inr t"
proof -
  show t: "t < 5" "stu_at s t \<noteq> S_id \<Longrightarrow> student_id s t = t" using assms by (auto simp: ta_inv_def ids_ok_def)
  show "TA_tid s \<noteq> Some t" using assms t by (auto simp: ta_inv_def ids_ok_def)
  show "length (Students s) = 5" "Students s ! t = stu_state (stu_at s t) (ta_at s) (TA_office_chair_sem s)"
    using assms(1) t by (auto simp: ta_inv_def stu_ok_def)
  show "find_student (Stu_tid s) 0 t = Inr t"
    using assms t(1) by (intro find_student_found) (auto simp: ta_inv_def ids_ok_def)
qed

lemma student_acc:
  assumes "ta_inv s" "Student_thread_func t r s = Some s'"
  shows "acc_ok s'"
proof -
  have a: "acc_ok s" using assms(1) by (simp add: ta_inv_def)
  have b: "stu_at s t \<noteq> S_unborn" using assms(2) by (auto simp: stu_defs)
  note p = posts_succeed [OF a] and f = stu_facts [OF assms(1) b]
  show ?thesis using assms(2) p f a
    by (cases "stu_at s t";
      clarsimp simp: stu_defs stu_state_def waiting_def simp del: sem_post_eq_Some split: option.splits if_splits;
      simp add: acc_ok_def acc_defs del: sem_post_eq_Some)
qed

text \<open>Holding the TA's lock excludes the other students.\<close>

lemma lock_exclusive:
  assumes "acc_ok s" "t < 5" "u < 5" "t \<noteq> u" "locked (stu_at s t) = 1"
  shows "locked (stu_at s u) = 0"
  using tally_ge_two [of locked t 5 u "stu_at s", OF stu_weights(6) assms(2-4)] assms(1,5) started_le [of "tm_at s"] stu_weights(6) [of "stu_at s u"]
  by (simp add: acc_ok_def acc_lock_def)

lemma sitting_only:
  assumes "acc_ok s" "t < 5" "stu_at s t = A_office"
  shows "int (TA_help_request_sem2 s) + helping (ta_at s) + int (TA_office_chair_sem s) = 1"
proof -
  have "sitting p \<le> locked p" for p by (cases p) simp_all
  then have "tally 5 sitting (stu_at s) \<le> tally 5 locked (stu_at s)"
    unfolding tally_def by (intro sum_mono) simp
  moreover have "1 \<le> tally 5 sitting (stu_at s)"
    using tally_ge_one [of sitting t 5 "stu_at s", OF stu_weights(4) assms(2)] assms(3) by simp
  ultimately show ?thesis using assms(1) started_le [of "tm_at s"]
    by (simp add: acc_ok_def acc_lock_def acc_office_def)
qed

lemma student_frame:
  assumes "Student_thread_func t r s = Some s'"
  shows "ta_at s' = ta_at s" "tm_at s' = tm_at s" "TA_tid s' = TA_tid s" "Stu_tid s' = Stu_tid s"
    "u \<noteq> t \<Longrightarrow> stu_at s' u = stu_at s u" "u \<noteq> t \<Longrightarrow> student_id s' u = student_id s u"
  using assms by (cases "stu_at s t"; auto simp: stu_defs simp del: sem_post_eq_Some split: option.splits if_splits sum.splits)+

lemma oc_dismissing:
  assumes "acc_ok s" "0 < TA_office_chair_sem s"
  shows "ta_at s = H_help3"
proof -
  have "1 \<le> dismissing (ta_at s)"
    using assms tally_nonneg [of leaving 5 "stu_at s", OF stu_weights(5)] by (simp add: acc_ok_def acc_leaving_def)
  then show ?thesis by (cases "ta_at s") simp_all
qed

lemma coming_expected:
  assumes "acc_ok s" "t < 5" "coming (stu_at s t) = 1"
  shows "ta_at s = H_help2"
proof -
  have "1 \<le> expecting (ta_at s)"
    using assms tally_ge_one [of coming t 5 "stu_at s", OF stu_weights(3)] by (simp add: acc_ok_def acc_coming_def)
  then show ?thesis by (cases "ta_at s") simp_all
qed

lemma student_others:
  assumes "ta_inv s" "Student_thread_func t r s = Some s'"
  shows "length (Students s') = 5" "u \<noteq> t \<Longrightarrow> Students s' ! u = Students s ! u"
    "locked (stu_at s t) = 0 \<Longrightarrow> TA_office_chair_sem s' = TA_office_chair_sem s \<and> student_with_TA s' = student_with_TA s"
proof -
  have b: "stu_at s t \<noteq> S_unborn" using assms(2) by (auto simp: stu_defs)
  note f = stu_facts [OF assms(1) b]
  show "length (Students s') = 5" "u \<noteq> t \<Longrightarrow> Students s' ! u = Students s ! u"
    "locked (stu_at s t) = 0 \<Longrightarrow> TA_office_chair_sem s' = TA_office_chair_sem s \<and> student_with_TA s' = student_with_TA s"
    using assms(2) f by (cases "stu_at s t"; auto simp: stu_defs simp del: sem_post_eq_Some split: option.splits if_splits sum.splits)+
qed

lemma student_self:
  assumes "ta_inv s" "Student_thread_func t r s = Some s'"
  shows "Students s' ! t = stu_state (stu_at s' t) (ta_at s') (TA_office_chair_sem s') \<and>
    (stu_at s' t \<in> {A_help2, A_office, A_leave} \<longrightarrow> student_with_TA s' = int t)"
proof -
  have a: "acc_ok s" and st: "stu_ok s" using assms(1) by (simp_all add: ta_inv_def)
  have b: "stu_at s t \<noteq> S_unborn" using assms(2) by (auto simp: stu_defs)
  note p = posts_succeed [OF a] and f = stu_facts [OF assms(1) b]
  have w: "stu_at s t \<in> {A_help2, A_office, A_leave} \<Longrightarrow> student_with_TA s = int t"
    using st f(1) unfolding stu_ok_def by blast
  have h: "stu_at s t = A_help2 \<Longrightarrow> ta_at s = H_help2 \<and> TA_office_chair_sem s = 0"
    using coming_expected [OF a f(1)] oc_dismissing [OF a] by fastforce
  have o: "0 < TA_office_chair_sem s \<Longrightarrow> ta_at s = H_help3" by (rule oc_dismissing [OF a])
  show ?thesis using assms(2) p f w h o
    by (cases "stu_at s t";
      clarsimp simp: stu_defs stu_state_def waiting_def simp del: sem_post_eq_Some split: option.splits if_splits;
      simp add: stu_state_def office_state_def del: sem_post_eq_Some)
qed

lemma student_stu_ok:
  assumes "ta_inv s" "Student_thread_func t r s = Some s'"
  shows "stu_ok s'"
  unfolding stu_ok_def
proof (intro conjI allI impI)
  have a: "acc_ok s" and st: "stu_ok s" using assms(1) by (simp_all add: ta_inv_def)
  have b: "stu_at s t \<noteq> S_unborn" using assms(2) by (auto simp: stu_defs)
  note t = stu_facts(1) [OF assms(1) b] and fr = student_frame [OF assms(2)] and so = student_others [OF assms]
  show "length (Students s') = 5" by (rule so(1))
  fix u :: nat assume u: "u < 5"
  have old: "Students s ! u = stu_state (stu_at s u) (ta_at s) (TA_office_chair_sem s)"
    "stu_at s u \<in> {A_help2, A_office, A_leave} \<longrightarrow> student_with_TA s = int u"
    using st u by (simp_all add: stu_ok_def)
  have 01: "locked (stu_at s t) = 0 \<or> locked (stu_at s t) = 1" by (cases "stu_at s t") simp_all
  have new: "Students s' ! u = stu_state (stu_at s' u) (ta_at s') (TA_office_chair_sem s') \<and>
    (stu_at s' u \<in> {A_help2, A_office, A_leave} \<longrightarrow> student_with_TA s' = int u)"
  proof (cases "u = t")
    case True
    then show ?thesis using student_self [OF assms] by simp
  next
    case False
    show ?thesis
    proof (cases "locked (stu_at s t) = 0")
      case True
      then show ?thesis using old so(2) [OF False] so(3) fr(1,5) False by simp
    next
      case locked: False
      then have "locked (stu_at s u) = 0" using 01 lock_exclusive [OF a t u] False by metis
      then have "stu_at s u \<notin> {A_help2, A_office, A_leave}" by auto
      then show ?thesis using old so(2) [OF False] fr(1,5) False by (simp add: stu_state_def)
    qed
  qed
  then show "Students s' ! u = stu_state (stu_at s' u) (ta_at s') (TA_office_chair_sem s')" ..
  show "stu_at s' u \<in> {A_help2, A_office, A_leave} \<Longrightarrow> student_with_TA s' = int u" using new by simp
qed

lemma student_ids:
  assumes "ta_inv s" "Student_thread_func t r s = Some s'"
  shows "stu_at s' t \<noteq> S_unborn" "stu_at s' t \<noteq> S_id \<Longrightarrow> student_id s' t = t"
    "stopped s = None \<Longrightarrow> stopped s' = None \<or> stopped s' = Some (Assertion 476)"
proof -
  have a: "acc_ok s" using assms(1) by (simp add: ta_inv_def)
  have b: "stu_at s t \<noteq> S_unborn" using assms(2) by (auto simp: stu_defs)
  note p = posts_succeed [OF a] and f = stu_facts [OF assms(1) b]
  show "stu_at s' t \<noteq> S_unborn" using assms(2) b
    by (cases "stu_at s t"; auto simp: stu_defs simp del: sem_post_eq_Some split: option.splits if_splits sum.splits)
  show "stu_at s' t \<noteq> S_id \<Longrightarrow> student_id s' t = t" using assms(2) f(1,3,4,6)
    by (cases "stu_at s t"; auto simp: stu_defs simp del: sem_post_eq_Some split: option.splits if_splits)
  show "stopped s' = None \<or> stopped s' = Some (Assertion 476)" if "stopped s = None"
    using that assms(2) p f(1-4,6)
    by (cases "stu_at s t"; clarsimp simp: stu_defs simp del: sem_post_eq_Some split: option.splits if_splits)
qed

lemma student_inv:
  assumes "ta_inv s" "stopped s = None" "Student_thread_func t r s = Some s'"
  shows "ta_inv s'"
proof -
  have b: "stu_at s t \<noteq> S_unborn" using assms(3) by (auto simp: stu_defs)
  note fr = student_frame [OF assms(3)] and si = student_ids [OF assms(1,3)]
  have unborn: "stu_at s' u = S_unborn \<longleftrightarrow> stu_at s u = S_unborn" for u
    using b si(1) fr(5) by (cases "u = t") simp_all
  have old: "stu_at s u \<noteq> S_unborn \<Longrightarrow> stu_at s u \<noteq> S_id \<Longrightarrow> student_id s u = u" for u
    using assms(1) unfolding ta_inv_def ids_ok_def by blast
  have id: "stu_at s' u \<noteq> S_unborn \<Longrightarrow> stu_at s' u \<noteq> S_id \<Longrightarrow> student_id s' u = u" for u
    using si(2) fr(5,6) [of u] old [of u] by (cases "u = t") simp_all
  have "ids_ok s" "main_ok s" using assms(1) by (simp_all add: ta_inv_def)
  have "ids_ok s'" unfolding ids_ok_def fr(1,3,4) unborn
  proof (intro conjI)
    show "\<forall>u. stu_at s u \<noteq> S_unborn \<longrightarrow> u < 5 \<and> Stu_tid s u = Some u \<and> (stu_at s' u \<noteq> S_id \<longrightarrow> student_id s' u = u)"
      using \<open>ids_ok s\<close> id unborn unfolding ids_ok_def by meson
  qed (use \<open>ids_ok s\<close> in \<open>simp_all add: ids_ok_def\<close>)
  moreover have "main_ok s'" using \<open>main_ok s\<close> unfolding main_ok_def fr(1,2) unborn .
  ultimately show ?thesis
    using student_acc [OF assms(1,3)] student_stu_ok [OF assms(1,3)] si(3) [OF assms(2)] by (simp add: ta_inv_def)
qed

lemma swt_student:
  assumes "ta_inv s" "helping (ta_at s) = 1"
  shows "\<exists>t<5. stu_at s t = A_office \<and> student_with_TA s = int t \<and> (\<forall>u<5. u \<noteq> t \<longrightarrow> stu_at s u \<noteq> A_office)"
proof -
  have a: "acc_ok s" and st: "stu_ok s" using assms(1) by (simp_all add: ta_inv_def)
  have "0 < tally 5 sitting (stu_at s)" using a assms(2) by (simp add: acc_ok_def acc_office_def)
  then obtain t where t: "t < 5" "0 < sitting (stu_at s t)" using tally_pos by blast
  then have o: "stu_at s t = A_office" by (cases "stu_at s t") simp_all
  then have "student_with_TA s = int t" using st t(1) unfolding stu_ok_def by blast
  moreover have "stu_at s u \<noteq> A_office" if "u < 5" "u \<noteq> t" for u
    using lock_exclusive [OF a t(1) that(1)] that(2) o by fastforce
  ultimately show ?thesis using t(1) o by blast
qed

lemma ta_acc:
  assumes "ta_inv s" "TA_thread_func r s = Some s'"
  shows "acc_ok s'"
proof -
  have a: "acc_ok s" using assms(1) by (simp add: ta_inv_def)
  note p = posts_succeed [OF a]
  show ?thesis using assms(2) p a
    by (cases "ta_at s";
      clarsimp simp: ta_defs simp del: sem_post_eq_Some split: option.splits if_splits sum.splits;
      simp add: acc_ok_def acc_defs del: sem_post_eq_Some)
qed

lemma ta_frame:
  assumes "TA_thread_func r s = Some s'"
  shows "stu_at s' = stu_at s \<and> tm_at s' = tm_at s \<and> TA_tid s' = TA_tid s \<and> Stu_tid s' = Stu_tid s \<and>
    student_id s' = student_id s \<and> student_with_TA s' = student_with_TA s \<and> ta_at s' \<noteq> T_exited \<and> ta_at s' \<noteq> T_unborn"
  using assms by (cases "ta_at s"; clarsimp simp: ta_defs simp del: sem_post_eq_Some split: option.splits if_splits sum.splits)

text \<open>The TA's statements on \<open>Students\<close>: they concern the student in the office.\<close>

lemma ta_students:
  assumes "ta_inv s" "TA_thread_func r s = Some s'"
  shows "length (Students s') = 5 \<and> stopped s' = stopped s \<and>
    (\<forall>u<5. Students s' ! u = stu_state (stu_at s u) (ta_at s') (TA_office_chair_sem s'))"
proof (cases "helping (ta_at s) = 1")
  case True
  have a: "acc_ok s" and st: "stu_ok s" using assms(1) by (simp_all add: ta_inv_def)
  note p = posts_succeed [OF a]
  have o: "TA_office_chair_sem s = 0" using True oc_dismissing [OF a] by fastforce
  have len: "length (Students s) = 5" using st by (simp add: stu_ok_def)
  obtain t where t: "t < 5" "stu_at s t = A_office" "student_with_TA s = int t"
    "\<And>u. u < 5 \<Longrightarrow> u \<noteq> t \<Longrightarrow> stu_at s u \<noteq> A_office" using swt_student [OF assms(1) True] by blast
  have rest: "Students s ! u = stu_state (stu_at s u) q k" if "u < 5" "u \<noteq> t" for u q k
    using st that t(4) [OF that] by (simp add: stu_ok_def stu_state_def)
  have me: "Students s ! t = office_state (ta_at s) 0" using st t(1,2) o by (simp add: stu_ok_def stu_state_def)
  have all: "(\<forall>u<5. xs ! u = stu_state (stu_at s u) q k) \<longleftrightarrow> xs ! t = office_state q k"
    if "\<And>u. u < 5 \<Longrightarrow> u \<noteq> t \<Longrightarrow> xs ! u = Students s ! u" for xs q k
    using that rest t(1,2) by (metis stu_state_def)
  show ?thesis using assms(2) True p o len t(1,3) me
    by (cases "ta_at s";
      clarsimp simp: ta_defs all simp del: sem_post_eq_Some split: option.splits if_splits;
      simp add: office_state_def all)
next
  case False
  have a: "acc_ok s" and st: "stu_ok s" using assms(1) by (simp_all add: ta_inv_def)
  note p = posts_succeed [OF a]
  have tid: "ta_at s \<noteq> T_unborn \<Longrightarrow> TA_tid s = Some 5" using assms(1) by (simp add: ta_inv_def ids_ok_def)
  have o: "0 < TA_office_chair_sem s \<Longrightarrow> ta_at s = H_help3" by (rule oc_dismissing [OF a])
  have same: "Students s' = Students s \<and> stopped s' = stopped s \<and> office_state (ta_at s') (TA_office_chair_sem s') =
      (if TA_office_chair_sem s = 0 then WAITING_FOR_TA else PROGRAMMING)"
    using assms(2) False p tid o
    by (cases "ta_at s";
      clarsimp simp: ta_defs simp del: sem_post_eq_Some split: option.splits if_splits;
      simp add: office_state_def)
  moreover have "office_state (ta_at s) (TA_office_chair_sem s) = (if TA_office_chair_sem s = 0 then WAITING_FOR_TA else PROGRAMMING)"
    using assms(2) False o by (cases "ta_at s") (auto simp: office_state_def)
  ultimately have "stu_state q (ta_at s') (TA_office_chair_sem s') = stu_state q (ta_at s) (TA_office_chair_sem s)" for q
    by (simp add: stu_state_def)
  then show ?thesis using same st by (simp add: stu_ok_def)
qed

lemma ta_inv_ta:
  assumes "ta_inv s" "TA_thread_func r s = Some s'"
  shows "ta_inv s'"
proof -
  note fr = ta_frame [OF assms(2)] and st = ta_students [OF assms]
  have b: "ta_at s \<noteq> T_unborn" using assms(2) by (auto simp: TA_thread_func_def)
  have "stu_ok s'" using assms(1) st fr unfolding ta_inv_def stu_ok_def by metis
  moreover have "ids_ok s'" "main_ok s'"
    using assms(1) fr b by (auto simp: ta_inv_def ids_ok_def main_ok_def split: tm_pc.splits)
  ultimately show ?thesis using ta_acc [OF assms] st assms(1) by (simp add: ta_inv_def)
qed

lemma ta_inv_main:
  assumes "ta_inv s" "ta_main True no_error rc s = Some s'"
  shows "ta_inv s'"
proof (cases "tm_at s")
  case M_init
  then have u: "stu_at s = (\<lambda>_. S_unborn)" "ta_at s = T_unborn" using assms(1) by (auto simp: ta_inv_def main_ok_def)
  have c: "tally 5 w (\<lambda>_. S_unborn) = w S_unborn * 5" for w by (simp add: tally_def)
  obtain s1 where s1: "init_state no_error s = Inr s1" by (simp add: init_state_def)
  then have s': "s' = s1\<lparr>tm_at := M_ta\<rparr>" using assms(2) M_init by (simp add: ta_main_def)
  note s1 = s1 [unfolded init_state_def, simplified, symmetric]
  have "acc_ok s" using assms(1) by (simp add: ta_inv_def)
  then have "Chair_outside_sem s = 0" by (simp add: acc_ok_def acc_defs u c)
  then have "acc_ok s'" by (simp add: s' s1 u c acc_ok_def acc_defs NUM_TA_CHAIRS_def)
  moreover have "stu_ok s'" by (simp add: s' s1 u stu_ok_def stu_state_def waiting_def NUM_STUDENTS_def)
  ultimately show ?thesis using assms(1) u by (simp add: s' s1 ta_inv_def ids_ok_def main_ok_def)
next
  case M_ta
  then have s': "s' = s\<lparr>TA_tid := Some 5, ta_at := T_nap, tm_at := M_create 0\<rparr>"
    using assms(2) by (simp add: ta_main_def ta_tid_def NUM_STUDENTS_def)
  have u: "stu_at s = (\<lambda>_. S_unborn)" "ta_at s = T_unborn" using assms(1) M_ta by (auto simp: ta_inv_def main_ok_def)
  have "acc_ok s'" using assms(1) M_ta u by (simp add: s' ta_inv_def acc_ok_def acc_defs)
  moreover have "stu_ok s'" using assms(1) u by (simp add: s' ta_inv_def stu_ok_def stu_state_def waiting_def)
  ultimately show ?thesis using assms(1) u by (simp add: s' ta_inv_def ids_ok_def main_ok_def)
next
  case (M_create i)
  show ?thesis
  proof (cases "i < 5")
    case True
    then have u: "stu_at s i = S_unborn" using assms(1) M_create by (auto simp: ta_inv_def main_ok_def)
    have s': "s' = s\<lparr>Stu_tid := (Stu_tid s)(i := Some i), stu_at := (stu_at s)(i := S_id), tm_at := M_create (i + 1)\<rparr>"
      using assms(2) M_create True by (simp add: ta_main_def NUM_STUDENTS_def)
    have "acc_ok s'" using assms(1) True M_create u by (simp add: ta_inv_def acc_ok_def acc_defs s')
    moreover have "stu_state S_id q k = stu_state S_unborn q k" for q k by (simp add: stu_state_def waiting_def)
    then have "stu_ok s'" using assms(1) u by (auto simp: s' ta_inv_def stu_ok_def)
    moreover have "own_tids ((Stu_tid s)(i := Some i))"
      using assms(1) unfolding ta_inv_def ids_ok_def own_tids_def by (metis fun_upd_apply option.inject)
    then have "ids_ok s'" using assms(1) True by (auto simp: s' ta_inv_def ids_ok_def)
    moreover have "main_ok s'" using assms(1) True M_create by (auto simp: s' ta_inv_def main_ok_def less_Suc_eq)
    ultimately show ?thesis using assms(1) by (simp add: ta_inv_def s')
  next
    case False
    then have "i = 5" using assms(1) M_create by (simp add: ta_inv_def main_ok_def)
    then have "s' = s\<lparr>tm_at := M_join_ta\<rparr>" using assms(2) M_create by (simp add: ta_main_def NUM_STUDENTS_def)
    then show ?thesis using assms(1) M_create \<open>i = 5\<close>
      by (simp add: ta_inv_def acc_ok_def acc_defs stu_ok_def ids_ok_def main_ok_def)
  qed
next
  case M_join_ta
  then show ?thesis using assms by (auto simp: ta_main_def ta_inv_def main_ok_def)
qed (use assms in \<open>auto simp: ta_inv_def main_ok_def\<close>)

lemma ta_inv_init: "ta_inv ta_init"
  by (auto simp: ta_inv_def ta_init_def acc_ok_def acc_defs tally_def stu_ok_def ids_ok_def main_ok_def
      stu_state_def waiting_def NUM_STUDENTS_def own_tids_def)

interpretation ta: invariant_system "ta_step True no_error rc" ta_init ta_inv
proof
  show "ta_inv ta_init" by (rule ta_inv_init)
  show "ta_inv s'" if "ta_inv s" "ta_step True no_error rc e s = Some s'" for s e s'
  proof (cases e)
    case TMain
    then show ?thesis using that ta_inv_main [of s rc s'] by (simp split: if_splits)
  next
    case (TA_moves r)
    then show ?thesis using that ta_inv_ta [of s r s'] by (simp split: if_splits)
  next
    case (Student t r)
    then show ?thesis using that student_inv [of s t r s'] by (simp split: if_splits)
  qed
qed

text \<open>When a semaphore cannot be initialised, the program stops before a thread exists.\<close>

interpretation ta_start: initialised_system "\<lambda>irc. ta_step sf irc rc" ta_init init_lines
    "\<lambda>e s. s = ta_init\<lparr>stopped := Some e\<rparr>" for sf rc
proof unfold_locales
  show "ta_step sf irc rc = ta_step sf no_error rc" if "checked_calls irc 0 init_lines = Inr ()" for irc
  proof (intro ext)
    have "init_state irc = init_state no_error" using that by (intro ext) (simp add: init_state_def)
    then show "ta_step sf irc rc e s = ta_step sf no_error rc e s" for e s
      by (cases e) (simp_all add: ta_main_def split: tm_pc.split)
  qed
  show "s = ta_init\<lparr>stopped := Some e\<rparr>"
    if "checked_calls irc 0 init_lines = Inl e" "ta_step sf irc rc ev ta_init = Some s" for irc e ev s
    using that by (cases ev) (auto simp: ta_main_def init_state_def ta_init_def fail_def Student_thread_func_def
        in_acquire_TA_def TA_thread_func_def)
  show "ta_step sf irc rc ev s = None" if "s = ta_init\<lparr>stopped := Some e\<rparr>" for e s irc ev
    using that by (cases ev) simp_all
qed

section \<open>Identifiers that are stored late\<close>

text \<open>The state with the identifier stored that \<open>pthread_create\<close> has still to store.\<close>

definition stored :: "ta_state \<Rightarrow> ta_state" where
  "stored s = (case tm_at s of
     M_ta_created \<Rightarrow> s\<lparr>TA_tid := Some ta_tid, tm_at := M_create 0\<rparr>
   | M_created i \<Rightarrow> s\<lparr>Stu_tid := [i \<mapsto> i] ++ Stu_tid s, tm_at := M_create (i + 1)\<rparr>
   | _ \<Rightarrow> s)"

lemma ta_stored_simps [simp]:
  "stu_at (stored s) = stu_at s" "ta_at (stored s) = ta_at s" "stopped (stored s) = stopped s"
  "Students (stored s) = Students s" "student_with_TA (stored s) = student_with_TA s" "student_id (stored s) = student_id s"
  "TA_office_chair_sem (stored s) = TA_office_chair_sem s" "TA_help_request_sem (stored s) = TA_help_request_sem s"
  "TA_help_request_sem1 (stored s) = TA_help_request_sem1 s" "TA_help_request_sem2 (stored s) = TA_help_request_sem2 s"
  "TA_help_request_sem3 (stored s) = TA_help_request_sem3 s" "Chair_outside_sem (stored s) = Chair_outside_sem s"
  "TA_lock_sem (stored s) = TA_lock_sem s"
  "tm_at (stored s) = M_cleanup \<longleftrightarrow> tm_at s = M_cleanup" "tm_at (stored s) = M_exit \<longleftrightarrow> tm_at s = M_exit"
  by (simp_all add: stored_def split: tm_pc.split)

lemma ta_fail_fields [simp]:
  "stu_at (fail a s) = stu_at s" "ta_at (fail a s) = ta_at s" "Students (fail a s) = Students s"
  "student_with_TA (fail a s) = student_with_TA s" "tm_at (fail a s) = tm_at s" "stopped (fail a s) = Some a"
  by (simp_all add: fail_def)

text \<open>A thread that has been started before its identifier is stored does not find itself.\<close>

definition lost :: "ta_state \<Rightarrow> ta_state \<Rightarrow> bool" where
  "lost s s' \<longleftrightarrow> s' = fail (Assertion 605) s \<and> tm_at s = M_ta_created \<and> ta_at s = T_nap \<or>
     s' = fail (Assertion 455) s \<and> (\<exists>i. tm_at s = M_created i \<and> stu_at s i = S_id)"

text \<open>Apart from \<open>get_student_id\<close> the students do not look at the students' identifiers.\<close>

lemma student_ignores_main:
  assumes "stu_at s t \<noteq> S_id"
  shows "Student_thread_func t r (s\<lparr>Stu_tid := T, tm_at := p\<rparr>) =
    map_option (\<lambda>s'. s'\<lparr>Stu_tid := T, tm_at := p\<rparr>) (Student_thread_func t r s)"
  using assms
  by (cases "stu_at s t") (auto simp: Student_thread_func_def in_acquire_TA_def acquire_TA_def acquire_chair_def
      test_state_def student_programming_def rand_sleep_def stu_goto_def fail_def map_option_case split: option.splits sum.splits)

lemma ta_ignores_main:
  "TA_thread_func r (s\<lparr>Stu_tid := T, tm_at := p\<rparr>) = map_option (\<lambda>s'. s'\<lparr>Stu_tid := T, tm_at := p\<rparr>) (TA_thread_func r s)"
  by (cases "ta_at s") (auto simp: ta_defs map_option_case split: option.splits sum.splits)

lemma threads_keep_main:
  "Student_thread_func t r s = Some s' \<Longrightarrow> tm_at s' = tm_at s \<and> Stu_tid s' = Stu_tid s \<and> TA_tid s' = TA_tid s"
  "TA_thread_func r s = Some s' \<Longrightarrow> tm_at s' = tm_at s \<and> Stu_tid s' = Stu_tid s \<and> TA_tid s' = TA_tid s"
proof -
  show "Student_thread_func t r s = Some s' \<Longrightarrow> tm_at s' = tm_at s \<and> Stu_tid s' = Stu_tid s \<and> TA_tid s' = TA_tid s"
    by (cases "stu_at s t"; clarsimp simp: stu_defs split: if_splits option.splits sum.splits)
  show "TA_thread_func r s = Some s' \<Longrightarrow> tm_at s' = tm_at s \<and> Stu_tid s' = Stu_tid s \<and> TA_tid s' = TA_tid s"
    by (cases "ta_at s"; clarsimp simp: ta_defs split: if_splits option.splits sum.splits)
qed

lemma stored_cases:
  obtains (ta) "tm_at s = M_ta_created" "stored s = s\<lparr>TA_tid := Some ta_tid, tm_at := M_create 0\<rparr>"
  | (student) i where "tm_at s = M_created i" "stored s = s\<lparr>Stu_tid := [i \<mapsto> i] ++ Stu_tid s, tm_at := M_create (i + 1)\<rparr>"
  | (rest) "stored s = s" "\<And>s'. tm_at s' = tm_at s \<Longrightarrow> stored s' = s'"
  by (cases "tm_at s") (auto simp: stored_def)

lemma find_student_result:
  "case find_student tids j t of Inr k \<Rightarrow> tids k = Some t | Inl e \<Rightarrow> e = Assertion 455"
  by (induction tids j t rule: find_student.induct) (subst find_student.simps, simp)

lemma ta_stored_own_tids:
  assumes "ta_inv (stored s)"
  shows "own_tids (Stu_tid s)" "[i \<mapsto> i] ++ Stu_tid s = (Stu_tid s)(i \<mapsto> i)"
proof -
  have "own_tids (Stu_tid (stored s))" using assms by (simp add: ta_inv_def ids_ok_def)
  then show own: "own_tids (Stu_tid s)" by (cases rule: stored_cases [of s]) (simp_all add: own_tids_def)
  show "[i \<mapsto> i] ++ Stu_tid s = (Stu_tid s)(i \<mapsto> i)"
    using own by (auto simp: own_tids_def fun_eq_iff map_add_def split: option.split)
qed

text \<open>The search of a student for its identifier while \<open>main\<close> has still to store that of student \<open>i\<close>.\<close>

lemma student_search_late:
  assumes inv: "ta_inv (stored s)" and m: "tm_at s = M_created i" and id: "stu_at s t = S_id"
    and st: "Student_thread_func t r s = Some s'"
  shows "lost s s' \<or> Student_thread_func t r (stored s) = Some (stored s')"
proof -
  have b: "stu_at (stored s) t \<noteq> S_unborn" using id by simp
  note F = stu_facts [OF inv b]
  have ta: "TA_tid s \<noteq> Some t" and tids: "Stu_tid (stored s) = [i \<mapsto> i] ++ Stu_tid s" using F(2) m by (simp_all add: stored_def)
  have reg: "Stu_tid (stored s) t = Some t" using inv b by (simp add: ta_inv_def ids_ok_def)
  show ?thesis
  proof (cases "find_student (Stu_tid s) 0 t")
    case (Inr k)
    then have "Stu_tid s k = Some t" using find_student_result [of "Stu_tid s" t 0] by simp
    then have "k = t" using ta_stored_own_tids(1) [OF inv] by (simp add: own_tids_def)
    with Inr st id ta F(2,6) m show ?thesis by (auto simp: stu_defs stored_def)
  next
    case (Inl e)
    then have "Stu_tid s t \<noteq> Some t"
      using find_student_found [of "Stu_tid s" t 0] F(1) ta_stored_own_tids(1) [OF inv] by auto
    then have "i = t" using reg tids by (auto simp: map_add_def split: option.splits if_splits)
    with Inl find_student_result [of "Stu_tid s" t 0] st id ta m show ?thesis by (simp add: stu_defs lost_def)
  qed
qed

lemma student_late:
  assumes inv: "ta_inv (stored s)" and st: "Student_thread_func t r s = Some s'"
  shows "lost s s' \<or> Student_thread_func t r (stored s) = Some (stored s')"
proof (cases rule: stored_cases [of s])
  case ta
  have "stu_at s t \<noteq> S_unborn" using st by (auto simp: stu_defs)
  then show ?thesis using inv ta by (auto simp: ta_inv_def main_ok_def)
next
  case (student i)
  show ?thesis
  proof (cases "stu_at s t = S_id")
    case True
    then show ?thesis using student_search_late [OF inv student(1) _ st] by blast
  next
    case False
    have "stored s' = s'\<lparr>Stu_tid := [i \<mapsto> i] ++ Stu_tid s, tm_at := M_create (i + 1)\<rparr>"
      using threads_keep_main(1) [OF st] student(1) by (simp add: stored_def)
    then show ?thesis using student_ignores_main [OF False] st student(2) by simp
  qed
next
  case rest
  then show ?thesis using st threads_keep_main(1) [OF st] by simp
qed

lemma ta_late:
  assumes inv: "ta_inv (stored s)" and st: "TA_thread_func r s = Some s'"
  shows "lost s s' \<or> TA_thread_func r (stored s) = Some (stored s')"
proof (cases rule: stored_cases [of s])
  case ta
  have u: "stu_at s = (\<lambda>_. S_unborn)" using inv ta by (auto simp: ta_inv_def main_ok_def fun_eq_iff)
  have "acc_ok (stored s)" using inv by (simp add: ta_inv_def)
  then have "awake (ta_at s) = 0" "expecting (ta_at s) = 0" "helping (ta_at s) = 0"
    using ta_weights [of "ta_at s"] by (simp_all add: acc_ok_def acc_defs u tally_def)
  then consider "ta_at s = T_nap" | "ta_at s = T_nap_wait" | "ta_at s = H_help3"
    using st by (cases "ta_at s") (simp_all add: ta_defs)
  then show ?thesis
    using st ta by cases (auto simp: ta_defs lost_def stored_def)
next
  case (student i)
  have "stored s' = s'\<lparr>Stu_tid := [i \<mapsto> i] ++ Stu_tid s, tm_at := M_create (i + 1)\<rparr>"
    using threads_keep_main(2) [OF st] student(1) by (simp add: stored_def)
  then show ?thesis using ta_ignores_main st student(2) by simp
next
  case rest
  then show ?thesis using st threads_keep_main(2) [OF st] by simp
qed

lemma ta_main_late:
  assumes inv: "ta_inv (stored s)" and st: "ta_main False no_error rc s = Some s'"
  shows "stored s' = stored s \<or> ta_main True no_error rc (stored s) = Some (stored s')"
  using st ta_stored_own_tids(2) [OF inv] inv
  by (cases "tm_at s") (auto simp: ta_main_def init_state_def stored_def ta_inv_def main_ok_def split: if_splits)

interpretation ta_late: late_identifiers "\<lambda>sf. ta_step sf no_error rc" ta_init ta_inv stored lost for rc
proof unfold_locales
  show "stored ta_init = ta_init" by (simp add: stored_def ta_init_def)
  show "ta_step False no_error rc e s = None" if "lost r s" for e r s using that by (auto simp: lost_def)
  fix s e s'
  assume inv: "ta_inv (stored s)" and st: "ta_step False no_error rc e s = Some s'"
  have "lost s s' \<or> stored s' = stored s \<or> ta_step True no_error rc e (stored s) = Some (stored s')"
    using st ta_main_late [OF inv, of rc s'] student_late [OF inv, of _ _ s'] ta_late [OF inv, of _ s']
    by (cases e) (auto split: if_splits)
  then show "lost s s' \<or> reachable (ta_step True no_error rc) (stored s) (stored s')"
    using reachable.start reachable.move [OF reachable.start] by metis
qed

lemma ta_inv_stored: "ta_inv s \<Longrightarrow> stored s = s"
  by (simp add: ta_inv_def main_ok_def stored_def split: tm_pc.splits)

text \<open>
  A reachable state of the program, in either order and for all return codes: it satisfies the invariant,
  up to the identifier that is still to be stored, or a thread has not found itself in such a
  state, or an initialisation has failed.
\<close>

lemma ta_reachable:
  assumes "reachable (ta_step sf irc rc) ta_init s"
  obtains (runs) "ta_inv (stored s)" "s = ta_init \<or> ta_step sf irc rc = ta_step sf no_error rc"
  | (lost) r where "\<not> sf" "lost r s" "ta_inv (stored r)"
  | (fails) a where "init_state irc ta_init = Inl a" "s = ta_init\<lparr>stopped := Some a\<rparr>"
proof -
  consider (ok) "reachable (ta_step sf no_error rc) ta_init s" "s = ta_init \<or> ta_step sf irc rc = ta_step sf no_error rc"
    | (bad) a where "checked_calls irc 0 init_lines = Inl a" "s = ta_init\<lparr>stopped := Some a\<rparr>"
    using ta_start.reachable_cases [OF assms] by blast
  then show thesis
  proof cases
    case ok
    from ok(1) show thesis
      by (cases rule: ta_late.reachable_order) (use ok(2) that(1,2) ta_inv_stored in auto)
  qed (simp add: fails init_state_def)
qed

section \<open>Progress of a request\<close>

text \<open>A student has asked for help from its first post on until it has released the TA.\<close>

definition asking :: "stu_pc \<Rightarrow> bool" where
  "asking p \<longleftrightarrow> requested p + coming p + sitting p + leaving p = 1"

definition stu_can :: "tid \<Rightarrow> ta_state \<Rightarrow> bool" where
  "stu_can t s \<longleftrightarrow> (\<exists>s'. Student_thread_func t 0 s = Some s')"

lemma stu_can_move:
  assumes "asking (stu_at s t)" "stu_at s t = C_outside \<Longrightarrow> 0 < Chair_outside_sem s"
    "stu_at s t = A_lock \<Longrightarrow> 0 < TA_lock_sem s" "stu_at s t = A_office \<Longrightarrow> 0 < TA_office_chair_sem s"
  shows "stu_can t s"
  unfolding stu_can_def using assms
  by (cases "stu_at s t") (simp_all add: asking_def Student_thread_func_def in_acquire_TA_def acquire_TA_def acquire_chair_def)

lemma unexpected:
  assumes "acc_ok s" "expecting (ta_at s) = 0"
  shows "Chair_outside_sem s = 0" "TA_help_request_sem2 s = 0" "tally 5 coming (stu_at s) = 0"
  using assms tally_nonneg [of coming 5 "stu_at s", OF stu_weights(3)] by (simp_all add: acc_ok_def acc_coming_def)

lemma undismissed:
  assumes "acc_ok s" "dismissing (ta_at s) = 0"
  shows "TA_office_chair_sem s = 0" "tally 5 leaving (stu_at s) = 0" "TA_help_request_sem3 s = 0"
  using assms tally_nonneg [of leaving 5 "stu_at s", OF stu_weights(5)] by (simp_all add: acc_ok_def acc_leaving_def)

lemma asking_counted:
  assumes "asking (stu_at s t)" "t < 5"
  shows "1 \<le> tally 5 requested (stu_at s) + tally 5 coming (stu_at s) + tally 5 sitting (stu_at s) + tally 5 leaving (stu_at s)"
  using assms(1) tally_ge_one [of requested t 5 "stu_at s", OF stu_weights(1) assms(2)]
    tally_ge_one [of coming t 5 "stu_at s", OF stu_weights(3) assms(2)]
    tally_ge_one [of sitting t 5 "stu_at s", OF stu_weights(4) assms(2)]
    tally_ge_one [of leaving t 5 "stu_at s", OF stu_weights(5) assms(2)]
  unfolding asking_def by linarith

text \<open>The four places where the TA can block.\<close>

lemma nap_idle:
  assumes "acc_ok s" "ta_at s = T_nap_wait" "TA_help_request_sem s = 0" "t < 5"
  shows "\<not> asking (stu_at s t)"
  using asking_counted [of s t] assms unexpected [OF assms(1)] undismissed [OF assms(1)]
  by (auto simp: acc_ok_def acc_help_def acc_office_def)

lemma call_pending:
  assumes "acc_ok s" "ta_at s = W_help1" "TA_help_request_sem1 s = 0"
  shows "\<exists>u<5. asking (stu_at s u) \<and> stu_can u s"
proof -
  have "tally 5 seated (stu_at s) = 0" "0 < tally 5 requested (stu_at s)"
    using assms unexpected [OF assms(1)] by (simp_all add: acc_ok_def acc_seated_def acc_help_def)
  then obtain u where u: "u < 5" "0 < requested (stu_at s u)" using tally_pos by blast
  then have "seated (stu_at s u) \<le> 0"
    using tally_ge_one [of seated u 5 "stu_at s", OF stu_weights(2)] \<open>tally 5 seated (stu_at s) = 0\<close> by simp
  then have "stu_at s u = C_help1" using u(2) by (cases "stu_at s u") simp_all
  then show ?thesis using u(1) stu_can_move [of s u] by (auto simp: asking_def)
qed

lemma help_pending:
  assumes "acc_ok s" "ta_at s = H_help2" "TA_help_request_sem2 s = 0" "tm_at s \<noteq> M_init"
  shows "\<exists>u<5. asking (stu_at s u) \<and> stu_can u s"
proof (cases "Chair_outside_sem s = 0")
  case False
  then have "0 < tally 5 seated (stu_at s)" using assms by (simp add: acc_ok_def acc_seated_def)
  then obtain u where u: "u < 5" "0 < seated (stu_at s u)" using tally_pos by blast
  then have "asking (stu_at s u)" "coming (stu_at s u) = 0" "sitting (stu_at s u) = 0"
    by (cases "stu_at s u"; simp add: asking_def)+
  then show ?thesis using u(1) False stu_can_move [of s u] by fastforce
next
  case True
  then have coming: "tally 5 coming (stu_at s) = 1" using assms by (simp add: acc_ok_def acc_coming_def)
  then obtain u where u: "u < 5" "0 < coming (stu_at s u)" using tally_pos [of 5 coming "stu_at s"] by auto
  have ask: "asking (stu_at s u)" using u(2) by (cases "stu_at s u") (simp_all add: asking_def)
  have free: "0 < TA_lock_sem s" if l: "stu_at s u = A_lock"
  proof (rule ccontr)
    assume "\<not> 0 < TA_lock_sem s"
    then have "0 < tally 5 locked (stu_at s)" using assms(1,4) by (cases "tm_at s") (simp_all add: acc_ok_def acc_lock_def)
    then obtain v where v: "v < 5" "0 < locked (stu_at s v)" using tally_pos by blast
    then have "v \<noteq> u" using l by auto
    have "coming (stu_at s u) + coming (stu_at s v) \<le> 1"
      using tally_ge_two [of coming u 5 v "stu_at s", OF stu_weights(3) u(1) v(1)] \<open>v \<noteq> u\<close> coming by simp
    then have "coming (stu_at s v) = 0" using l stu_weights(3) [of "stu_at s v"] by simp
    moreover have "sitting (stu_at s v) = 0" "leaving (stu_at s v) = 0"
      using tally_ge_one [of sitting v 5 "stu_at s", OF stu_weights(4) v(1)] stu_weights(4,5) [of "stu_at s v"]
        tally_ge_one [of leaving v 5 "stu_at s", OF stu_weights(5) v(1)] undismissed [OF assms(1)] assms(1-3)
      by (simp_all add: acc_ok_def acc_office_def)
    ultimately show False using v(2) by (cases "stu_at s v") simp_all
  qed
  then show ?thesis using u ask stu_can_move [of s u] by fastforce
qed

lemma leave_pending:
  assumes "acc_ok s" "ta_at s = H_help3" "TA_help_request_sem3 s = 0"
  shows "\<exists>u<5. asking (stu_at s u) \<and> stu_can u s"
proof (cases "TA_office_chair_sem s = 0")
  case True
  then have "0 < tally 5 leaving (stu_at s)" using assms by (simp add: acc_ok_def acc_leaving_def)
  then obtain u where u: "u < 5" "0 < leaving (stu_at s u)" using tally_pos by blast
  then have "asking (stu_at s u)" "coming (stu_at s u) = 0" "sitting (stu_at s u) = 0" "requested (stu_at s u) = 0"
    by (cases "stu_at s u"; simp add: asking_def)+
  then show ?thesis using u(1) stu_can_move [of s u] by fastforce
next
  case False
  then have "0 < tally 5 sitting (stu_at s)" using assms by (simp add: acc_ok_def acc_office_def)
  then obtain u where u: "u < 5" "0 < sitting (stu_at s u)" using tally_pos by blast
  then have "stu_at s u = A_office" by (cases "stu_at s u") simp_all
  then show ?thesis using u(1) False stu_can_move [of s u] by (auto simp: asking_def)
qed

section \<open>Properties\<close>

lemma ta_inv_teaches_one:
  assumes inv: "ta_inv s"
  shows "(\<forall>t u. stu_at s t \<in> {A_with, A_help2, A_office, A_leave, A_unlock} \<longrightarrow>
       stu_at s u \<in> {A_with, A_help2, A_office, A_leave, A_unlock} \<longrightarrow> t = u) \<and>
    (ta_at s \<in> {H_teach, H_prog} \<longrightarrow> (\<exists>t<5. student_with_TA s = int t \<and> stu_at s t = A_office \<and>
       (\<forall>u<5. Students s ! u = WITH_TA \<longleftrightarrow> u = t)))"
proof (intro conjI allI impI)
  have a: "acc_ok s" and st: "stu_ok s" using inv by (simp_all add: ta_inv_def)
  show "t = u" if t: "stu_at s t \<in> {A_with, A_help2, A_office, A_leave, A_unlock}"
    and u: "stu_at s u \<in> {A_with, A_help2, A_office, A_leave, A_unlock}" for t u
  proof (rule ccontr)
    assume ne: "t \<noteq> u"
    have b: "stu_at s t \<noteq> S_unborn" "stu_at s u \<noteq> S_unborn" using t u by auto
    have l: "locked (stu_at s t) = 1" "locked (stu_at s u) = 1" using t u by auto
    show False using lock_exclusive [OF a stu_facts(1) [OF inv b(1)] stu_facts(1) [OF inv b(2)] ne l(1)] l(2) by simp
  qed
  assume teach: "ta_at s \<in> {H_teach, H_prog}"
  then have "helping (ta_at s) = 1" by auto
  from swt_student [OF inv this] obtain t where t: "t < 5" "stu_at s t = A_office" "student_with_TA s = int t"
    "\<forall>u<5. u \<noteq> t \<longrightarrow> stu_at s u \<noteq> A_office" by blast
  moreover have "Students s ! u = WITH_TA \<longleftrightarrow> u = t" if "u < 5" for u
  proof -
    have "Students s ! u = stu_state (stu_at s u) (ta_at s) (TA_office_chair_sem s)"
      using st that unfolding stu_ok_def by blast
    moreover have "u \<noteq> t \<Longrightarrow> stu_at s u \<noteq> A_office" using t(4) that by blast
    moreover have "office_state (ta_at s) (TA_office_chair_sem s) = WITH_TA" using teach by (auto simp: office_state_def)
    ultimately show ?thesis using t(2) by (cases "u = t") (simp_all add: stu_state_def)
  qed
  ultimately show "\<exists>t<5. student_with_TA s = int t \<and> stu_at s t = A_office \<and> (\<forall>u<5. Students s ! u = WITH_TA \<longleftrightarrow> u = t)"
    by blast
qed

text \<open>C16: In every reachable state of the sleeping TA program, for all return codes and whichever comes first in
  \<open>pthread_create\<close>, at most one student is inside the office, that is between
  taking and releasing the TA's lock, and while the TA teaches, the student it has recorded is the one
  sitting in the office chair, in state WITH_TA, and no other student has that state.\<close>

theorem ta_teaches_one:
  assumes "reachable (ta_step store_first irc rc) ta_init s"
  shows "(\<forall>t u. stu_at s t \<in> {A_with, A_help2, A_office, A_leave, A_unlock} \<longrightarrow>
       stu_at s u \<in> {A_with, A_help2, A_office, A_leave, A_unlock} \<longrightarrow> t = u) \<and>
    (ta_at s \<in> {H_teach, H_prog} \<longrightarrow> (\<exists>t<5. student_with_TA s = int t \<and> stu_at s t = A_office \<and>
       (\<forall>u<5. Students s ! u = WITH_TA \<longleftrightarrow> u = t)))"
  using assms
proof (cases rule: ta_reachable)
  case runs
  then show ?thesis using ta_inv_teaches_one [of "stored s"] by simp
next
  case (lost r)
  then obtain a where "s = fail a r" by (auto simp: lost_def)
  then show ?thesis using ta_inv_teaches_one [OF lost(3)] by simp
qed (simp add: ta_init_def)

text \<open>A schedule: main creates everyone, student 0 sits down, is called in and is being taught.\<close>

definition lesson :: "ta_event list" where
  "lesson = replicate 7 TMain @ replicate 9 (Student 0 0) @ replicate 5 (TA_moves 0) @
     replicate 8 (Student 0 0) @ replicate 4 (TA_moves 0)"

theorem ta_teaches_one_witness:
  "\<exists>s. reachable (ta_step True no_error (\<lambda>_. 0)) ta_init s \<and> ta_at s = H_teach \<and>
     (\<exists>t<5. student_with_TA s = int t \<and> stu_at s t = A_office \<and> (\<forall>u<5. Students s ! u = WITH_TA \<longleftrightarrow> u = t))"
proof -
  have "map_option ta_at (run (ta_step True no_error (\<lambda>_. 0)) lesson ta_init) = Some H_teach" by code_simp
  then obtain s where s: "run (ta_step True no_error (\<lambda>_. 0)) lesson ta_init = Some s" "ta_at s = H_teach"
    by (auto simp del: run.simps)
  from run_reachable [OF reachable.start s(1)] have r: "reachable (ta_step True no_error (\<lambda>_. 0)) ta_init s" .
  with ta_teaches_one [OF r] s(2) show ?thesis by blast
qed



lemma stored_stu_can:
  assumes "stu_can t (stored s)" "asking (stu_at s t)" "TA_tid (stored s) \<noteq> Some t"
  shows "stu_can t s"
  using assms
  by (cases "stu_at s t")
    (auto simp: stu_can_def asking_def Student_thread_func_def in_acquire_TA_def acquire_TA_def acquire_chair_def)

text \<open>C17: No request for help is lost: as long as the program has not been stopped and some student has asked (from its first
  post until it has released the TA), the TA or a student that has asked can take a step; serving
  requests never depends on students that are still programming; for all return codes and either order in \<open>pthread_create\<close>.\<close>

theorem ta_serves_requests:
  assumes "reachable (ta_step store_first irc rc) ta_init s" "stopped s = None" "asking (stu_at s t)"
  shows "(\<exists>s'. ta_step store_first irc rc (TA_moves 0) s = Some s') \<or>
    (\<exists>u s'. asking (stu_at s u) \<and> ta_step store_first irc rc (Student u 0) s = Some s')"
proof -
  from assms have inv: "ta_inv (stored s)" by (cases rule: ta_reachable) (auto simp: lost_def)
  then have a: "acc_ok (stored s)" by (simp add: ta_inv_def)
  have b: "stu_at s t \<noteq> S_unborn" using assms(3) by (auto simp: asking_def)
  have t: "t < 5" using stu_facts(1) [OF inv] b by simp
  have m: "tm_at (stored s) \<noteq> M_init" "ta_at s \<noteq> T_unborn" "ta_at s \<noteq> T_exited"
    using inv b by (auto simp: ta_inv_def main_ok_def split: tm_pc.splits)
  have move: ?thesis if "\<exists>u<5. asking (stu_at (stored s) u) \<and> stu_can u (stored s)"
  proof -
    from that obtain u where u: "u < 5" "asking (stu_at s u)" "stu_can u (stored s)" by auto
    have "TA_tid (stored s) \<noteq> Some u" using inv u(1) by (auto simp: ta_inv_def ids_ok_def)
    then show ?thesis using stored_stu_can [OF u(3,2)] u(2) assms(2) by (auto simp: stu_can_def)
  qed
  show ?thesis
  proof (cases "TA_thread_func 0 s")
    case (Some s')
    then show ?thesis using assms(2) by auto
  next
    case None
    then consider "ta_at s = T_nap_wait" "TA_help_request_sem s = 0" | "ta_at s = W_help1" "TA_help_request_sem1 s = 0"
      | "ta_at s = H_help2" "TA_help_request_sem2 s = 0" | "ta_at s = H_help3" "TA_help_request_sem3 s = 0"
      using m by (cases "ta_at s") (auto simp: ta_defs sem_wait_def split: if_splits)
    then show ?thesis
    proof cases
      case 1
      then show ?thesis using nap_idle [OF a _ _ t] 1 assms(3) by simp
    next
      case 2
      then show ?thesis using move call_pending [OF a] 2 by simp
    next
      case 3
      then show ?thesis using move help_pending [OF a _ _ m(1)] 3 by simp
    next
      case 4
      then show ?thesis using move leave_pending [OF a] 4 by simp
    qed
  qed
qed

theorem ta_serves_requests_witness:
  "\<exists>s. reachable (ta_step True no_error (\<lambda>_. 0)) ta_init s \<and> stu_at s 0 = A_office \<and>
     ((\<exists>s'. ta_step True no_error (\<lambda>_. 0) (TA_moves 0) s = Some s') \<or>
      (\<exists>u s'. asking (stu_at s u) \<and> ta_step True no_error (\<lambda>_. 0) (Student u 0) s = Some s'))"
proof -
  have "map_option (\<lambda>s. (stopped s, stu_at s 0)) (run (ta_step True no_error (\<lambda>_. 0)) lesson ta_init) = Some (None, A_office)" by code_simp
  then obtain s where s: "run (ta_step True no_error (\<lambda>_. 0)) lesson ta_init = Some s" "stopped s = None" "stu_at s 0 = A_office"
    by (auto simp del: run.simps)
  from run_reachable [OF reachable.start s(1)] have r: "reachable (ta_step True no_error (\<lambda>_. 0)) ta_init s" .
  have ask: "asking (stu_at s 0)" using s(3) by (simp add: asking_def)
  show ?thesis using ta_serves_requests [OF r s(2) ask] r s(3) by blast
qed

text \<open>One student leaves its chair while another one takes one: the increment is overwritten.\<close>

definition lost_increment :: "tid \<Rightarrow> tid \<Rightarrow> ta_event list" where
  "lost_increment x y = replicate 5 (TA_moves 0) @ [Student x 0] @ replicate 5 (Student y 0) @
     [Student x 0, Student y 0, Student x 0, Student y 0]"

definition finish_lesson :: "tid \<Rightarrow> tid \<Rightarrow> ta_event list" where
  "finish_lesson x y = [Student y 0] @ replicate 5 (Student x 0) @ replicate 7 (TA_moves 0) @ replicate 4 (Student x 0) @ [TA_moves 0]"

text \<open>The assertion on free_chairs_count in line 476 can fail: the counter is changed without synchronisation, three
  interleaved updates lose three increments, and a student who was granted a chair then finds it negative.\<close>

theorem ta_chair_count_race:
  "\<exists>s. reachable (ta_step True no_error (\<lambda>_. 0)) ta_init s \<and> free_chairs_count s = -1 \<and> stopped s = Some (Assertion 476)"
proof -
  let ?es = "replicate 7 TMain @ replicate 9 (Student 0 0) @ [Student 1 0] @ lost_increment 0 1 @ finish_lesson 0 1 @
    lost_increment 1 0 @ finish_lesson 1 0 @ lost_increment 0 1 @ replicate 4 (Student 2 0)"
  have "map_option (\<lambda>s. (free_chairs_count s, stopped s)) (run (ta_step True no_error (\<lambda>_. 0)) ?es ta_init) =
      Some (-1, Some (Assertion 476))" by code_simp
  then obtain s where s: "run (ta_step True no_error (\<lambda>_. 0)) ?es ta_init = Some s" "free_chairs_count s = -1"
    "stopped s = Some (Assertion 476)" by (auto simp del: run.simps)
  from run_reachable [OF reachable.start s(1)] s show ?thesis by blast
qed

text \<open>If \<open>pthread_create\<close> stores the identifier after the thread has started, the TA may find that it is not the
  TA, and a student may not find itself.\<close>

lemma ta_identifier_race:
  "\<exists>s. run (ta_step False no_error rc) [TMain, TMain, TA_moves 0] ta_init = Some s \<and> stopped s = Some (Assertion 605)"
  "\<exists>s. run (ta_step False no_error rc) [TMain, TMain, TMain, TMain, Student 0 0] ta_init = Some s \<and> stopped s = Some (Assertion 455)"
proof -
  have n: "find_student (\<lambda>_. None) j t = Inl (Assertion 455)" for j t
    by (induction "\<lambda>_ :: nat. None :: tid option" j t rule: find_student.induct) (subst find_student.simps, simp)
  show "\<exists>s. run (ta_step False no_error rc) [TMain, TMain, TA_moves 0] ta_init = Some s \<and> stopped s = Some (Assertion 605)"
    by (simp add: ta_init_def ta_main_def init_state_def TA_thread_func_def TA_take_nap_def fail_def)
  show "\<exists>s. run (ta_step False no_error rc) [TMain, TMain, TMain, TMain, Student 0 0] ta_init = Some s \<and> stopped s = Some (Assertion 455)"
    by (simp add: ta_init_def ta_main_def init_state_def NUM_STUDENTS_def Student_thread_func_def in_acquire_TA_def
        get_student_id_def ta_tid_def fail_def n)
qed

end
