(* ===== verification/Monte_Carlo.thy ===== *)
theory Monte_Carlo
  imports Posix_Sync
begin

text \<open>
  The Monte Carlo estimates of pi: \<open>pp4.22.c\<close> with one worker, \<open>pp4.23.c\<close> with an OpenMP region and
  \<open>pp5.39.c\<close> with sixteen workers that add their counts under a mutex. \<open>drand48\<close> yields the
  48-bit values of its linear congruential generator over 2^48; the coordinates \<open>(drand48() - 0.5) * 2.0\<close>
  are exact in \<open>double\<close>, multiples of 2^-47, and are kept as integers in that unit. Squares and their sum are
  rounded to 53 significant bits, half to even, as IEEE double arithmetic does, in the unit 2^-94.
  With several threads the calls of \<open>drand48\<close> interleave in an unspecified way, so there the values drawn
  by each thread are a parameter \<open>draw\<close>.
\<close>

section \<open>Floating point and random numbers\<close>

fun bit_len :: "nat \<Rightarrow> nat" where
  "bit_len n = (if n = 0 then 0 else Suc (bit_len (n div 2)))"

declare bit_len.simps [simp del]

definition round_double :: "nat \<Rightarrow> nat" where
  "round_double n =
     (if bit_len n \<le> 53 then n
      else let k = bit_len n - 53; q = n div 2 ^ k; r = n mod 2 ^ k in
        if 2 * r < 2 ^ k \<or> 2 * r = 2 ^ k \<and> even q then q * 2 ^ k else (q + 1) * 2 ^ k)"

text \<open>\<open>srand48\<close> and the generator behind \<open>drand48\<close>.\<close>

definition srand48 :: "int \<Rightarrow> int" where
  "srand48 seed = (seed mod 2 ^ 32) * 2 ^ 16 + 13070"

definition drand48_next :: "int \<Rightarrow> int" where
  "drand48_next x = (25214903917 * x + 11) mod 2 ^ 48"

definition monte_carlo_get_rand_point :: "int \<Rightarrow> int \<Rightarrow> int \<times> int" where
  "monte_carlo_get_rand_point a b = (a - 2 ^ 47, b - 2 ^ 47)"

definition distance :: "int \<Rightarrow> int \<Rightarrow> nat" where
  "distance x y = round_double (round_double (nat (x * x)) + round_double (nat (y * y)))"

definition monte_carlo_is_point_in_circle :: "int \<times> int \<Rightarrow> int" where
  "monte_carlo_is_point_in_circle p = (case p of (x, y) \<Rightarrow> if distance x y < 2 ^ 94 then 1 else 0)"

text \<open>\<open>4.0 * num_inside / num_total\<close>, as the operands of the division.\<close>

definition monte_carlo_estimate_pi :: "nat \<Rightarrow> int \<Rightarrow> int \<Rightarrow> (int \<times> int) c_result" where
  "monte_carlo_estimate_pi line num_inside num_total =
     (if num_inside \<ge> 0 \<and> num_total \<ge> 0 then Inr (4 * num_inside, num_total) else Inl (Assertion line))"

section \<open>One worker: pp4.22.c\<close>

definition NUM_RAND_POINTS :: nat where
  "NUM_RAND_POINTS = 65536"

text \<open>\<open>init_state\<close>: the outcome of \<open>fopen\<close>, the result of \<open>fread\<close>, that of \<open>fclose\<close> and the seed read. The
  return codes of the checked calls of the pthread library, in their order, are kept beside them.\<close>

record urandom =
  opened :: bool
  read_items :: int
  close_rc :: int
  my_seed :: int
  thread_rc :: "nat \<Rightarrow> int"

definition init_state :: "urandom \<Rightarrow> int c_result" where
  "init_state f = (if \<not> opened f then Inl (Assertion 72)
     else if read_items f \<noteq> 1 then Inl (Assertion 77)
     else if close_rc f \<noteq> 0 then Inl (Assertion 85) else Inr (srand48 (my_seed f)))"

text \<open>The loop of the worker, with \<open>n\<close> points to go, the generator's state and the count so far.\<close>

fun worker_loop :: "nat \<Rightarrow> int \<Rightarrow> int \<Rightarrow> int" where
  "worker_loop 0 g cnt = cnt"
| "worker_loop (Suc n) g cnt = (let a = drand48_next g; b = drand48_next a in
     worker_loop n b (if monte_carlo_is_point_in_circle (monte_carlo_get_rand_point a b) \<noteq> 0 then cnt + 1 else cnt))"

definition Worker_thread_func :: "int \<Rightarrow> int" where
  "Worker_thread_func g = worker_loop NUM_RAND_POINTS g 0"

text \<open>The program prints the count, the total and the estimate.\<close>

definition mc22_main :: "urandom \<Rightarrow> (int \<times> int \<times> (int \<times> int)) c_result" where
  "mc22_main f = c_bind (init_state f) (\<lambda>g.
     c_bind (checked_calls (thread_rc f) 0 [110, 117]) (\<lambda>_. let inside = Worker_thread_func g in
     c_bind (monte_carlo_estimate_pi 93 inside (int NUM_RAND_POINTS)) (\<lambda>e.
       Inr (inside, int NUM_RAND_POINTS, e))))"

section \<open>An OpenMP region: pp4.23.c\<close>

text \<open>
  The loop of a thread whose \<open>i\<close>-th call of \<open>drand48\<close> yields \<open>draw i\<close>. Each of the \<open>n\<close> threads of the region
  then adds its count and its number of points to the shared totals, a read and a write each; the end
  of the region is a barrier.
\<close>

fun draws_loop :: "(nat \<Rightarrow> int) \<Rightarrow> nat \<Rightarrow> nat \<Rightarrow> int \<Rightarrow> int" where
  "draws_loop draw 0 i cnt = cnt"
| "draws_loop draw (Suc n) i cnt = draws_loop draw n (i + 1)
     (if monte_carlo_is_point_in_circle (monte_carlo_get_rand_point (draw (2 * i)) (draw (2 * i + 1))) \<noteq> 0 then cnt + 1 else cnt)"

datatype omp_pc = O_loop | O_read | O_write | O_total_read | O_total_write | O_done

datatype omp_main_pc = OM_init | OM_region | OM_exit

record omp_state =
  o_main :: omp_main_pc
  o_inside_circle_count :: int
  o_total_points :: int
  o_at :: "nat \<Rightarrow> omp_pc"
  o_tmp :: "nat \<Rightarrow> int"
  o_my_inside_count :: "nat \<Rightarrow> int"
  o_printed :: "(int \<times> int \<times> (int \<times> int)) option"
  o_stopped :: bool

definition omp_init :: omp_state where
  "omp_init = \<lparr>o_main = OM_init, o_inside_circle_count = 0, o_total_points = 0, o_at = (\<lambda>_. O_loop), o_tmp = (\<lambda>_. 0),
     o_my_inside_count = (\<lambda>_. 0), o_printed = None, o_stopped = False\<rparr>"

datatype omp_event = O_main | O_thread nat

definition omp_init_state :: "urandom \<Rightarrow> omp_state \<Rightarrow> omp_state c_result" where
  "omp_init_state f s = (if \<not> opened f then Inl (Assertion 51)
     else if read_items f \<noteq> 1 then Inl (Assertion 56)
     else if close_rc f \<noteq> 0 then Inl (Assertion 64) else Inr (s\<lparr>o_inside_circle_count := 0\<rparr>))"

definition omp_main :: "urandom \<Rightarrow> nat \<Rightarrow> omp_state \<Rightarrow> omp_state option" where
  "omp_main f n s = (case o_main s of
     OM_init \<Rightarrow> Some (case omp_init_state f s of Inl e \<Rightarrow> s\<lparr>o_stopped := True\<rparr> | Inr s' \<Rightarrow> s'\<lparr>o_main := OM_region\<rparr>)
   | OM_region \<Rightarrow> if \<forall>t<n. o_at s t = O_done
       then Some (case monte_carlo_estimate_pi 74 (o_inside_circle_count s) (o_total_points s) of
           Inl e \<Rightarrow> s\<lparr>o_stopped := True\<rparr>
         | Inr e \<Rightarrow> s\<lparr>o_printed := Some (o_inside_circle_count s, o_total_points s, e), o_main := OM_exit\<rparr>)
       else None
   | OM_exit \<Rightarrow> None)"

definition omp_thread :: "(nat \<Rightarrow> nat \<Rightarrow> int) \<Rightarrow> nat \<Rightarrow> omp_state \<Rightarrow> omp_state option" where
  "omp_thread draw t s = (case o_at s t of
     O_loop \<Rightarrow> Some (s\<lparr>o_my_inside_count := (o_my_inside_count s)(t := draws_loop (draw t) NUM_RAND_POINTS 0 0),
       o_at := (o_at s)(t := O_read)\<rparr>)
   | O_read \<Rightarrow> Some (s\<lparr>o_tmp := (o_tmp s)(t := o_inside_circle_count s), o_at := (o_at s)(t := O_write)\<rparr>)
   | O_write \<Rightarrow> Some (s\<lparr>o_inside_circle_count := o_tmp s t + o_my_inside_count s t, o_at := (o_at s)(t := O_total_read)\<rparr>)
   | O_total_read \<Rightarrow> Some (s\<lparr>o_tmp := (o_tmp s)(t := o_total_points s), o_at := (o_at s)(t := O_total_write)\<rparr>)
   | O_total_write \<Rightarrow> Some (s\<lparr>o_total_points := o_tmp s t + int NUM_RAND_POINTS, o_at := (o_at s)(t := O_done)\<rparr>)
   | O_done \<Rightarrow> None)"

fun omp_step :: "urandom \<Rightarrow> (nat \<Rightarrow> nat \<Rightarrow> int) \<Rightarrow> nat \<Rightarrow> omp_event \<Rightarrow> omp_state \<Rightarrow> omp_state option" where
  "omp_step f draw n O_main s = (if o_stopped s then None else omp_main f n s)"
| "omp_step f draw n (O_thread t) s = (if o_stopped s \<or> o_main s \<noteq> OM_region \<or> n \<le> t then None else omp_thread draw t s)"

section \<open>Sixteen workers and a mutex: pp5.39.c\<close>

definition NUM_WORKER_THREADS :: nat where
  "NUM_WORKER_THREADS = 16"

datatype mc_pc = W_unborn | W_loop | W_lock | W_read | W_write | W_unlock | W_exited

datatype mc_main_pc = MC_init | MC_create nat | MC_join nat | MC_print | MC_cleanup | MC_exit

record mc_state =
  inside_circle_count :: int
  mutex :: mutex
  mc_at :: "nat \<Rightarrow> mc_pc"
  mc_tmp :: "nat \<Rightarrow> int"
  my_inside_count :: "nat \<Rightarrow> int"
  mc_main_at :: mc_main_pc
  printed :: "(int \<times> int \<times> (int \<times> int)) option"
  stopped :: "c_abort option"

definition mc_init :: mc_state where
  "mc_init = \<lparr>inside_circle_count = 0, mutex = None, mc_at = (\<lambda>_. W_unborn), mc_tmp = (\<lambda>_. 0),
     my_inside_count = (\<lambda>_. 0), mc_main_at = MC_init, printed = None, stopped = None\<rparr>"

definition fail :: "c_abort \<Rightarrow> mc_state \<Rightarrow> mc_state" where
  "fail e s = s\<lparr>stopped := Some e\<rparr>"

definition mc_goto :: "nat \<Rightarrow> mc_pc \<Rightarrow> mc_state \<Rightarrow> mc_state" where
  "mc_goto t p s = s\<lparr>mc_at := (mc_at s)(t := p)\<rparr>"

definition mc_init_state :: "urandom \<Rightarrow> int c_result" where
  "mc_init_state f = (if \<not> opened f then Inl (Assertion 74)
     else if read_items f \<noteq> 1 then Inl (Assertion 79)
     else if close_rc f \<noteq> 0 then Inl (Assertion 87)
     else c_bind (checked_calls (thread_rc f) 0 [96]) (\<lambda>_. Inr (srand48 (my_seed f))))"

definition mc_worker :: "(nat \<Rightarrow> nat \<Rightarrow> int) \<Rightarrow> nat \<Rightarrow> mc_state \<Rightarrow> mc_state option" where
  "mc_worker draw t s = (case mc_at s t of
     W_loop \<Rightarrow> Some (mc_goto t W_lock
       (s\<lparr>my_inside_count := (my_inside_count s)(t := draws_loop (draw t) NUM_RAND_POINTS 0 0)\<rparr>))
   | W_lock \<Rightarrow> map_option (\<lambda>m. mc_goto t W_read (s\<lparr>mutex := m\<rparr>)) (mutex_lock t (mutex s))
   | W_read \<Rightarrow> Some (mc_goto t W_write (s\<lparr>mc_tmp := (mc_tmp s)(t := inside_circle_count s)\<rparr>))
   | W_write \<Rightarrow> Some (mc_goto t W_unlock (s\<lparr>inside_circle_count := mc_tmp s t + my_inside_count s t\<rparr>))
   | W_unlock \<Rightarrow> Some (case mutex_unlock t (mutex s) of
       None \<Rightarrow> fail (Assertion 233) s | Some m \<Rightarrow> mc_goto t W_exited (s\<lparr>mutex := m\<rparr>))
   | _ \<Rightarrow> None)"

definition cleanup_state :: "mc_state \<Rightarrow> mc_state" where
  "cleanup_state s = (let s' = s\<lparr>inside_circle_count := 0\<rparr> in
     if mutex_destroy_ok (mutex s') then s'\<lparr>mc_main_at := MC_exit\<rparr> else fail (Assertion 58) s')"

text \<open>
  \<open>main\<close>: \<open>thread_rc f\<close> is the return code of \<open>pthread_mutex_init\<close> at 0, of \<open>pthread_attr_init\<close> at 1, of the \<open>i\<close>-th
  \<open>pthread_create\<close> at \<open>i + 2\<close> and of the \<open>i\<close>-th \<open>pthread_join\<close> at \<open>i + 18\<close>; each of them is checked.
\<close>

definition mc_main :: "urandom \<Rightarrow> mc_state \<Rightarrow> mc_state option" where
  "mc_main f s = (case mc_main_at s of
     MC_init \<Rightarrow> Some (case c_bind (mc_init_state f) (\<lambda>_. checked_calls (thread_rc f) 1 [121]) of
       Inl e \<Rightarrow> fail e s | Inr _ \<Rightarrow> s\<lparr>mutex := None, mc_main_at := MC_create 0\<rparr>)
   | MC_create i \<Rightarrow> Some (if i < NUM_WORKER_THREADS
       then if thread_rc f (i + 2) \<noteq> 0 then fail (Assertion 128) s else s\<lparr>mc_at := (mc_at s)(i := W_loop), mc_main_at := MC_create (i + 1)\<rparr> else s\<lparr>mc_main_at := MC_join 0\<rparr>)
   | MC_join i \<Rightarrow> if i < NUM_WORKER_THREADS
       then if mc_at s i \<noteq> W_exited then None
            else Some (if thread_rc f (i + 18) \<noteq> 0 then fail (Assertion 137) s else s\<lparr>mc_main_at := MC_join (i + 1)\<rparr>)
       else Some (s\<lparr>mc_main_at := MC_print\<rparr>)
   | MC_print \<Rightarrow> Some (let tot = int (NUM_RAND_POINTS * NUM_WORKER_THREADS) in
       case monte_carlo_estimate_pi 104 (inside_circle_count s) tot of
         Inl e \<Rightarrow> fail e s
       | Inr e \<Rightarrow> s\<lparr>printed := Some (inside_circle_count s, tot, e), mc_main_at := MC_cleanup\<rparr>)
   | MC_cleanup \<Rightarrow> Some (cleanup_state s)
   | MC_exit \<Rightarrow> None)"

datatype mc_event = MC_main | MC_worker nat

fun mc_step :: "urandom \<Rightarrow> (nat \<Rightarrow> nat \<Rightarrow> int) \<Rightarrow> mc_event \<Rightarrow> mc_state \<Rightarrow> mc_state option" where
  "mc_step f draw MC_main s = (if stopped s \<noteq> None then None else mc_main f s)"
| "mc_step f draw (MC_worker t) s = (if stopped s \<noteq> None then None else mc_worker draw t s)"

section \<open>Rounding\<close>

lemma bit_len_upper: "n < 2 ^ bit_len n"
proof (induction n rule: bit_len.induct)
  case (1 n)
  show ?case
  proof (cases "n = 0")
    case False
    then have "n div 2 < 2 ^ bit_len (n div 2)" by (rule 1)
    then show ?thesis using False by (subst bit_len.simps) simp
  qed (simp add: bit_len.simps)
qed

lemma bit_len_le: "n < 2 ^ m \<Longrightarrow> bit_len n \<le> m"
proof (induction n arbitrary: m rule: bit_len.induct)
  case (1 n)
  show ?case
  proof (cases "n = 0")
    case False
    then obtain l where "m = Suc l" using 1(2) by (cases m) auto
    then have "bit_len (n div 2) \<le> l" using 1 False by simp
    then show ?thesis using False \<open>m = Suc l\<close> by (subst bit_len.simps) simp
  qed (simp add: bit_len.simps)
qed

lemma round_double_error:
  assumes "n < 2 ^ (m + 53)"
  shows "2 * \<bar>int (round_double n) - int n\<bar> \<le> 2 ^ m"
proof (cases "bit_len n \<le> 53")
  case True
  then show ?thesis by (simp add: round_double_def)
next
  case False
  define k where "k = bit_len n - 53"
  define p q r where "p = (2::nat) ^ k" and "q = n div p" and "r = n mod p"
  have n: "n = q * p + r" unfolding q_def r_def by (rule div_mult_mod_eq [symmetric])
  then have ni: "int n = int q * int p + int r" by (metis of_nat_add of_nat_mult)
  have r: "r < p" by (simp add: r_def p_def)
  have k: "int p \<le> 2 ^ m" using bit_len_le [OF assms] unfolding p_def of_nat_power
    by (simp add: k_def power_increasing)
  have rd: "round_double n = (if 2 * r < p \<or> 2 * r = p \<and> even q then q * p else (q + 1) * p)"
    using False by (simp add: round_double_def Let_def k_def p_def q_def r_def)
  have "2 * \<bar>int (round_double n) - int n\<bar> \<le> int p"
  proof (cases "2 * r < p \<or> 2 * r = p \<and> even q")
    case True
    then have "\<bar>int (round_double n) - int n\<bar> = int r" using rd ni by simp
    moreover have "2 * int r \<le> int p" using True by auto
    ultimately show ?thesis by simp
  next
    case up: False
    then have "\<bar>int (round_double n) - int n\<bar> = int p - int r" using rd ni r by (simp add: algebra_simps)
    moreover have "int p \<le> 2 * int r" using up by auto
    ultimately show ?thesis by simp
  qed
  then show ?thesis using k by (rule order_trans)
qed

lemma circle_test:
  assumes "\<bar>x\<bar> \<le> 2 ^ 47" "\<bar>y\<bar> \<le> 2 ^ 47"
  shows "\<bar>int (distance x y) - (x * x + y * y)\<bar> \<le> 2 ^ 43"
proof -
  have sq: "0 \<le> z * z \<and> z * z \<le> 2 ^ 94" if "\<bar>z\<bar> \<le> 2 ^ 47" for z :: int
  proof -
    have "\<bar>z\<bar> * \<bar>z\<bar> \<le> 2 ^ 47 * 2 ^ 47" using that by (intro mult_mono) auto
    then show ?thesis by (simp add: power2_eq_square)
  qed
  define a b where "a = nat (x * x)" and "b = nat (y * y)"
  have ab: "int a = x * x" "int b = y * y" "int a \<le> 2 ^ 94" "int b \<le> 2 ^ 94"
    using sq [OF assms(1)] sq [OF assms(2)] by (simp_all add: a_def b_def)
  have ea: "2 * \<bar>int (round_double a) - int a\<bar> \<le> 2 ^ 42"
    by (rule round_double_error) (use ab in simp)
  have eb: "2 * \<bar>int (round_double b) - int b\<bar> \<le> 2 ^ 42"
    by (rule round_double_error) (use ab in simp)
  have "2 * \<bar>int (round_double (round_double a + round_double b)) - int (round_double a + round_double b)\<bar> \<le> 2 ^ 43"
    by (rule round_double_error) (use ab ea eb in simp)
  then show ?thesis using ea eb ab by (simp add: distance_def a_def [symmetric] b_def [symmetric])
qed

section \<open>Counting loops\<close>

abbreviation hit :: "int \<Rightarrow> int \<Rightarrow> bool" where
  "hit a b \<equiv> monte_carlo_is_point_in_circle (monte_carlo_get_rand_point a b) = 1"

lemma hit_iff: "monte_carlo_is_point_in_circle p \<noteq> 0 \<longleftrightarrow> monte_carlo_is_point_in_circle p = 1"
  by (cases p) (simp add: monte_carlo_is_point_in_circle_def)

lemma draws_loop_eq:
  "draws_loop draw n i c = c + int (card {j. i \<le> j \<and> j < i + n \<and> hit (draw (2 * j)) (draw (2 * j + 1))})"
proof (induction n arbitrary: i c)
  case (Suc n)
  let ?H = "\<lambda>j. hit (draw (2 * j)) (draw (2 * j + 1))"
  have split: "{j. i \<le> j \<and> j < i + Suc n \<and> ?H j} =
      (if ?H i then insert i {j. i + 1 \<le> j \<and> j < i + 1 + n \<and> ?H j} else {j. i + 1 \<le> j \<and> j < i + 1 + n \<and> ?H j})"
    by (auto simp: Suc_le_eq order_le_less)
  have "finite {j. i + 1 \<le> j \<and> j < i + 1 + n \<and> ?H j}" by (rule finite_subset [of _ "{..<i + 1 + n}"]) auto
  then show ?case unfolding split using Suc by (simp add: hit_iff)
qed simp

lemma draws_loop_bounds: "0 \<le> draws_loop draw n 0 0" "draws_loop draw n 0 0 \<le> int n"
proof -
  have "card {j. 0 \<le> j \<and> j < 0 + n \<and> hit (draw (2 * j)) (draw (2 * j + 1))} \<le> card {..<n}"
    by (rule card_mono) auto
  then show "0 \<le> draws_loop draw n 0 0" "draws_loop draw n 0 0 \<le> int n" by (simp_all add: draws_loop_eq)
qed

text \<open>The loop of \<open>pp4.22.c\<close> draws the values of one generator one after the other.\<close>

definition generator :: "int \<Rightarrow> nat \<Rightarrow> int" where
  "generator g i = (drand48_next ^^ Suc i) g"

lemma worker_loop_draws:
  "worker_loop n (if i = 0 then g else generator g (2 * i - 1)) c = draws_loop (generator g) n i c"
proof (induction n arbitrary: i c)
  case (Suc n)
  let ?g = "if i = 0 then g else generator g (2 * i - 1)"
  have a: "drand48_next ?g = generator g (2 * i)"
    by (cases i) (simp_all add: generator_def)
  have b: "drand48_next (generator g (2 * i)) = generator g (2 * i + 1)" by (simp add: generator_def)
  have "worker_loop n (generator g (2 * i + 1)) c' = draws_loop (generator g) n (i + 1) c'" for c'
    using Suc [of "i + 1"] by simp
  then show ?case using a b by (simp add: Let_def)
qed simp

lemma generator_range: "0 \<le> generator g i \<and> generator g i < 2 ^ 48"
  by (simp add: generator_def drand48_next_def)

text \<open>C29: The circle test of the Monte Carlo programs decides x*x + y*y < 1 correctly for every point whose squared distance
  from the origin differs from 1 by more than 2^-51 (the coordinates are in units of 2^-47): the three
  double roundings together move the distance by at most 2^43 units of 2^-94.\<close>

theorem circle_test_margin:
  assumes "0 \<le> a" "a < 2 ^ 48" "0 \<le> b" "b < 2 ^ 48" "(x, y) = monte_carlo_get_rand_point a b"
    "2 ^ 43 < \<bar>x * x + y * y - 2 ^ 94\<bar>"
  shows "monte_carlo_is_point_in_circle (x, y) = (if x * x + y * y < 2 ^ 94 then 1 else 0)"
proof -
  have xy: "x = a - 2 ^ 47" "y = b - 2 ^ 47" using assms(5) by (simp_all add: monte_carlo_get_rand_point_def)
  then have "\<bar>x\<bar> \<le> 2 ^ 47" "\<bar>y\<bar> \<le> 2 ^ 47" using assms(1-4) by auto
  from circle_test [OF this] assms(6) have "int (distance x y) < 2 ^ 94 \<longleftrightarrow> x * x + y * y < 2 ^ 94" by arith
  then show ?thesis by (simp add: monte_carlo_is_point_in_circle_def zless_nat_eq_int_zless [symmetric])
qed

theorem circle_test_margin_witness:
  "monte_carlo_get_rand_point (2 ^ 46) (2 ^ 47 + 2 ^ 45) = (- (2 ^ 46), 2 ^ 45) \<and>
   monte_carlo_is_point_in_circle (- (2 ^ 46), 2 ^ 45) = 1"
proof -
  have p: "(- (2 ^ 46), 2 ^ 45) = monte_carlo_get_rand_point (2 ^ 46) (2 ^ 47 + 2 ^ 45)"
    by (simp add: monte_carlo_get_rand_point_def)
  from circle_test_margin [OF _ _ _ _ p] p show ?thesis by simp
qed

text \<open>Pp4.22 prints the number of the first 65536 pairs of its generator that pass the circle test, out of 65536, with
  four times their quotient as the estimate, and stops at the matching assertion when /dev/random cannot be
  opened, read or closed or a pthread call fails.\<close>

theorem mc22_main_correct:
  "mc22_main f =
    (if \<not> opened f then Inl (Assertion 72) else if read_items f \<noteq> 1 then Inl (Assertion 77)
     else if close_rc f \<noteq> 0 then Inl (Assertion 85) else if thread_rc f 0 \<noteq> 0 then Inl (Assertion 110)
     else if thread_rc f 1 \<noteq> 0 then Inl (Assertion 117)
     else let g = generator (srand48 (my_seed f)); c = int (card {j. j < 65536 \<and> hit (g (2 * j)) (g (2 * j + 1))}) in
       Inr (c, 65536, (4 * c, 65536)))"
proof -
  have "Worker_thread_func g = int (card {j. j < 65536 \<and> hit (generator g (2 * j)) (generator g (2 * j + 1))})" for g
    using worker_loop_draws [of NUM_RAND_POINTS 0 g 0] draws_loop_eq [of "generator g" NUM_RAND_POINTS 0 0]
    by (simp add: Worker_thread_func_def NUM_RAND_POINTS_def)
  then show ?thesis
    by (simp add: mc22_main_def init_state_def monte_carlo_estimate_pi_def NUM_RAND_POINTS_def Let_def)
qed

section \<open>The region of pp4.23.c\<close>

definition share :: "(nat \<Rightarrow> nat \<Rightarrow> int) \<Rightarrow> nat \<Rightarrow> int" where
  "share draw t = draws_loop (draw t) NUM_RAND_POINTS 0 0"

lemma share_bounds: "0 \<le> share draw t" "share draw t \<le> 65536"
  using draws_loop_bounds [of "draw t" NUM_RAND_POINTS] by (simp_all add: share_def NUM_RAND_POINTS_def)

definition urandom_ok :: "urandom \<Rightarrow> bool" where
  "urandom_ok f \<longleftrightarrow> opened f \<and> read_items f = 1 \<and> close_rc f = 0 \<and> (\<forall>k. thread_rc f k = 0)"

text \<open>Pp4.23 loses updates: whatever points its two threads draw, an interleaving of the unprotected additions makes it print
  the count of the second thread alone as the count out of both threads' points.\<close>

theorem openmp_lost_update:
  "\<exists>s. reachable (omp_step \<lparr>opened = True, read_items = 1, close_rc = 0, my_seed = k, thread_rc = no_error\<rparr> draw 2) omp_init s \<and>
     o_printed s = Some (share draw 1, 131072, (4 * share draw 1, 131072))"
proof -
  let ?es = "[O_main, O_thread 0, O_thread 1, O_thread 0, O_thread 1, O_thread 0, O_thread 1,
    O_thread 0, O_thread 0, O_thread 1, O_thread 1, O_main]"
  obtain s where s: "run (omp_step \<lparr>opened = True, read_items = 1, close_rc = 0, my_seed = k, thread_rc = no_error\<rparr> draw 2) ?es omp_init = Some s"
    "o_printed s = Some (share draw 1, 131072, (4 * share draw 1, 131072))"
    using share_bounds [of draw]
    by (simp add: omp_init_def omp_main_def omp_init_state_def omp_thread_def share_def [symmetric] numeral_2_eq_2 less_Suc_eq
        monte_carlo_estimate_pi_def) (simp add: NUM_RAND_POINTS_def)
  from run_reachable [OF reachable.start s(1)] s(2) show ?thesis by blast
qed

section \<open>The workers of pp5.39.c\<close>

text \<open>The total is the sum of the shares of the workers that have added theirs.\<close>

fun added :: "mc_pc \<Rightarrow> int" where
  "added W_unlock = 1"
| "added W_exited = 1"
| "added _ = 0"

fun holding :: "mc_pc \<Rightarrow> bool" where
  "holding W_read = True"
| "holding W_write = True"
| "holding W_unlock = True"
| "holding _ = False"

definition sum_shares :: "(nat \<Rightarrow> nat \<Rightarrow> int) \<Rightarrow> (nat \<Rightarrow> mc_pc) \<Rightarrow> int" where
  "sum_shares draw f = (\<Sum>u<16. added (f u) * share draw u)"

definition total_ok :: "(nat \<Rightarrow> nat \<Rightarrow> int) \<Rightarrow> mc_state \<Rightarrow> bool" where
  "total_ok draw s \<longleftrightarrow> inside_circle_count s = sum_shares draw (mc_at s)"

definition workers_ok :: "(nat \<Rightarrow> nat \<Rightarrow> int) \<Rightarrow> mc_state \<Rightarrow> bool" where
  "workers_ok draw s \<longleftrightarrow> (\<forall>t. (mc_at s t \<noteq> W_unborn \<longrightarrow> t < 16) \<and>
     (holding (mc_at s t) \<longleftrightarrow> mutex s = Some t) \<and>
     (mc_at s t \<notin> {W_unborn, W_loop} \<longrightarrow> my_inside_count s t = share draw t) \<and>
     (mc_at s t = W_write \<longrightarrow> mc_tmp s t = inside_circle_count s))"

definition result :: "(nat \<Rightarrow> nat \<Rightarrow> int) \<Rightarrow> int \<times> int \<times> (int \<times> int)" where
  "result draw = (let c = \<Sum>u<16. share draw u in (c, 1048576, (4 * c, 1048576)))"

definition mc_main_ok :: "(nat \<Rightarrow> nat \<Rightarrow> int) \<Rightarrow> mc_state \<Rightarrow> bool" where
  "mc_main_ok draw s \<longleftrightarrow> (case mc_main_at s of
     MC_init \<Rightarrow> (\<forall>t. mc_at s t = W_unborn) \<and> total_ok draw s
   | MC_create i \<Rightarrow> i \<le> 16 \<and> (\<forall>t. mc_at s t = W_unborn \<longleftrightarrow> i \<le> t) \<and> total_ok draw s
   | MC_join i \<Rightarrow> i \<le> 16 \<and> (\<forall>t<16. mc_at s t \<noteq> W_unborn) \<and> (\<forall>t<i. mc_at s t = W_exited) \<and> total_ok draw s
   | MC_print \<Rightarrow> (\<forall>t<16. mc_at s t = W_exited) \<and> total_ok draw s
   | _ \<Rightarrow> (\<forall>t<16. mc_at s t = W_exited) \<and> printed s = Some (result draw))"

definition mc_inv :: "(nat \<Rightarrow> nat \<Rightarrow> int) \<Rightarrow> mc_state \<Rightarrow> bool" where
  "mc_inv draw s \<longleftrightarrow> workers_ok draw s \<and> mc_main_ok draw s \<and> stopped s = None"

lemma sum_shares_upd:
  assumes "t < 16"
  shows "sum_shares draw (f(t := p)) = sum_shares draw f - added (f t) * share draw t + added p * share draw t"
  unfolding sum_shares_def
  using sum_change [OF assms, of "\<lambda>u. added ((f(t := p)) u) * share draw u" "\<lambda>u. added (f u) * share draw u"] by simp

lemma all_added:
  assumes "\<forall>t<16. f t = W_exited"
  shows "sum_shares draw f = (\<Sum>u<16. share draw u)"
  unfolding sum_shares_def using assms by (intro sum.cong) auto

lemmas mc_defs = mc_worker_def mc_goto_def fail_def

lemma worker_facts:
  assumes "mc_inv draw s" "mc_worker draw t s = Some s'"
  shows "t < 16" "mc_at s t \<noteq> W_unborn" "mc_at s t \<noteq> W_exited"
proof -
  show b: "mc_at s t \<noteq> W_unborn" "mc_at s t \<noteq> W_exited" using assms(2) by (auto simp: mc_worker_def)
  then show "t < 16" using assms(1) unfolding mc_inv_def workers_ok_def by blast
qed

lemma worker_keeps_main:
  assumes "mc_inv draw s" "mc_worker draw t s = Some s'" "total_ok draw s' \<or> \<not> total_ok draw s"
    "mc_main_at s' = mc_main_at s" "printed s' = printed s" "\<And>u. u \<noteq> t \<Longrightarrow> mc_at s' u = mc_at s u"
    "mc_at s' t \<noteq> W_unborn"
  shows "mc_main_ok draw s'"
proof -
  note f = worker_facts [OF assms(1,2)]
  have un: "mc_at s' u = W_unborn \<longleftrightarrow> mc_at s u = W_unborn" for u using f(2) assms(6,7) by (cases "u = t") simp_all
  have ex: "mc_at s u = W_exited \<Longrightarrow> mc_at s' u = W_exited" for u using f(3) assms(6) by (cases "u = t") simp_all
  have m: "mc_main_ok draw s" using assms(1) by (simp add: mc_inv_def)
  show ?thesis
  proof (cases "mc_main_at s")
    case MC_init
    then show ?thesis using m f(2) by (simp add: mc_main_ok_def)
  next
    case (MC_create i)
    then show ?thesis using m un assms(3,4) by (simp add: mc_main_ok_def)
  next
    case (MC_join i)
    then show ?thesis using m un ex assms(3,4) by (simp add: mc_main_ok_def)
  qed (use m f assms(4,5) ex in \<open>simp_all add: mc_main_ok_def\<close>)
qed

lemma worker_own_step:
  assumes "mc_inv draw s" "mc_worker draw t s = Some s'"
  shows "stopped s' = None \<and> mc_main_at s' = mc_main_at s \<and> printed s' = printed s \<and> mc_at s' t \<noteq> W_unborn \<and>
    (total_ok draw s' \<or> \<not> total_ok draw s) \<and> (holding (mc_at s' t) \<longleftrightarrow> mutex s' = Some t) \<and>
    (mc_at s' t \<notin> {W_unborn, W_loop} \<longrightarrow> my_inside_count s' t = share draw t) \<and>
    (mc_at s' t = W_write \<longrightarrow> mc_tmp s' t = inside_circle_count s')"
proof -
  note f = worker_facts [OF assms]
  have w: "workers_ok draw s" and n: "stopped s = None" using assms(1) by (simp_all add: mc_inv_def)
  have own: "holding (mc_at s t) \<longleftrightarrow> mutex s = Some t"
    "mc_at s t \<notin> {W_unborn, W_loop} \<Longrightarrow> my_inside_count s t = share draw t"
    "mc_at s t = W_write \<Longrightarrow> mc_tmp s t = inside_circle_count s" using w unfolding workers_ok_def by blast+
  show ?thesis using assms(2) f n own
    by (cases "mc_at s t"; clarsimp simp: mc_defs total_ok_def sum_shares_upd share_def [symmetric])
qed

lemma worker_others:
  assumes "mc_inv draw s" "mc_worker draw t s = Some s'" "u \<noteq> t"
  shows "mc_at s' u = mc_at s u \<and> my_inside_count s' u = my_inside_count s u \<and> mc_tmp s' u = mc_tmp s u \<and>
    (mutex s' = Some u \<longleftrightarrow> mutex s = Some u) \<and> (mc_at s u = W_write \<longrightarrow> inside_circle_count s' = inside_circle_count s)"
proof -
  have "holding (mc_at s u) \<longleftrightarrow> mutex s = Some u" "holding (mc_at s t) \<longleftrightarrow> mutex s = Some t"
    using assms(1) unfolding mc_inv_def workers_ok_def by blast+
  then show ?thesis using assms(2,3) by (cases "mc_at s t") (auto simp: mc_defs)
qed

lemma mc_worker_inv:
  assumes "mc_inv draw s" "mc_worker draw t s = Some s'"
  shows "mc_inv draw s'"
proof -
  note f = worker_facts [OF assms] and m = worker_own_step [OF assms] and o = worker_others [OF assms]
  have w: "workers_ok draw s" using assms(1) by (simp add: mc_inv_def)
  have "workers_ok draw s'" unfolding workers_ok_def
  proof
    fix u
    show "(mc_at s' u \<noteq> W_unborn \<longrightarrow> u < 16) \<and> (holding (mc_at s' u) \<longleftrightarrow> mutex s' = Some u) \<and>
      (mc_at s' u \<notin> {W_unborn, W_loop} \<longrightarrow> my_inside_count s' u = share draw u) \<and>
      (mc_at s' u = W_write \<longrightarrow> mc_tmp s' u = inside_circle_count s')"
    proof (cases "u = t")
      case True
      then show ?thesis using m f(1) by blast
    next
      case False
      have "(mc_at s u \<noteq> W_unborn \<longrightarrow> u < 16) \<and> (holding (mc_at s u) \<longleftrightarrow> mutex s = Some u) \<and>
        (mc_at s u \<notin> {W_unborn, W_loop} \<longrightarrow> my_inside_count s u = share draw u) \<and>
        (mc_at s u = W_write \<longrightarrow> mc_tmp s u = inside_circle_count s)"
        using w unfolding workers_ok_def by blast
      then show ?thesis using o [OF False] by simp
    qed
  qed
  moreover have "mc_main_ok draw s'"
    by (rule worker_keeps_main [OF assms]) (use m o in simp_all)
  ultimately show ?thesis using m by (simp add: mc_inv_def)
qed

lemma workers_ok_frame:
  assumes "workers_ok draw s" "mc_at s' = mc_at s" "mutex s' = mutex s" "my_inside_count s' = my_inside_count s"
    "mc_tmp s' = mc_tmp s" "inside_circle_count s' = inside_circle_count s"
  shows "workers_ok draw s'"
  using assms(1) unfolding workers_ok_def assms(2-6) .

lemma mc_invI: "workers_ok draw s \<Longrightarrow> mc_main_ok draw s \<Longrightarrow> stopped s = None \<Longrightarrow> mc_inv draw s"
  by (simp add: mc_inv_def)

lemma mc_create_inv:
  assumes "mc_inv draw s" "urandom_ok f" "mc_main_at s = MC_create i" "i < 16" "mc_main f s = Some s'"
  shows "mc_inv draw s'"
proof -
  have w: "workers_ok draw s" and m: "mc_main_ok draw s" and n: "stopped s = None"
    using assms(1) by (simp_all add: mc_inv_def)
  have s': "s' = s\<lparr>mc_at := (mc_at s)(i := W_loop), mc_main_at := MC_create (i + 1)\<rparr>"
    using assms(2-5) by (simp add: mc_main_def NUM_WORKER_THREADS_def urandom_ok_def)
  have u: "mc_at s i = W_unborn" using m assms(3) by (simp add: mc_main_ok_def)
  have "holding (mc_at s i) \<longleftrightarrow> mutex s = Some i" using w unfolding workers_ok_def by blast
  then have h: "mutex s \<noteq> Some i" using u by simp
  have "workers_ok draw s'" unfolding workers_ok_def
  proof
    fix t
    have "(mc_at s t \<noteq> W_unborn \<longrightarrow> t < 16) \<and> (holding (mc_at s t) \<longleftrightarrow> mutex s = Some t) \<and>
      (mc_at s t \<notin> {W_unborn, W_loop} \<longrightarrow> my_inside_count s t = share draw t) \<and>
      (mc_at s t = W_write \<longrightarrow> mc_tmp s t = inside_circle_count s)" using w unfolding workers_ok_def by blast
    then show "(mc_at s' t \<noteq> W_unborn \<longrightarrow> t < 16) \<and> (holding (mc_at s' t) \<longleftrightarrow> mutex s' = Some t) \<and>
      (mc_at s' t \<notin> {W_unborn, W_loop} \<longrightarrow> my_inside_count s' t = share draw t) \<and>
      (mc_at s' t = W_write \<longrightarrow> mc_tmp s' t = inside_circle_count s')"
      using assms(4) h by (cases "t = i") (simp_all add: s')
  qed
  moreover have "sum_shares draw ((mc_at s)(i := W_loop)) = sum_shares draw (mc_at s)"
    using assms(4) u by (simp add: sum_shares_upd)
  then have "total_ok draw s'" using m assms(3) by (simp add: s' mc_main_ok_def total_ok_def)
  moreover have "mc_at s' t = W_unborn \<longleftrightarrow> i + 1 \<le> t" for t
  proof -
    have "mc_at s t = W_unborn \<longleftrightarrow> i \<le> t" using m assms(3) by (simp add: mc_main_ok_def)
    then show ?thesis by (cases "t = i") (auto simp: s')
  qed
  then have "mc_main_ok draw s'" using assms(4) \<open>total_ok draw s'\<close> by (simp add: s' mc_main_ok_def)
  ultimately show ?thesis using n by (simp add: mc_inv_def s')
qed

lemma mc_cleanup_inv:
  assumes "mc_inv draw s" "mc_main_at s = MC_cleanup" "mc_main f s = Some s'"
  shows "mc_inv draw s'"
proof -
  have w: "workers_ok draw s" and m: "mc_main_ok draw s" and n: "stopped s = None"
    using assms(1) by (simp_all add: mc_inv_def)
  have ex: "\<forall>t<16. mc_at s t = W_exited" and p: "printed s = Some (result draw)"
    using m assms(2) by (simp_all add: mc_main_ok_def)
  have st: "mc_at s t = W_exited \<or> mc_at s t = W_unborn" for t using ex w unfolding workers_ok_def by blast
  have nh: "\<not> holding (mc_at s t)" "mc_at s t \<noteq> W_write" for t using st [of t] by auto
  have "mutex s \<noteq> Some t" for t using w nh(1) [of t] unfolding workers_ok_def by blast
  then have "mutex s = None" by (cases "mutex s") auto
  then have s': "s' = s\<lparr>inside_circle_count := 0, mc_main_at := MC_exit\<rparr>"
    using assms(2,3) by (simp add: mc_main_def cleanup_state_def mutex_destroy_ok_def Let_def)
  have "workers_ok draw s'" using w nh(2) unfolding workers_ok_def s' by simp
  then show ?thesis using n ex p by (simp add: mc_inv_def mc_main_ok_def s')
qed

lemma mc_main_inv:
  assumes "mc_inv draw s" "urandom_ok f" "mc_main f s = Some s'"
  shows "mc_inv draw s'"
proof -
  have w: "workers_ok draw s" and m: "mc_main_ok draw s" and n: "stopped s = None"
    using assms(1) by (simp_all add: mc_inv_def)
  show ?thesis
  proof (cases "mc_main_at s")
    case MC_init
    then have u: "mc_at s t = W_unborn" for t using m by (simp add: mc_main_ok_def)
    have s': "s' = s\<lparr>mutex := None, mc_main_at := MC_create 0\<rparr>"
      using assms(2,3) MC_init by (simp add: mc_main_def mc_init_state_def urandom_ok_def)
    have "workers_ok draw s'" using u by (simp add: s' workers_ok_def)
    moreover have "mc_main_ok draw s'" using m u MC_init by (simp add: s' mc_main_ok_def total_ok_def)
    ultimately show ?thesis using n by (simp add: mc_inv_def s')
  next
    case (MC_create i)
    show ?thesis
    proof (cases "i < 16")
      case True
      then show ?thesis using mc_create_inv [OF assms(1,2) MC_create _ assms(3)] by blast
    next
      case False
      then have s': "s' = s\<lparr>mc_main_at := MC_join 0\<rparr>" using assms(3) MC_create by (simp add: mc_main_def NUM_WORKER_THREADS_def)
      have "mc_main_ok draw s'" using m MC_create False by (simp add: s' mc_main_ok_def total_ok_def)
      then show ?thesis using n by (intro mc_invI workers_ok_frame [OF w]) (simp_all add: s')
    qed
  next
    case (MC_join i)
    show ?thesis
    proof (cases "i < 16")
      case True
      then have s': "s' = s\<lparr>mc_main_at := MC_join (i + 1)\<rparr>" and "mc_at s i = W_exited"
        using assms(2,3) MC_join by (simp_all add: mc_main_def NUM_WORKER_THREADS_def urandom_ok_def split: if_splits)
      then have "mc_main_ok draw s'" using m MC_join True by (simp add: mc_main_ok_def total_ok_def less_Suc_eq)
      then show ?thesis using n by (intro mc_invI workers_ok_frame [OF w]) (simp_all add: s')
    next
      case False
      then have "i = 16" using m MC_join by (simp add: mc_main_ok_def)
      have s': "s' = s\<lparr>mc_main_at := MC_print\<rparr>" using False assms(3) MC_join by (simp add: mc_main_def NUM_WORKER_THREADS_def)
      then have "mc_main_ok draw s'" using m MC_join \<open>i = 16\<close> by (simp add: mc_main_ok_def total_ok_def)
      then show ?thesis using n by (intro mc_invI workers_ok_frame [OF w]) (simp_all add: s')
    qed
  next
    case MC_print
    then have ex: "\<forall>t<16. mc_at s t = W_exited" and "inside_circle_count s = sum_shares draw (mc_at s)"
      using m by (simp_all add: mc_main_ok_def total_ok_def)
    then have c: "inside_circle_count s = (\<Sum>u<16. share draw u)" using all_added by simp
    have "0 \<le> (\<Sum>u<16. share draw u)" by (intro sum_nonneg) (rule share_bounds)
    then have s': "s' = s\<lparr>printed := Some (result draw), mc_main_at := MC_cleanup\<rparr>"
      using assms(3) MC_print c by (simp add: mc_main_def monte_carlo_estimate_pi_def result_def Let_def NUM_RAND_POINTS_def NUM_WORKER_THREADS_def)
    then have "mc_main_ok draw s'" using ex by (simp add: mc_main_ok_def)
    then show ?thesis using n by (intro mc_invI workers_ok_frame [OF w]) (simp_all add: s')
  next
    case MC_cleanup
    then show ?thesis using mc_cleanup_inv [OF assms(1) _ assms(3)] by blast
  next
    case MC_exit
    then show ?thesis using assms(3) by (simp add: mc_main_def)
  qed
qed

lemma mc_inv_init: "mc_inv draw mc_init"
  by (simp add: mc_inv_def mc_init_def workers_ok_def mc_main_ok_def total_ok_def sum_shares_def)

definition good_random :: "int \<Rightarrow> urandom" where
  "good_random seed = \<lparr>opened = True, read_items = 1, close_rc = 0, my_seed = seed, thread_rc = no_error\<rparr>"

lemma good_random_ok: "urandom_ok (good_random k)"
  by (simp add: urandom_ok_def good_random_def no_error_def)

lemma mc_step_inv:
  assumes "urandom_ok f" "mc_inv draw s" "mc_step f draw e s = Some s'"
  shows "mc_inv draw s'"
  using assms mc_main_inv [OF assms(2,1)] mc_worker_inv [OF assms(2)]
  by (cases e) (simp_all split: if_splits)

text \<open>Every step uses up a unit of the work that is left.\<close>

fun mc_rank :: "mc_pc \<Rightarrow> nat" where
  "mc_rank W_unborn = 5"
| "mc_rank W_loop = 5"
| "mc_rank W_lock = 4"
| "mc_rank W_read = 3"
| "mc_rank W_write = 2"
| "mc_rank W_unlock = 1"
| "mc_rank W_exited = 0"

fun main_rank :: "mc_main_pc \<Rightarrow> nat" where
  "main_rank MC_init = 37"
| "main_rank (MC_create i) = 36 - i"
| "main_rank (MC_join i) = 19 - i"
| "main_rank MC_print = 2"
| "main_rank MC_cleanup = 1"
| "main_rank MC_exit = 0"

definition work_left :: "mc_state \<Rightarrow> nat" where
  "work_left s = main_rank (mc_main_at s) + (\<Sum>u<16. mc_rank (mc_at s u))"

lemma worker_works:
  assumes "mc_inv draw s" "mc_worker draw t s = Some s'"
  shows "work_left s' < work_left s"
proof -
  note f = worker_facts [OF assms] and m = worker_own_step [OF assms] and o = worker_others [OF assms]
  have less: "mc_rank (mc_at s' t) < mc_rank (mc_at s t)"
    using assms(2) f m by (cases "mc_at s t") (auto simp: mc_defs split: option.splits)
  have "(\<Sum>u<16. mc_rank (mc_at s' u)) < (\<Sum>u<16. mc_rank (mc_at s u))"
  proof (rule sum_strict_mono_ex1)
    show "\<forall>u\<in>{..<16}. mc_rank (mc_at s' u) \<le> mc_rank (mc_at s u)"
    proof
      fix u
      show "mc_rank (mc_at s' u) \<le> mc_rank (mc_at s u)" using less o [of u] by (cases "u = t") simp_all
    qed
    show "\<exists>u\<in>{..<16}. mc_rank (mc_at s' u) < mc_rank (mc_at s u)" using less f(1) by blast
  qed simp
  then show ?thesis using m by (simp add: work_left_def)
qed

lemma main_works:
  assumes "mc_inv draw s" "urandom_ok f" "mc_main f s = Some s'"
  shows "work_left s' < work_left s"
proof -
  have i: "mc_inv draw s'" by (rule mc_main_inv [OF assms])
  have m: "mc_main_ok draw s" using assms(1) by (simp add: mc_inv_def)
  have n: "stopped s' = None" using i by (simp add: mc_inv_def)
  have u: "mc_main_at s = MC_create i \<Longrightarrow> i < 16 \<Longrightarrow> mc_at s i = W_unborn" for i using m by (simp add: mc_main_ok_def)
  have same: "mc_rank (mc_at s' v) = mc_rank (mc_at s v)" for v
    using assms(2,3) u by (cases "mc_main_at s")
      (auto simp: mc_main_def mc_init_state_def urandom_ok_def NUM_WORKER_THREADS_def cleanup_state_def fail_def Let_def split: if_splits sum.splits)
  have "main_rank (mc_main_at s') < main_rank (mc_main_at s)"
    using assms(2,3) m n by (cases "mc_main_at s")
      (auto simp: mc_main_def mc_init_state_def urandom_ok_def NUM_WORKER_THREADS_def cleanup_state_def fail_def Let_def mc_main_ok_def split: if_splits sum.splits)
  then show ?thesis using same by (simp add: work_left_def)
qed

lemma mc_step_works:
  assumes "mc_inv draw s" "mc_step (good_random k) draw e s = Some s'"
  shows "work_left s' < work_left s"
  using assms(2) main_works [OF assms(1) good_random_ok, of k s'] worker_works [OF assms(1), of _ s']
  by (cases e) (simp_all split: if_splits)

lemma mc_not_stuck:
  assumes "mc_inv draw s" "urandom_ok f" "stuck (mc_step f draw) s"
  shows "mc_main_at s = MC_exit"
proof (rule ccontr)
  assume ne: "mc_main_at s \<noteq> MC_exit"
  have n: "stopped s = None" and w: "workers_ok draw s" and m: "mc_main_ok draw s" using assms(1) by (simp_all add: mc_inv_def)
  have "mc_step f draw MC_main s = None" "mc_step f draw (MC_worker t) s = None" for t
    using assms(3) by (simp_all only: stuck_def)
  then have nm: "mc_main f s = None" and nw: "mc_worker draw t s = None" for t using n by simp_all
  obtain i where i: "mc_main_at s = MC_join i" "i < 16" "mc_at s i \<noteq> W_exited" "mc_at s i \<noteq> W_unborn"
  proof (cases "mc_main_at s")
    case (MC_join i)
    have "i < 16" "mc_at s i \<noteq> W_exited" using nm MC_join by (simp_all add: mc_main_def NUM_WORKER_THREADS_def split: if_splits)
    moreover from this have "mc_at s i \<noteq> W_unborn" using m MC_join by (simp add: mc_main_ok_def)
    ultimately show thesis using MC_join that by blast
  qed (use nm ne in \<open>simp_all add: mc_main_def\<close>)
  then have "mc_at s i = W_lock" using nw [of i] by (cases "mc_at s i") (simp_all add: mc_worker_def)
  then have "mutex s \<noteq> None" using nw [of i] by (auto simp: mc_worker_def mutex_lock_def split: if_splits)
  then obtain h where "mutex s = Some h" by blast
  then have "holding (mc_at s h)" using w unfolding workers_ok_def by blast
  then show False using nw [of h] by (cases "mc_at s h") (auto simp: mc_worker_def)
qed

text \<open>The calls that can fail: which assertion a failed one runs into. Otherwise the return codes do not matter.\<close>

definition call_failed :: "urandom \<Rightarrow> c_abort \<Rightarrow> bool" where
  "call_failed f a \<longleftrightarrow> c_bind (mc_init_state f) (\<lambda>_. checked_calls (thread_rc f) 1 [121]) = Inl a \<or>
     (\<exists>i<16. thread_rc f (i + 2) \<noteq> 0) \<and> a = Assertion 128 \<or> (\<exists>i<16. thread_rc f (i + 18) \<noteq> 0) \<and> a = Assertion 137"

lemma mc_step_cases:
  assumes "mc_step f draw e s = Some s'"
  shows "mc_step (good_random 0) draw e s = Some s' \<or>
    (\<exists>a. s' = fail a s \<and> call_failed f a \<and> stopped s = None \<and> mc_main_at s \<noteq> MC_exit)"
proof (cases e)
  case MC_main
  have ok: "c_bind (mc_init_state (good_random 0)) (\<lambda>_. checked_calls (thread_rc (good_random 0)) 1 [121]) = Inr ()"
    "thread_rc (good_random 0) k = 0" for k by (simp_all add: mc_init_state_def good_random_def no_error_def)
  show ?thesis
  proof (cases "mc_main_at s")
    case MC_init
    with assms MC_main ok show ?thesis
      by (cases "c_bind (mc_init_state f) (\<lambda>_. checked_calls (thread_rc f) 1 [121])")
        (auto simp: mc_main_def call_failed_def split: if_splits)
  next
    case (MC_create i)
    with assms MC_main ok show ?thesis by (auto simp: mc_main_def call_failed_def NUM_WORKER_THREADS_def split: if_splits)
  next
    case (MC_join i)
    with assms MC_main ok show ?thesis by (auto simp: mc_main_def call_failed_def NUM_WORKER_THREADS_def split: if_splits)
  qed (use assms MC_main in \<open>auto simp: mc_main_def split: if_splits\<close>)
qed (use assms in simp)

definition mc_inv_any :: "urandom \<Rightarrow> (nat \<Rightarrow> nat \<Rightarrow> int) \<Rightarrow> mc_state \<Rightarrow> bool" where
  "mc_inv_any f draw s \<longleftrightarrow> mc_inv draw s \<or> (\<exists>r a. s = fail a r \<and> call_failed f a)"

definition work_any :: "mc_state \<Rightarrow> nat" where
  "work_any s = (if stopped s = None then work_left s else 0)"

interpretation mc_any: terminating_system "mc_step f draw" mc_init "mc_inv_any f draw" work_any for f draw
proof unfold_locales
  show "mc_inv_any f draw mc_init" using mc_inv_init by (simp add: mc_inv_any_def)
  fix s e s'
  assume inv: "mc_inv_any f draw s" and st: "mc_step f draw e s = Some s'"
  have n: "stopped s = None" using st by (cases e) (simp_all split: if_splits)
  then have i: "mc_inv draw s" using inv by (auto simp: mc_inv_any_def fail_def)
  have "mc_main_at s \<noteq> MC_exit \<Longrightarrow> 0 < main_rank (mc_main_at s)"
    using i by (cases "mc_main_at s") (simp_all add: mc_inv_def mc_main_ok_def)
  then have "mc_inv_any f draw s' \<and> work_any s' < work_any s"
    using mc_step_cases [OF st] mc_step_inv [OF good_random_ok i] mc_step_works [OF i] n
    by (auto simp: mc_inv_any_def work_any_def fail_def work_left_def mc_inv_def)
  then show "mc_inv_any f draw s'" "work_any s' < work_any s" by blast+
qed

lemma mc_stuck_any:
  assumes "mc_inv draw s" "stuck (mc_step f draw) s"
  shows "mc_main_at s = MC_exit"
proof (rule mc_not_stuck [OF assms(1) good_random_ok])
  have n: "stopped s = None" using assms(1) by (simp add: mc_inv_def)
  have "mc_step (good_random 0) draw e s = None" if "mc_step f draw e s = None" for e
    using that n by (cases e) (auto simp: mc_main_def Let_def split: mc_main_pc.splits if_splits)
  then show "stuck (mc_step (good_random 0) draw) s" using assms(2) by (simp add: stuck_def)
qed

text \<open>C28: Every execution of pp5.39 takes at most 117 steps, whatever the random source, the initialisations, the creations and the joins
  return. The program stops early only at the assertion behind one of these calls, when it has failed; otherwise, when nothing can move
  any more, main has returned after printing the sum of all sixteen workers' counts out of 1048576 points,
  a count between 0 and that total, with four times the quotient as the estimate of pi. In particular neither the assertion of
  \<open>monte_carlo_estimate_pi\<close> nor those behind the unlocking and the destruction of the mutex ever fail.\<close>

theorem mc_workers_total:
  assumes "run (mc_step f draw) es mc_init = Some s"
  shows "length es \<le> 117 \<and> (\<forall>a. stopped s = Some a \<longrightarrow> call_failed f a) \<and>
    (stuck (mc_step f draw) s \<and> stopped s = None \<longrightarrow> mc_main_at s = MC_exit \<and>
       (let c = \<Sum>u<16. share draw u in 0 \<le> c \<and> c \<le> 1048576 \<and> printed s = Some (c, 1048576, (4 * c, 1048576))))"
proof -
  note b = mc_any.run_bounded [OF assms] mc_any.run_inv [OF assms]
  have w: "work_any mc_init = 117" by (simp add: work_any_def work_left_def mc_init_def)
  have c: "0 \<le> (\<Sum>u<16. share draw u)" "(\<Sum>u<16. share draw u) \<le> (\<Sum>u<16::nat. 65536)"
    by (intro sum_nonneg sum_mono, rule share_bounds)+
  have "stopped s = Some a \<Longrightarrow> call_failed f a" for a using b(2) by (auto simp: mc_inv_any_def mc_inv_def fail_def)
  moreover have "mc_main_at s = MC_exit \<and> printed s = Some (result draw)" if "stuck (mc_step f draw) s" "stopped s = None"
  proof -
    have inv: "mc_inv draw s" using b(2) that(2) by (auto simp: mc_inv_any_def fail_def)
    from mc_stuck_any [OF this that(1)] inv show ?thesis by (simp add: mc_inv_def mc_main_ok_def)
  qed
  ultimately show ?thesis using b(1) w c by (simp add: result_def Let_def)
qed

theorem mc_workers_total_witness:
  "\<exists>s. run (mc_step (good_random 7) (\<lambda>_ _. 0)) (replicate 18 MC_main) mc_init = Some s \<and> mc_main_at s = MC_join 0 \<and>
     stopped s = None \<and> \<not> stuck (mc_step (good_random 7) (\<lambda>_ _. 0)) s"
proof -
  have "map_option mc_main_at (run (mc_step (good_random 7) (\<lambda>_ _. 0)) (replicate 18 MC_main) mc_init) = Some (MC_join 0)"
    by code_simp
  then obtain s where s: "run (mc_step (good_random 7) (\<lambda>_ _. 0)) (replicate 18 MC_main) mc_init = Some s"
    "mc_main_at s = MC_join 0" by (auto simp del: run.simps replicate.simps)
  have "\<not> call_failed (good_random 7) a" for a
    by (simp add: call_failed_def mc_init_state_def good_random_def no_error_def)
  with mc_workers_total [OF s(1)] have n: "stopped s = None" by (cases "stopped s") simp_all
  with mc_workers_total [OF s(1)] s show ?thesis by auto
qed

end
