(* ===== verification/Deadlock.thy ===== *)
theory Deadlock
  imports Posix_Sync
begin

text \<open>
  \<open>ch7/deadlock.c\<close>: two workers that lock two mutexes in opposite orders. One step is one call of the
  pthread library. The program ignores the return codes; initialising, creating and destroying are taken
  to succeed.
\<close>

section \<open>Model\<close>

datatype work_pc = K_unborn | K_outer | K_inner | K_drop_inner | K_drop_outer | K_exited

datatype dmain_pc = D_init | D_create1 | D_create2 | D_join1 | D_join2 | D_destroy | D_exit

record dl_state =
  first_mutex :: mutex
  second_mutex :: mutex
  one_at :: work_pc
  two_at :: work_pc
  dmain_at :: dmain_pc

datatype dl_event = D_main | D_one | D_two

definition dl_init :: dl_state where
  "dl_init = \<lparr>first_mutex = None, second_mutex = None, one_at = K_unborn, two_at = K_unborn, dmain_at = D_init\<rparr>"

definition release :: "tid \<Rightarrow> mutex \<Rightarrow> mutex" where
  "release t m = (case mutex_unlock t m of None \<Rightarrow> m | Some m' \<Rightarrow> m')"

definition do_work_one :: "dl_state \<Rightarrow> dl_state option" where
  "do_work_one s = (case one_at s of
     K_outer \<Rightarrow> map_option (\<lambda>m. s\<lparr>first_mutex := m, one_at := K_inner\<rparr>) (mutex_lock 1 (first_mutex s))
   | K_inner \<Rightarrow> map_option (\<lambda>m. s\<lparr>second_mutex := m, one_at := K_drop_inner\<rparr>) (mutex_lock 1 (second_mutex s))
   | K_drop_inner \<Rightarrow> Some (s\<lparr>second_mutex := release 1 (second_mutex s), one_at := K_drop_outer\<rparr>)
   | K_drop_outer \<Rightarrow> Some (s\<lparr>first_mutex := release 1 (first_mutex s), one_at := K_exited\<rparr>)
   | _ \<Rightarrow> None)"

definition do_work_two :: "dl_state \<Rightarrow> dl_state option" where
  "do_work_two s = (case two_at s of
     K_outer \<Rightarrow> map_option (\<lambda>m. s\<lparr>second_mutex := m, two_at := K_inner\<rparr>) (mutex_lock 2 (second_mutex s))
   | K_inner \<Rightarrow> map_option (\<lambda>m. s\<lparr>first_mutex := m, two_at := K_drop_inner\<rparr>) (mutex_lock 2 (first_mutex s))
   | K_drop_inner \<Rightarrow> Some (s\<lparr>first_mutex := release 2 (first_mutex s), two_at := K_drop_outer\<rparr>)
   | K_drop_outer \<Rightarrow> Some (s\<lparr>second_mutex := release 2 (second_mutex s), two_at := K_exited\<rparr>)
   | _ \<Rightarrow> None)"

definition dl_main :: "dl_state \<Rightarrow> dl_state option" where
  "dl_main s = (case dmain_at s of
     D_init \<Rightarrow> Some (s\<lparr>first_mutex := None, second_mutex := None, dmain_at := D_create1\<rparr>)
   | D_create1 \<Rightarrow> Some (s\<lparr>one_at := K_outer, dmain_at := D_create2\<rparr>)
   | D_create2 \<Rightarrow> Some (s\<lparr>two_at := K_outer, dmain_at := D_join1\<rparr>)
   | D_join1 \<Rightarrow> if one_at s = K_exited then Some (s\<lparr>dmain_at := D_join2\<rparr>) else None
   | D_join2 \<Rightarrow> if two_at s = K_exited then Some (s\<lparr>dmain_at := D_destroy\<rparr>) else None
   | D_destroy \<Rightarrow> Some (s\<lparr>dmain_at := D_exit\<rparr>)
   | D_exit \<Rightarrow> None)"

fun dl_step :: "dl_event \<Rightarrow> dl_state \<Rightarrow> dl_state option" where
  "dl_step D_main s = dl_main s"
| "dl_step D_one s = do_work_one s"
| "dl_step D_two s = do_work_two s"

section \<open>Invariant\<close>

fun has_outer :: "work_pc \<Rightarrow> bool" where
  "has_outer K_inner = True"
| "has_outer K_drop_inner = True"
| "has_outer K_drop_outer = True"
| "has_outer _ = False"

fun has_inner :: "work_pc \<Rightarrow> bool" where
  "has_inner K_drop_inner = True"
| "has_inner _ = False"

text \<open>The owner of a mutex that one worker takes first and the other one second.\<close>

definition owner :: "tid \<Rightarrow> bool \<Rightarrow> tid \<Rightarrow> bool \<Rightarrow> mutex" where
  "owner t b u c = (if b then Some t else if c then Some u else None)"

fun born :: "dmain_pc \<Rightarrow> nat" where
  "born D_init = 0"
| "born D_create1 = 0"
| "born D_create2 = 1"
| "born _ = 2"

definition dl_inv :: "dl_state \<Rightarrow> bool" where
  "dl_inv s \<longleftrightarrow>
     first_mutex s = owner 1 (has_outer (one_at s)) 2 (has_inner (two_at s)) \<and>
     second_mutex s = owner 2 (has_outer (two_at s)) 1 (has_inner (one_at s)) \<and>
     \<not> (has_outer (one_at s) \<and> has_inner (two_at s)) \<and> \<not> (has_outer (two_at s) \<and> has_inner (one_at s)) \<and>
     (one_at s = K_unborn \<longleftrightarrow> born (dmain_at s) < 1) \<and> (two_at s = K_unborn \<longleftrightarrow> born (dmain_at s) < 2) \<and>
     (dmain_at s \<in> {D_join2, D_destroy, D_exit} \<longrightarrow> one_at s = K_exited) \<and>
     (dmain_at s \<in> {D_destroy, D_exit} \<longrightarrow> two_at s = K_exited)"

fun work_rank :: "work_pc \<Rightarrow> nat" where
  "work_rank K_unborn = 4"
| "work_rank K_outer = 4"
| "work_rank K_inner = 3"
| "work_rank K_drop_inner = 2"
| "work_rank K_drop_outer = 1"
| "work_rank K_exited = 0"

fun dmain_rank :: "dmain_pc \<Rightarrow> nat" where
  "dmain_rank D_init = 6"
| "dmain_rank D_create1 = 5"
| "dmain_rank D_create2 = 4"
| "dmain_rank D_join1 = 3"
| "dmain_rank D_join2 = 2"
| "dmain_rank D_destroy = 1"
| "dmain_rank D_exit = 0"

definition dl_work :: "dl_state \<Rightarrow> nat" where
  "dl_work s = dmain_rank (dmain_at s) + work_rank (one_at s) + work_rank (two_at s)"

lemma dl_main_inv:
  assumes "dl_inv s" "dl_main s = Some s'"
  shows "dl_inv s'" "dl_work s' < dl_work s"
  using assms by (cases "dmain_at s"; clarsimp simp: dl_main_def split: if_splits; simp add: dl_inv_def dl_work_def owner_def)+

lemma do_work_one_inv:
  assumes "dl_inv s" "do_work_one s = Some s'"
  shows "dl_inv s'" "dl_work s' < dl_work s"
  using assms
  by (cases "one_at s"; cases "two_at s"; clarsimp simp: do_work_one_def;
      simp add: dl_inv_def dl_work_def owner_def release_def mutex_unlock_def)+

lemma do_work_two_inv:
  assumes "dl_inv s" "do_work_two s = Some s'"
  shows "dl_inv s'" "dl_work s' < dl_work s"
  using assms
  by (cases "two_at s"; cases "one_at s"; clarsimp simp: do_work_two_def;
      simp add: dl_inv_def dl_work_def owner_def release_def mutex_unlock_def)+

interpretation dl: terminating_system dl_step dl_init dl_inv dl_work
proof unfold_locales
  show "dl_inv dl_init" by (simp add: dl_inv_def dl_init_def owner_def)
  show "dl_inv s'" if "dl_inv s" "dl_step e s = Some s'" for s e s'
    using that dl_main_inv(1) [of s s'] do_work_one_inv(1) [of s s'] do_work_two_inv(1) [of s s'] by (cases e) simp_all
  show "dl_work s' < dl_work s" if "dl_inv s" "dl_step e s = Some s'" for s e s'
    using that dl_main_inv(2) [of s s'] do_work_one_inv(2) [of s s'] do_work_two_inv(2) [of s s'] by (cases e) simp_all
qed

section \<open>Properties\<close>

lemma dl_stuck:
  assumes inv: "dl_inv s" and stuck: "stuck dl_step s"
  shows "dmain_at s = D_exit \<and> first_mutex s = None \<and> second_mutex s = None \<or>
     dmain_at s = D_join1 \<and> one_at s = K_inner \<and> two_at s = K_inner \<and> first_mutex s = Some 1 \<and> second_mutex s = Some 2"
proof -
  have "dl_step e s = None" for e using stuck by (simp add: stuck_def)
  from this [of D_main] this [of D_one] this [of D_two]
  have none: "dl_main s = None" "do_work_one s = None" "do_work_two s = None" by simp_all
  have blocked: "one_at s \<in> {K_unborn, K_exited} \<or> one_at s = K_outer \<and> first_mutex s \<noteq> None \<or> one_at s = K_inner \<and> second_mutex s \<noteq> None"
    "two_at s \<in> {K_unborn, K_exited} \<or> two_at s = K_outer \<and> second_mutex s \<noteq> None \<or> two_at s = K_inner \<and> first_mutex s \<noteq> None"
    using none(2,3) by (cases "one_at s"; cases "two_at s"; simp add: do_work_one_def do_work_two_def mutex_lock_def split: if_splits)+
  have "dmain_at s = D_exit \<or> dmain_at s = D_join1 \<and> one_at s \<noteq> K_exited \<or> dmain_at s = D_join2 \<and> two_at s \<noteq> K_exited"
    using none(1) by (cases "dmain_at s") (simp_all add: dl_main_def split: if_splits)
  then consider "dmain_at s = D_exit" | "dmain_at s = D_join1" "one_at s \<noteq> K_exited" | "dmain_at s = D_join2" "two_at s \<noteq> K_exited"
    by blast
  then show ?thesis
  proof cases
    case 1
    then show ?thesis using inv by (simp add: dl_inv_def owner_def)
  next
    case 2
    then show ?thesis using inv blocked
      by (cases "one_at s"; cases "two_at s"; simp add: dl_inv_def owner_def)
  next
    case 3
    then show ?thesis using inv blocked by (cases "two_at s") (simp_all add: dl_inv_def owner_def)
  qed
qed

text \<open>C30: If its unchecked initialisations and creations succeed, every execution of ch7/deadlock.c, complete or not, takes at most 14 steps, so that no schedule runs for ever, and where
  it can go no further either main has returned
  with both mutexes free, or the program is in its deadlock: the first worker holds the first mutex and waits for the second,
  the second worker holds the second and waits for the first.\<close>

theorem deadlock_or_done:
  assumes "run dl_step es dl_init = Some s"
  shows "length es \<le> 14 \<and> (stuck dl_step s \<longrightarrow>
    dmain_at s = D_exit \<and> first_mutex s = None \<and> second_mutex s = None \<or>
    dmain_at s = D_join1 \<and> one_at s = K_inner \<and> two_at s = K_inner \<and> first_mutex s = Some 1 \<and> second_mutex s = Some 2)"
proof -
  have "dl_work dl_init = 14" by (simp add: dl_work_def dl_init_def)
  then have "length es \<le> 14" using dl.run_bounded [OF assms] by simp
  with dl_stuck [OF dl.run_inv [OF assms]] show ?thesis by blast
qed

theorem deadlock_or_done_witness:
  "\<exists>es s. run dl_step es dl_init = Some s \<and> length es \<le> 14 \<and> stuck dl_step s \<and> dmain_at s \<noteq> D_exit \<and> one_at s = K_inner \<and> two_at s = K_inner"
proof -
  let ?es = "[D_main, D_main, D_main, D_one, D_two]"
  have "map_option (\<lambda>s. (dmain_at s, one_at s, two_at s, first_mutex s, second_mutex s)) (run dl_step ?es dl_init) =
      Some (D_join1, K_inner, K_inner, Some 1, Some 2)" by code_simp
  then obtain s where s: "run dl_step ?es dl_init = Some s" "dmain_at s = D_join1" "one_at s = K_inner" "two_at s = K_inner"
    "first_mutex s = Some 1" "second_mutex s = Some 2" by (auto simp del: run.simps)
  have "dl_step e s = None" for e
    by (cases e) (simp_all add: s dl_main_def do_work_one_def do_work_two_def)
  then have "stuck dl_step s" by (simp add: stuck_def)
  from deadlock_or_done [OF s(1)] this s show ?thesis
    by (intro exI [of _ ?es] exI [of _ s]) (simp del: run.simps)
qed

end
