(* ===== verification/TA_First_Try.thy ===== *)
theory TA_First_Try
  imports Posix_Sync
begin

text \<open>
  The first version of the sleeping teaching assistant, \<open>ch5/projects/proj1/TA_proj_1_first_try_not_working.c\<close>: the
  students themselves pass the TA on, inside critical sections of \<open>TA_test_sem\<close>; the TA thread only
  sleeps. One step is one semaphore operation or one access of \<open>Students\<close> or \<open>waiting_count\<close>
  (\<open>waiting_count\<close> is changed only inside the critical sections). A student's identifier is found in
  \<open>Stu_tid\<close>; a created thread is taken to find it stored.
\<close>

section \<open>State\<close>

definition NUM_STUDENTS :: int where
  "NUM_STUDENTS = 5"

definition NUM_TA_WAIT_CHAIRS :: int where
  "NUM_TA_WAIT_CHAIRS = 3"

datatype STUDENT_STATE = PROGRAMMING | WAITING_FOR_TA | WITH_TA

datatype TA_STATE = NAPPING | TEACHING

datatype fpc =
    F_unborn | F_id | F_prog
  | B_wait | B_line | B_scan | B_try | B_with | B_post
  | F_check
  | Q_wait | Q_test | Q_assert | Q_state | Q_inc | Q_full | Q_full_assert | Q_post
  | F_waiting | F_chair | F_with | F_teach
  | R_wait | R_unlock | R_state | R_count | R_scan | R_found | R_try | R_give | R_dec | R_chairs | R_post
  | F_done

datatype fmain_pc = FM_init | FM_ta | FM_create nat | FM_created nat | FM_join_ta | FM_join nat | FM_cleanup | FM_exit

record ft_state =
  Students :: "STUDENT_STATE list"
  Ta :: TA_STATE
  TA_test_sem :: sem
  TA_lock_sem :: sem
  TA_chairs_sem :: sem
  waiting_count :: int
  Stu_tid :: "nat \<Rightarrow> tid option"
  me :: "tid \<Rightarrow> int"
  idx :: "tid \<Rightarrow> int"
  at :: "tid \<Rightarrow> fpc"
  ta_created :: bool
  fmain_at :: fmain_pc
  stopped :: "c_abort option"

definition ft_init :: ft_state where
  "ft_init = \<lparr>Students = replicate (nat NUM_STUDENTS) PROGRAMMING, Ta = NAPPING, TA_test_sem = 0, TA_lock_sem = 0,
     TA_chairs_sem = 0, waiting_count = 0, Stu_tid = (\<lambda>_. None), me = (\<lambda>_. 0), idx = (\<lambda>_. 0),
     at = (\<lambda>_. F_unborn), ta_created = False, fmain_at = FM_init, stopped = None\<rparr>"

section \<open>Steps\<close>

definition fail :: "c_abort \<Rightarrow> ft_state \<Rightarrow> ft_state" where
  "fail e s = s\<lparr>stopped := Some e\<rparr>"

definition goto :: "tid \<Rightarrow> fpc \<Rightarrow> ft_state \<Rightarrow> ft_state" where
  "goto t p s = s\<lparr>at := (at s)(t := p)\<rparr>"

text \<open>\<open>rc k\<close> is the return code of the \<open>k\<close>-th checked call of \<open>main\<close>: three to initialise, three to destroy.\<close>

definition init_state :: "(nat \<Rightarrow> int) \<Rightarrow> ft_state \<Rightarrow> ft_state c_result" where
  "init_state rc s = c_bind (checked_calls rc 0 [71, 76, 81]) (\<lambda>_.
     Inr (s\<lparr>Ta := NAPPING, waiting_count := 0, Students := replicate (nat NUM_STUDENTS) PROGRAMMING,
       TA_test_sem := 1, TA_lock_sem := 1, TA_chairs_sem := 0\<rparr>))"

definition set_student :: "int \<Rightarrow> STUDENT_STATE \<Rightarrow> tid \<Rightarrow> fpc \<Rightarrow> ft_state \<Rightarrow> ft_state" where
  "set_student i v t p s = (case c_write (Students s) i v of
     Inl e \<Rightarrow> fail e s | Inr xs \<Rightarrow> goto t p (s\<lparr>Students := xs\<rparr>))"

definition if_student :: "int \<Rightarrow> STUDENT_STATE \<Rightarrow> tid \<Rightarrow> fpc \<Rightarrow> fpc \<Rightarrow> ft_state \<Rightarrow> ft_state" where
  "if_student i v t p q s = (case c_read (Students s) i of
     Inl e \<Rightarrow> fail e s | Inr x \<Rightarrow> goto t (if x = v then p else q) s)"

text \<open>\<open>acquire_TA(i)\<close>, called by thread \<open>t\<close>: the \<open>sem_trywait\<close>; the write that follows goes to \<open>p\<close>.\<close>

definition acquire_TA_try :: "tid \<Rightarrow> fpc \<Rightarrow> ft_state \<Rightarrow> ft_state" where
  "acquire_TA_try t p s = (case sem_wait (TA_lock_sem s) of
     None \<Rightarrow> fail (Assertion 185) s | Some v \<Rightarrow> goto t p (s\<lparr>TA_lock_sem := v\<rparr>))"

definition acquire_TA_set :: "int \<Rightarrow> tid \<Rightarrow> fpc \<Rightarrow> ft_state \<Rightarrow> ft_state" where
  "acquire_TA_set i t p s = set_student i WITH_TA t p s"

definition enter :: "tid \<Rightarrow> fpc \<Rightarrow> ft_state \<Rightarrow> ft_state option" where
  "enter t p s = map_option (\<lambda>v. goto t p (s\<lparr>TA_test_sem := v\<rparr>)) (sem_wait (TA_test_sem s))"

definition leave :: "nat \<Rightarrow> tid \<Rightarrow> fpc \<Rightarrow> ft_state \<Rightarrow> ft_state" where
  "leave line t p s = (case sem_post (TA_test_sem s) of
     None \<Rightarrow> fail (Assertion line) s | Some v \<Rightarrow> goto t p (s\<lparr>TA_test_sem := v\<rparr>))"

definition test_is_ta_busy :: "tid \<Rightarrow> ft_state \<Rightarrow> ft_state option" where
  "test_is_ta_busy t s = (case at s t of
     B_wait \<Rightarrow> enter t B_line s
   | B_line \<Rightarrow> Some (if waiting_count s > 0 then goto t B_post s else goto t B_scan (s\<lparr>idx := (idx s)(t := 0)\<rparr>))
   | B_scan \<Rightarrow> Some (if idx s t < NUM_STUDENTS
       then case c_read (Students s) (idx s t) of
           Inl e \<Rightarrow> fail e s
         | Inr x \<Rightarrow> if x = WITH_TA then goto t B_post s else s\<lparr>idx := (idx s)(t := idx s t + 1)\<rparr>
       else goto t B_try s)
   | B_try \<Rightarrow> Some (acquire_TA_try t B_with s)
   | B_with \<Rightarrow> Some (acquire_TA_set (me s t) t B_post s)
   | B_post \<Rightarrow> Some (leave 286 t F_check s)
   | _ \<Rightarrow> None)"

definition acquire_chair :: "tid \<Rightarrow> ft_state \<Rightarrow> ft_state option" where
  "acquire_chair t s = (case at s t of
     Q_wait \<Rightarrow> enter t Q_test s
   | Q_test \<Rightarrow> Some (goto t (if waiting_count s < NUM_TA_WAIT_CHAIRS then Q_assert else Q_full) s)
   | Q_assert \<Rightarrow> Some (if waiting_count s < 3 then goto t Q_state s else fail (Assertion 164) s)
   | Q_state \<Rightarrow> Some (set_student (me s t) WAITING_FOR_TA t Q_inc s)
   | Q_inc \<Rightarrow> Some (goto t Q_post (s\<lparr>waiting_count := waiting_count s + 1\<rparr>))
   | Q_full \<Rightarrow> Some (set_student (me s t) PROGRAMMING t Q_full_assert s)
   | Q_full_assert \<Rightarrow> Some (if waiting_count s = 3 then goto t Q_post s else fail (Assertion 171) s)
   | Q_post \<Rightarrow> Some (leave 176 t F_waiting s)
   | _ \<Rightarrow> None)"

text \<open>\<open>release_chair\<close>: in \<open>i = i + 1 % NUM_STUDENTS\<close> the remainder applies to 1 alone.\<close>

definition release_chair :: "tid \<Rightarrow> ft_state \<Rightarrow> ft_state option" where
  "release_chair t s = (case at s t of
     R_wait \<Rightarrow> enter t R_unlock s
   | R_unlock \<Rightarrow> Some (case sem_post (TA_lock_sem s) of
       None \<Rightarrow> fail (Assertion 203) s | Some v \<Rightarrow> goto t R_state (s\<lparr>TA_lock_sem := v\<rparr>))
   | R_state \<Rightarrow> Some (set_student (me s t) PROGRAMMING t R_count s)
   | R_count \<Rightarrow> Some (if waiting_count s > 0
       then goto t R_scan (s\<lparr>idx := (idx s)(t := (me s t + 1) mod NUM_STUDENTS)\<rparr>) else goto t R_post s)
   | R_scan \<Rightarrow> Some (if idx s t \<noteq> me s t
       then case c_read (Students s) (idx s t) of
           Inl e \<Rightarrow> fail e s
         | Inr x \<Rightarrow> if x = WAITING_FOR_TA then goto t R_found s
             else s\<lparr>idx := (idx s)(t := idx s t + 1 mod NUM_STUDENTS)\<rparr>
       else goto t R_found s)
   | R_found \<Rightarrow> Some (case c_read (Students s) (idx s t) of
       Inl e \<Rightarrow> fail e s | Inr x \<Rightarrow> if x = WAITING_FOR_TA then goto t R_try s else fail (Assertion 224) s)
   | R_try \<Rightarrow> Some (acquire_TA_try t R_give s)
   | R_give \<Rightarrow> Some (acquire_TA_set (idx s t) t R_dec s)
   | R_dec \<Rightarrow> Some (goto t R_chairs (s\<lparr>waiting_count := waiting_count s - 1\<rparr>))
   | R_chairs \<Rightarrow> Some (case sem_post (TA_chairs_sem s) of
       None \<Rightarrow> fail (Assertion 230) s | Some v \<Rightarrow> goto t R_post (s\<lparr>TA_chairs_sem := v\<rparr>))
   | R_post \<Rightarrow> Some (leave 236 t F_done s)
   | _ \<Rightarrow> None)"

definition release_TA :: "tid \<Rightarrow> ft_state \<Rightarrow> ft_state option" where
  "release_TA t s = release_chair t s"

function get_student_id :: "(nat \<Rightarrow> tid option) \<Rightarrow> nat \<Rightarrow> tid \<Rightarrow> int c_result" where
  "get_student_id tids i t =
     (if int i < NUM_STUDENTS then if tids i = Some t then Inr (int i) else get_student_id tids (i + 1) t
      else Inl (Assertion 302))"
  by pat_completeness auto
termination
  by (relation "measure (\<lambda>(tids, i, t). nat NUM_STUDENTS - i)") auto

declare get_student_id.simps [simp del]

definition Student_thread_func :: "tid \<Rightarrow> int \<Rightarrow> ft_state \<Rightarrow> ft_state option" where
  "Student_thread_func t r s =
     (if at s t \<in> {B_wait, B_line, B_scan, B_try, B_with, B_post} then test_is_ta_busy t s
      else if at s t \<in> {Q_wait, Q_test, Q_assert, Q_state, Q_inc, Q_full, Q_full_assert, Q_post} then acquire_chair t s
      else case at s t of
        F_unborn \<Rightarrow> None
      | F_id \<Rightarrow> Some (case get_student_id (Stu_tid s) 0 t of
          Inl e \<Rightarrow> fail e s | Inr i \<Rightarrow> goto t F_prog (s\<lparr>me := (me s)(t := i)\<rparr>))
      | F_prog \<Rightarrow> if r < 0 then None else Some (goto t B_wait s)
      | F_check \<Rightarrow> Some (if_student (me s t) WITH_TA t F_waiting Q_wait s)
      | F_waiting \<Rightarrow> Some (if_student (me s t) WAITING_FOR_TA t F_chair F_with s)
      | F_chair \<Rightarrow> map_option (\<lambda>v. goto t F_with (s\<lparr>TA_chairs_sem := v\<rparr>)) (sem_wait (TA_chairs_sem s))
      | F_with \<Rightarrow> Some (if_student (me s t) WITH_TA t F_teach F_done s)
      | F_teach \<Rightarrow> if r < 0 then None else Some (goto t R_wait s)
      | F_done \<Rightarrow> Some (set_student (me s t) PROGRAMMING t F_prog s)
      | _ \<Rightarrow> release_TA t s)"

text \<open>The TA thread prints and sleeps forever.\<close>

definition TA_thread_func :: "ft_state \<Rightarrow> ft_state option" where
  "TA_thread_func s = (if ta_created s then Some s else None)"

fun cleanup_state :: "(nat \<Rightarrow> int) \<Rightarrow> nat \<Rightarrow> nat list \<Rightarrow> ft_state \<Rightarrow> ft_state" where
  "cleanup_state rc k [] s = s"
| "cleanup_state rc k (l # ls) s = (if rc k \<noteq> 0 then fail (Assertion l) s else cleanup_state rc (k + 1) ls s)"

text \<open>
  \<open>main\<close>. The second join loop is \<open>while(i++ < NUM_STUDENTS) pthread_join(Stu_tid[i], NULL)\<close>: it skips the first
  student and reads one identifier past the array. Neither the TA nor a student ever exits. With
  \<open>store_first\<close> a student's identifier is stored before the student runs, otherwise afterwards.
\<close>

definition ft_main :: "bool \<Rightarrow> (nat \<Rightarrow> int) \<Rightarrow> ft_state \<Rightarrow> ft_state option" where
  "ft_main store_first rc s = (case fmain_at s of
     FM_init \<Rightarrow> Some (case init_state rc s of Inl e \<Rightarrow> fail e s | Inr s' \<Rightarrow> s'\<lparr>fmain_at := FM_ta\<rparr>)
   | FM_ta \<Rightarrow> Some (s\<lparr>ta_created := True, fmain_at := FM_create 0\<rparr>)
   | FM_create i \<Rightarrow> Some (if int i < NUM_STUDENTS
       then if store_first
            then s\<lparr>Stu_tid := (Stu_tid s)(i := Some i), at := (at s)(i := F_id), fmain_at := FM_create (i + 1)\<rparr>
            else s\<lparr>at := (at s)(i := F_id), fmain_at := FM_created i\<rparr>
       else s\<lparr>fmain_at := FM_join_ta\<rparr>)
   | FM_created i \<Rightarrow> Some (s\<lparr>Stu_tid := (Stu_tid s)(i := Some i), fmain_at := FM_create (i + 1)\<rparr>)
   | FM_join_ta \<Rightarrow> None
   | FM_join i \<Rightarrow> if int i < NUM_STUDENTS
       then if int i + 1 < NUM_STUDENTS then None else Some (fail Out_Of_Bounds s)
       else Some (s\<lparr>fmain_at := FM_cleanup\<rparr>)
   | FM_cleanup \<Rightarrow> Some ((cleanup_state rc 3 [89, 94, 99] s)\<lparr>fmain_at := FM_exit\<rparr>)
   | FM_exit \<Rightarrow> None)"

datatype ft_event = FMain | FTA | FStudent tid int

fun ft_step :: "bool \<Rightarrow> (nat \<Rightarrow> int) \<Rightarrow> ft_event \<Rightarrow> ft_state \<Rightarrow> ft_state option" where
  "ft_step sf rc e s = (if stopped s \<noteq> None then None else case e of
     FMain \<Rightarrow> ft_main sf rc s | FTA \<Rightarrow> TA_thread_func s | FStudent t r \<Rightarrow> Student_thread_func t r s)"

section \<open>The critical sections\<close>

fun inside :: "fpc \<Rightarrow> int" where
  "inside B_line = 1" | "inside B_scan = 1" | "inside B_try = 1" | "inside B_with = 1" | "inside B_post = 1"
| "inside Q_test = 1" | "inside Q_assert = 1" | "inside Q_state = 1" | "inside Q_inc = 1" | "inside Q_full = 1"
| "inside Q_full_assert = 1" | "inside Q_post = 1"
| "inside R_unlock = 1" | "inside R_state = 1" | "inside R_count = 1" | "inside R_scan = 1" | "inside R_found = 1"
| "inside R_try = 1" | "inside R_give = 1" | "inside R_dec = 1" | "inside R_chairs = 1" | "inside R_post = 1"
| "inside _ = 0"

text \<open>What a thread in a critical section knows of \<open>waiting_count\<close>.\<close>

fun knows :: "fpc \<Rightarrow> int \<Rightarrow> bool" where
  "knows Q_assert n = (n < 3)" | "knows Q_state n = (n < 3)" | "knows Q_inc n = (n < 3)"
| "knows Q_full n = (n = 3)" | "knows Q_full_assert n = (n = 3)"
| "knows R_scan n = (0 < n)" | "knows R_found n = (0 < n)" | "knows R_try n = (0 < n)" | "knows R_give n = (0 < n)"
| "knows R_dec n = (0 < n)"
| "knows _ n = True"

definition begun :: "fmain_pc \<Rightarrow> int" where
  "begun m = (if m = FM_init then 0 else 1)"

definition main_part :: "ft_state \<Rightarrow> bool" where
  "main_part s \<longleftrightarrow> (case fmain_at s of
     FM_init \<Rightarrow> \<forall>t. at s t = F_unborn
   | FM_ta \<Rightarrow> \<forall>t. at s t = F_unborn
   | FM_create i \<Rightarrow> \<forall>t \<ge> i. at s t = F_unborn
   | FM_created i \<Rightarrow> \<forall>t > i. at s t = F_unborn
   | FM_join_ta \<Rightarrow> True
   | _ \<Rightarrow> False)"

definition account :: "ft_state \<Rightarrow> bool" where
  "account s \<longleftrightarrow> int (TA_test_sem s) + tally 5 inside (at s) = begun (fmain_at s)"

definition thread_ok :: "ft_state \<Rightarrow> tid \<Rightarrow> bool" where
  "thread_ok s t \<longleftrightarrow> (at s t \<noteq> F_unborn \<longrightarrow> t < 5) \<and> knows (at s t) (waiting_count s)"

definition ft_inv :: "ft_state \<Rightarrow> bool" where
  "ft_inv s \<longleftrightarrow> account s \<and> 0 \<le> waiting_count s \<and> waiting_count s \<le> 3 \<and> (\<forall>t. thread_ok s t) \<and> main_part s \<and>
     stopped s \<notin> Some ` Assertion ` {164, 171, 176, 236, 286}"

lemma inside_range: "0 \<le> inside p" "inside p = 0 \<or> inside p = 1"
  by (cases p; simp)+

lemma knows_outside: "inside p = 0 \<Longrightarrow> knows p n"
  by (cases p) simp_all

lemma inside_exclusive:
  assumes "account s" "t < 5" "u < 5" "t \<noteq> u" "inside (at s t) = 1"
  shows "inside (at s u) = 0"
  using tally_ge_two [of inside t 5 u "at s", OF inside_range(1) assms(2-4)] assms(1,5) inside_range(1) [of "at s u"]
  by (simp add: account_def begun_def split: if_splits)

lemma test_sem_small: "account s \<Longrightarrow> sem_post (TA_test_sem s) = Some (Suc (TA_test_sem s))"
  using tally_nonneg [of inside 5 "at s", OF inside_range(1)]
  by (simp add: account_def begun_def SEM_VALUE_MAX_def split: if_splits)

lemmas ft_helpers = fail_def goto_def set_student_def if_student_def acquire_TA_try_def acquire_TA_set_def enter_def leave_def

lemmas ft_defs = Student_thread_func_def test_is_ta_busy_def acquire_chair_def release_TA_def release_chair_def ft_helpers
  NUM_TA_WAIT_CHAIRS_def

lemma student_account:
  assumes "account s" "t < 5" "Student_thread_func t r s = Some s'"
  shows "account s'"
  using assms test_sem_small [OF assms(1)]
  by (cases "at s t"; clarsimp simp: ft_defs simp del: sem_post_eq_Some split: if_splits sum.splits option.splits;
      simp add: account_def del: sem_post_eq_Some)

lemma get_student_id_error: "get_student_id tids i t = Inl e \<Longrightarrow> e = Assertion 302"
proof (induction tids i t rule: get_student_id.induct)
  case (1 tids i t)
  then show ?case by (subst (asm) (2) get_student_id.simps) (auto split: if_splits)
qed

lemma student_own:
  assumes "account s" "0 \<le> waiting_count s" "waiting_count s \<le> 3" "knows (at s t) (waiting_count s)"
    "Student_thread_func t r s = Some s'" "stopped s = None"
  shows "0 \<le> waiting_count s' \<and> waiting_count s' \<le> 3 \<and> knows (at s' t) (waiting_count s') \<and>
    stopped s' \<notin> Some ` Assertion ` {164, 171, 176, 236, 286} \<and> fmain_at s' = fmain_at s \<and> at s' t \<noteq> F_unborn \<and>
    (inside (at s t) = 0 \<longrightarrow> waiting_count s' = waiting_count s)"
  using assms(2-6) test_sem_small [OF assms(1)] get_student_id_error [of "Stu_tid s" 0 t]
  by (cases "at s t"; clarsimp simp: ft_defs simp del: sem_post_eq_Some split: if_splits sum.splits option.splits;
      (auto simp: c_read_def c_write_def split: if_splits)?)

lemma student_rest:
  assumes "Student_thread_func t r s = Some s'" "u \<noteq> t"
  shows "at s' u = at s u"
  using assms
  by (cases "at s t"; clarsimp simp: ft_defs simp del: sem_post_eq_Some split: if_splits sum.splits option.splits)

lemma student_keeps:
  assumes "ft_inv s" "stopped s = None" "Student_thread_func t r s = Some s'"
  shows "ft_inv s'"
proof -
  have a: "account s" and wc: "0 \<le> waiting_count s" "waiting_count s \<le> 3" and th: "thread_ok s u" and m: "main_part s" for u
    using assms(1) by (simp_all add: ft_inv_def)
  have b: "at s t \<noteq> F_unborn" using assms(3) by (auto simp: Student_thread_func_def)
  have t: "t < 5" and k: "knows (at s t) (waiting_count s)" using th [of t] b by (simp_all add: thread_ok_def)
  note own = student_own [OF a wc k assms(3,2)] and rest = student_rest [OF assms(3)]
  have "thread_ok s' u" for u
  proof (cases "u = t")
    case True
    then show ?thesis using own t by (simp add: thread_ok_def)
  next
    case False
    then have old: "at s' u = at s u" "thread_ok s u" using rest th by simp_all
    show ?thesis
    proof (cases "inside (at s t) = 0")
      case True
      then show ?thesis using old own by (simp add: thread_ok_def)
    next
      case in_cs: False
      have "knows (at s u) n" for n
      proof (cases "at s u = F_unborn")
        case False
        then have "u < 5" using old(2) by (simp add: thread_ok_def)
        then show ?thesis using inside_exclusive [OF a t] in_cs inside_range(2) [of "at s t"] \<open>u \<noteq> t\<close>
          by (intro knows_outside) simp
      qed simp
      then show ?thesis using old by (simp add: thread_ok_def)
    qed
  qed
  moreover have "main_part s'"
  proof -
    have "at s' u = F_unborn" if "at s u = F_unborn" for u using that b rest by (cases "u = t") simp_all
    then show ?thesis using m own by (auto simp: main_part_def split: fmain_pc.splits)
  qed
  ultimately show ?thesis using student_account [OF a t assms(3)] own by (simp add: ft_inv_def)
qed

lemma main_keeps:
  assumes "ft_inv s" "ft_main sf rc s = Some s'"
  shows "ft_inv s'"
proof -
  have a: "account s" and m: "main_part s" and th: "\<And>u. thread_ok s u" and wc: "0 \<le> waiting_count s" "waiting_count s \<le> 3"
    and st: "stopped s \<notin> Some ` Assertion ` {164, 171, 176, 236, 286}" using assms(1) by (simp_all add: ft_inv_def)
  show ?thesis
  proof (cases "fmain_at s")
    case FM_init
    then have u: "at s = (\<lambda>_. F_unborn)" using m by (auto simp: main_part_def)
    have "s' = s\<lparr>Ta := NAPPING, waiting_count := 0, Students := replicate (nat NUM_STUDENTS) PROGRAMMING,
        TA_test_sem := 1, TA_lock_sem := 1, TA_chairs_sem := 0, fmain_at := FM_ta\<rparr> \<or> (\<exists>l \<in> {71, 76, 81}. s' = fail (Assertion l) s)"
      using assms(2) FM_init by (auto simp: ft_main_def init_state_def)
    then show ?thesis using assms(1) st FM_init u
      by (auto simp: ft_inv_def init_state_def account_def thread_ok_def main_part_def tally_def begun_def fail_def)
  next
    case FM_ta
    then have s': "s' = s\<lparr>ta_created := True, fmain_at := FM_create 0\<rparr>" using assms(2) by (simp add: ft_main_def)
    show ?thesis using a m th wc st FM_ta by (simp add: ft_inv_def s' account_def thread_ok_def main_part_def begun_def)
  next
    case (FM_create i)
    show ?thesis
    proof (cases "i < 5")
      case True
      obtain ids p where s': "s' = s\<lparr>Stu_tid := ids, at := (at s)(i := F_id), fmain_at := p\<rparr>"
          "p = FM_create (i + 1) \<or> p = FM_created i"
      proof
        show "s' = s\<lparr>Stu_tid := if sf then (Stu_tid s)(i := Some i) else Stu_tid s, at := (at s)(i := F_id),
            fmain_at := if sf then FM_create (i + 1) else FM_created i\<rparr>"
          using assms(2) FM_create True by (auto simp: ft_main_def NUM_STUDENTS_def)
      qed simp
      have "at s i = F_unborn" using m FM_create by (simp add: main_part_def)
      then have "account s'" using a True FM_create s'(2) by (auto simp: account_def s'(1) begun_def)
      moreover have "thread_ok s' u" for u using th [of u] True by (cases "u = i") (simp_all add: thread_ok_def s'(1))
      moreover have "main_part s'" using m FM_create s'(2) by (auto simp: main_part_def s'(1))
      ultimately show ?thesis using wc st by (simp add: ft_inv_def s'(1))
    next
      case False
      then have s': "s' = s\<lparr>fmain_at := FM_join_ta\<rparr>" using assms(2) FM_create by (simp add: ft_main_def NUM_STUDENTS_def)
      show ?thesis using a th wc st FM_create by (simp add: ft_inv_def s' account_def thread_ok_def main_part_def begun_def)
    qed
  next
    case (FM_created i)
    then have s': "s' = s\<lparr>Stu_tid := (Stu_tid s)(i := Some i), fmain_at := FM_create (i + 1)\<rparr>"
      using assms(2) by (simp add: ft_main_def)
    show ?thesis using a m th wc st FM_created by (simp add: ft_inv_def s' account_def thread_ok_def main_part_def begun_def)
  qed (use assms(2) m in \<open>simp_all add: ft_main_def main_part_def\<close>)
qed

interpretation ft: invariant_system "ft_step sf rc" ft_init ft_inv
proof unfold_locales
  show "ft_inv ft_init"
    by (simp add: ft_inv_def ft_init_def account_def tally_def begun_def thread_ok_def main_part_def)
  show "ft_inv s'" if "ft_inv s" "ft_step sf rc e s = Some s'" for s e s'
  proof (cases e)
    case FMain
    then show ?thesis using that main_keeps [of s sf rc s'] by (simp split: if_splits)
  next
    case FTA
    then show ?thesis using that by (simp add: TA_thread_func_def split: if_splits)
  next
    case (FStudent t r)
    then show ?thesis using that student_keeps [of s t r s'] by (simp split: if_splits)
  qed
qed

section \<open>Properties\<close>

text \<open>C31: In every reachable state of the first version of the sleeping TA program at most one student is inside a critical section of
  TA_test_sem, waiting_count is between 0 and 3, and neither the assertions on waiting_count (lines 164 and
  171) nor those on the release of TA_test_sem have failed.\<close>

theorem first_try_critical:
  assumes "reachable (ft_step sf rc) ft_init s"
  shows "(\<forall>t u. inside (at s t) = 1 \<longrightarrow> inside (at s u) = 1 \<longrightarrow> t = u) \<and> 0 \<le> waiting_count s \<and> waiting_count s \<le> 3 \<and>
    stopped s \<notin> Some ` Assertion ` {164, 171, 176, 236, 286}"
proof -
  have inv: "ft_inv s" by (rule ft.reachable_inv [OF assms])
  then have a: "account s" and th: "\<And>t. thread_ok s t" by (simp_all add: ft_inv_def)
  have "t = u" if "inside (at s t) = 1" "inside (at s u) = 1" for t u
  proof (rule ccontr)
    assume "t \<noteq> u"
    have "t < 5" "u < 5" using th [of t] th [of u] that by (auto simp: thread_ok_def)
    from inside_exclusive [OF a this \<open>t \<noteq> u\<close> that(1)] that(2) show False by simp
  qed
  then show ?thesis using inv by (simp add: ft_inv_def)
qed

theorem first_try_critical_witness:
  "\<exists>s. reachable (ft_step True (\<lambda>_. 0)) ft_init s \<and> at s 1 = B_line \<and> inside (at s 0) \<noteq> 1 \<and> waiting_count s \<le> 3"
proof -
  let ?es = "replicate 7 FMain @ replicate 3 (FStudent 1 0)"
  have "map_option (\<lambda>s. at s 1) (run (ft_step True (\<lambda>_. 0)) ?es ft_init) = Some B_line" by code_simp
  then obtain s where s: "run (ft_step True (\<lambda>_. 0)) ?es ft_init = Some s" "at s 1 = B_line"
    by (auto simp del: run.simps replicate.simps)
  have r: "reachable (ft_step True (\<lambda>_. 0)) ft_init s" by (rule run_reachable [OF reachable.start s(1)])
  have "inside (at s 1) = 1" using s(2) by simp
  then have "inside (at s 0) \<noteq> 1" using first_try_critical [OF r] by (metis zero_neq_one)
  then show ?thesis using first_try_critical [OF r] r s(2) by blast
qed

text \<open>The first version of the sleeping TA program can read beyond the array Students: when student 1 leaves the TA while only student 0
  waits, the search of release_chair counts past the last student, since i + 1 % NUM_STUDENTS is i + 1.\<close>

theorem first_try_out_of_bounds:
  "\<exists>s. reachable (ft_step True (\<lambda>_. 0)) ft_init s \<and> at s 1 = R_scan \<and> idx s 1 = 5 \<and> at s 0 = F_chair \<and> stopped s = Some Out_Of_Bounds"
proof -
  let ?es = "replicate 7 FMain @ replicate 16 (FStudent 1 0) @ replicate 15 (FStudent 0 0) @ replicate 9 (FStudent 1 0)"
  have "map_option (\<lambda>s. (at s 1, idx s 1, at s 0, stopped s)) (run (ft_step True (\<lambda>_. 0)) ?es ft_init) =
      Some (R_scan, 5, F_chair, Some Out_Of_Bounds)" by code_simp
  then obtain s where s: "run (ft_step True (\<lambda>_. 0)) ?es ft_init = Some s" "at s 1 = R_scan" "idx s 1 = 5" "at s 0 = F_chair"
    "stopped s = Some Out_Of_Bounds" by (auto simp del: run.simps replicate.simps)
  from run_reachable [OF reachable.start s(1)] s show ?thesis by blast
qed

text \<open>The comment at the creation of the students speaks of a race: a student that runs before its identifier is
  stored does not find itself.\<close>

lemma first_try_identifier_race:
  "\<exists>s. run (ft_step False (\<lambda>_. 0)) [FMain, FMain, FMain, FStudent 0 0] ft_init = Some s \<and> stopped s = Some (Assertion 302)"
proof -
  have n: "get_student_id (\<lambda>_. None) j t = Inl (Assertion 302)" for j t
    by (induction "\<lambda>_ :: nat. None :: tid option" j t rule: get_student_id.induct) (subst get_student_id.simps, simp)
  show ?thesis
    by (simp add: ft_init_def ft_main_def init_state_def NUM_STUDENTS_def Student_thread_func_def fail_def n)
qed

text \<open>When a semaphore cannot be initialised, the first step of the program is its last.\<close>

lemma first_try_init_fails:
  assumes "init_state rc ft_init = Inl e"
  shows "ft_step sf rc FMain ft_init = Some (fail e ft_init)" "stuck (ft_step sf rc) (fail e ft_init)"
proof -
  have "stopped ft_init = None" "fmain_at ft_init = FM_init" by (simp_all add: ft_init_def)
  then show "ft_step sf rc FMain ft_init = Some (fail e ft_init)" using assms by (simp add: ft_main_def)
  show "stuck (ft_step sf rc) (fail e ft_init)" by (simp add: stuck_def fail_def)
qed

end
