(* ===== verification/Kernel_List.thy ===== *)
theory Kernel_List
  imports OSC_Prelude "HOL-Library.AList"
begin

text \<open>
  The doubly linked lists of the Linux kernel (\<open>linux_headers/include/linux/list.h\<close>) which the
  kernel modules of the repository use. The memory is an explicit heap of \<open>struct list_head\<close>
  cells; every access through a pointer is checked, so a dereference of a null pointer, of a
  poisoned one or of one to no cell stops the run with \<open>Bad_Pointer\<close>. The operations are
  translated line by line and refine operations on lists of addresses.
\<close>

section \<open>Cells and checked accesses\<close>

text \<open>
  A pointer is null, one of the two poison values of \<open>poison.h\<close> (never mapped) or the address
  of a cell. Addresses are a parameter, so that a structure with several embedded list heads can
  name each of them.
\<close>

datatype 'a ptr = NULL | LIST_POISON1 | LIST_POISON2 | Ptr 'a

record 'a list_head =
  lnext :: "'a ptr"
  lprev :: "'a ptr"

type_synonym 'a list_heap = "'a \<rightharpoonup> 'a list_head"

definition deref :: "'a list_heap \<Rightarrow> 'a ptr \<Rightarrow> 'a list_head c_result" where
  "deref h p = (case p of
     Ptr a \<Rightarrow> (case h a of Some c \<Rightarrow> Inr c | None \<Rightarrow> Inl Bad_Pointer)
   | _ \<Rightarrow> Inl Bad_Pointer)"

definition store :: "'a list_heap \<Rightarrow> 'a ptr \<Rightarrow> 'a list_head \<Rightarrow> 'a list_heap c_result" where
  "store h p c = (case p of Ptr a \<Rightarrow> Inr (h(a \<mapsto> c)) | _ \<Rightarrow> Inl Bad_Pointer)"

definition get_next :: "'a list_heap \<Rightarrow> 'a ptr \<Rightarrow> 'a ptr c_result" where
  "get_next h p = c_bind (deref h p) (\<lambda>c. Inr (lnext c))"

definition get_prev :: "'a list_heap \<Rightarrow> 'a ptr \<Rightarrow> 'a ptr c_result" where
  "get_prev h p = c_bind (deref h p) (\<lambda>c. Inr (lprev c))"

definition set_next :: "'a list_heap \<Rightarrow> 'a ptr \<Rightarrow> 'a ptr \<Rightarrow> 'a list_heap c_result" where
  "set_next h p v = c_bind (deref h p) (\<lambda>c. store h p (c\<lparr>lnext := v\<rparr>))"

definition set_prev :: "'a list_heap \<Rightarrow> 'a ptr \<Rightarrow> 'a ptr \<Rightarrow> 'a list_heap c_result" where
  "set_prev h p v = c_bind (deref h p) (\<lambda>c. store h p (c\<lparr>lprev := v\<rparr>))"

section \<open>The operations\<close>

definition INIT_LIST_HEAD :: "'a list_heap \<Rightarrow> 'a ptr \<Rightarrow> 'a list_heap c_result" where
  "INIT_LIST_HEAD h l = c_bind (set_next h l l) (\<lambda>h. set_prev h l l)"

definition list_add_between ::
    "'a list_heap \<Rightarrow> 'a ptr \<Rightarrow> 'a ptr \<Rightarrow> 'a ptr \<Rightarrow> 'a list_heap c_result" where
  "list_add_between h new prev nxt =
     c_bind (set_prev h nxt new) (\<lambda>h.
     c_bind (set_next h new nxt) (\<lambda>h.
     c_bind (set_prev h new prev) (\<lambda>h.
     set_next h prev new)))"

definition list_add :: "'a list_heap \<Rightarrow> 'a ptr \<Rightarrow> 'a ptr \<Rightarrow> 'a list_heap c_result" where
  "list_add h new head = c_bind (get_next h head) (\<lambda>n. list_add_between h new head n)"

definition list_add_tail :: "'a list_heap \<Rightarrow> 'a ptr \<Rightarrow> 'a ptr \<Rightarrow> 'a list_heap c_result" where
  "list_add_tail h new head = c_bind (get_prev h head) (\<lambda>p. list_add_between h new p head)"

definition list_del_between :: "'a list_heap \<Rightarrow> 'a ptr \<Rightarrow> 'a ptr \<Rightarrow> 'a list_heap c_result" where
  "list_del_between h prev nxt = c_bind (set_prev h nxt prev) (\<lambda>h. set_next h prev nxt)"

definition list_del_entry :: "'a list_heap \<Rightarrow> 'a ptr \<Rightarrow> 'a list_heap c_result" where
  "list_del_entry h entry =
     c_bind (get_prev h entry) (\<lambda>p. c_bind (get_next h entry) (\<lambda>n. list_del_between h p n))"

definition list_del :: "'a list_heap \<Rightarrow> 'a ptr \<Rightarrow> 'a list_heap c_result" where
  "list_del h entry =
     c_bind (get_prev h entry) (\<lambda>p.
     c_bind (get_next h entry) (\<lambda>n.
     c_bind (list_del_between h p n) (\<lambda>h.
     c_bind (set_next h entry LIST_POISON1) (\<lambda>h.
     set_prev h entry LIST_POISON2))))"

definition list_replace :: "'a list_heap \<Rightarrow> 'a ptr \<Rightarrow> 'a ptr \<Rightarrow> 'a list_heap c_result" where
  "list_replace h old new =
     c_bind (get_next h old) (\<lambda>n.
     c_bind (set_next h new n) (\<lambda>h.
     c_bind (get_next h new) (\<lambda>n.
     c_bind (set_prev h n new) (\<lambda>h.
     c_bind (get_prev h old) (\<lambda>p.
     c_bind (set_prev h new p) (\<lambda>h.
     c_bind (get_prev h new) (\<lambda>p.
     set_next h p new)))))))"

definition list_replace_init :: "'a list_heap \<Rightarrow> 'a ptr \<Rightarrow> 'a ptr \<Rightarrow> 'a list_heap c_result" where
  "list_replace_init h old new = c_bind (list_replace h old new) (\<lambda>h. INIT_LIST_HEAD h old)"

definition list_del_init :: "'a list_heap \<Rightarrow> 'a ptr \<Rightarrow> 'a list_heap c_result" where
  "list_del_init h entry = c_bind (list_del_entry h entry) (\<lambda>h. INIT_LIST_HEAD h entry)"

definition list_move :: "'a list_heap \<Rightarrow> 'a ptr \<Rightarrow> 'a ptr \<Rightarrow> 'a list_heap c_result" where
  "list_move h l head = c_bind (list_del_entry h l) (\<lambda>h. list_add h l head)"

definition list_move_tail :: "'a list_heap \<Rightarrow> 'a ptr \<Rightarrow> 'a ptr \<Rightarrow> 'a list_heap c_result" where
  "list_move_tail h l head = c_bind (list_del_entry h l) (\<lambda>h. list_add_tail h l head)"

definition list_is_last :: "'a list_heap \<Rightarrow> 'a ptr \<Rightarrow> 'a ptr \<Rightarrow> bool c_result" where
  "list_is_last h l head = c_bind (get_next h l) (\<lambda>n. Inr (n = head))"

definition list_empty :: "'a list_heap \<Rightarrow> 'a ptr \<Rightarrow> bool c_result" where
  "list_empty h head = c_bind (get_next h head) (\<lambda>n. Inr (n = head))"

definition list_empty_careful :: "'a list_heap \<Rightarrow> 'a ptr \<Rightarrow> bool c_result" where
  "list_empty_careful h head =
     c_bind (get_next h head) (\<lambda>n.
       if n = head then c_bind (get_prev h head) (\<lambda>p. Inr (n = p)) else Inr False)"

definition list_rotate_left :: "'a list_heap \<Rightarrow> 'a ptr \<Rightarrow> 'a list_heap c_result" where
  "list_rotate_left h head =
     c_bind (list_empty h head) (\<lambda>e.
       if \<not> e then c_bind (get_next h head) (\<lambda>first. list_move_tail h first head) else Inr h)"

definition list_is_singular :: "'a list_heap \<Rightarrow> 'a ptr \<Rightarrow> bool c_result" where
  "list_is_singular h head =
     c_bind (list_empty h head) (\<lambda>e.
       if \<not> e then
         c_bind (get_next h head) (\<lambda>n. c_bind (get_prev h head) (\<lambda>p. Inr (n = p)))
       else Inr False)"

definition list_cut_between ::
    "'a list_heap \<Rightarrow> 'a ptr \<Rightarrow> 'a ptr \<Rightarrow> 'a ptr \<Rightarrow> 'a list_heap c_result" where
  "list_cut_between h l head entry =
     c_bind (get_next h entry) (\<lambda>new_first.
     c_bind (get_next h head) (\<lambda>n.
     c_bind (set_next h l n) (\<lambda>h.
     c_bind (get_next h l) (\<lambda>n.
     c_bind (set_prev h n l) (\<lambda>h.
     c_bind (set_prev h l entry) (\<lambda>h.
     c_bind (set_next h entry l) (\<lambda>h.
     c_bind (set_next h head new_first) (\<lambda>h.
     set_prev h new_first head))))))))"

definition list_cut_position ::
    "'a list_heap \<Rightarrow> 'a ptr \<Rightarrow> 'a ptr \<Rightarrow> 'a ptr \<Rightarrow> 'a list_heap c_result" where
  "list_cut_position h l head entry =
     c_bind (list_empty h head) (\<lambda>e.
     if e then Inr h else
     c_bind (list_is_singular h head) (\<lambda>s.
     c_bind (get_next h head) (\<lambda>n.
     if s \<and> (n \<noteq> entry \<and> head \<noteq> entry) then Inr h
     else if entry = head then INIT_LIST_HEAD h l
     else list_cut_between h l head entry)))"

definition list_splice_between ::
    "'a list_heap \<Rightarrow> 'a ptr \<Rightarrow> 'a ptr \<Rightarrow> 'a ptr \<Rightarrow> 'a list_heap c_result" where
  "list_splice_between h l prev nxt =
     c_bind (get_next h l) (\<lambda>first.
     c_bind (get_prev h l) (\<lambda>last.
     c_bind (set_prev h first prev) (\<lambda>h.
     c_bind (set_next h prev first) (\<lambda>h.
     c_bind (set_next h last nxt) (\<lambda>h.
     set_prev h nxt last)))))"

definition list_splice :: "'a list_heap \<Rightarrow> 'a ptr \<Rightarrow> 'a ptr \<Rightarrow> 'a list_heap c_result" where
  "list_splice h l head =
     c_bind (list_empty h l) (\<lambda>e.
       if \<not> e then c_bind (get_next h head) (\<lambda>n. list_splice_between h l head n) else Inr h)"

definition list_splice_tail :: "'a list_heap \<Rightarrow> 'a ptr \<Rightarrow> 'a ptr \<Rightarrow> 'a list_heap c_result" where
  "list_splice_tail h l head =
     c_bind (list_empty h l) (\<lambda>e.
       if \<not> e then c_bind (get_prev h head) (\<lambda>p. list_splice_between h l p head) else Inr h)"

definition list_splice_init :: "'a list_heap \<Rightarrow> 'a ptr \<Rightarrow> 'a ptr \<Rightarrow> 'a list_heap c_result" where
  "list_splice_init h l head =
     c_bind (list_empty h l) (\<lambda>e.
       if \<not> e then
         c_bind (get_next h head) (\<lambda>n.
         c_bind (list_splice_between h l head n) (\<lambda>h. INIT_LIST_HEAD h l))
       else Inr h)"

definition list_splice_tail_init :: "'a list_heap \<Rightarrow> 'a ptr \<Rightarrow> 'a ptr \<Rightarrow> 'a list_heap c_result" where
  "list_splice_tail_init h l head =
     c_bind (list_empty h l) (\<lambda>e.
       if \<not> e then
         c_bind (get_prev h head) (\<lambda>p.
         c_bind (list_splice_between h l p head) (\<lambda>h. INIT_LIST_HEAD h l))
       else Inr h)"

text \<open>
  The traversals. Following \<open>next\<close> may go round for ever on a damaged list, so the loops are
  partial functions, \<open>None\<close> when they do not end. They give the
  positions a loop visits in a memory that its body leaves alone; the loops with a body are in
  \<open>Kernel_Traversal\<close>.
\<close>

partial_function (option) for_each_from ::
    "'a list_heap \<Rightarrow> 'a ptr \<Rightarrow> 'a ptr \<Rightarrow> 'a ptr list c_result option" where
  "for_each_from h head pos =
     (if pos = head then Some (Inr []) else
      case get_next h pos of
        Inl e \<Rightarrow> Some (Inl e)
      | Inr n \<Rightarrow> Option.bind (for_each_from h head n) (\<lambda>r. Some (c_bind r (\<lambda>ps. Inr (pos # ps)))))"

definition list_for_each :: "'a list_heap \<Rightarrow> 'a ptr \<Rightarrow> 'a ptr list c_result option" where
  "list_for_each h head =
     (case get_next h head of Inl e \<Rightarrow> Some (Inl e) | Inr n \<Rightarrow> for_each_from h head n)"

partial_function (option) for_each_prev_from ::
    "'a list_heap \<Rightarrow> 'a ptr \<Rightarrow> 'a ptr \<Rightarrow> 'a ptr list c_result option" where
  "for_each_prev_from h head pos =
     (if pos = head then Some (Inr []) else
      case get_prev h pos of
        Inl e \<Rightarrow> Some (Inl e)
      | Inr n \<Rightarrow> Option.bind (for_each_prev_from h head n) (\<lambda>r. Some (c_bind r (\<lambda>ps. Inr (pos # ps)))))"

definition list_for_each_prev :: "'a list_heap \<Rightarrow> 'a ptr \<Rightarrow> 'a ptr list c_result option" where
  "list_for_each_prev h head =
     (case get_prev h head of Inl e \<Rightarrow> Some (Inl e) | Inr n \<Rightarrow> for_each_prev_from h head n)"

section \<open>Lists in memory\<close>

definition nx :: "'a list_heap \<Rightarrow> 'a \<Rightarrow> 'a ptr option" where
  "nx h a = map_option lnext (h a)"

definition pv :: "'a list_heap \<Rightarrow> 'a \<Rightarrow> 'a ptr option" where
  "pv h a = map_option lprev (h a)"

text \<open>Consecutive cells point to each other; the list at a head is a ring through the head.\<close>

fun linked :: "'a list_heap \<Rightarrow> 'a list \<Rightarrow> bool" where
  "linked h (a # b # xs) \<longleftrightarrow> nx h a = Some (Ptr b) \<and> pv h b = Some (Ptr a) \<and> linked h (b # xs)"
| "linked h xs \<longleftrightarrow> True"

definition is_list :: "'a list_heap \<Rightarrow> 'a \<Rightarrow> 'a list \<Rightarrow> bool" where
  "is_list h head xs \<longleftrightarrow> distinct (head # xs) \<and> linked h (head # xs @ [head])"

definition upd_next :: "'a list_heap \<Rightarrow> 'a \<Rightarrow> 'a ptr \<Rightarrow> 'a list_heap" where
  "upd_next h a v = h(a \<mapsto> (the (h a))\<lparr>lnext := v\<rparr>)"

definition upd_prev :: "'a list_heap \<Rightarrow> 'a \<Rightarrow> 'a ptr \<Rightarrow> 'a list_heap" where
  "upd_prev h a v = h(a \<mapsto> (the (h a))\<lparr>lprev := v\<rparr>)"

lemma get_next_nx [simp]: "nx h a = Some p \<Longrightarrow> get_next h (Ptr a) = Inr p"
  by (auto simp: nx_def get_next_def deref_def)

lemma get_prev_pv [simp]: "pv h a = Some p \<Longrightarrow> get_prev h (Ptr a) = Inr p"
  by (auto simp: pv_def get_prev_def deref_def)

lemma set_next_dom [simp]: "a \<in> dom h \<Longrightarrow> set_next h (Ptr a) v = Inr (upd_next h a v)"
  by (auto simp: set_next_def deref_def store_def upd_next_def)

lemma set_prev_dom [simp]: "a \<in> dom h \<Longrightarrow> set_prev h (Ptr a) v = Inr (upd_prev h a v)"
  by (auto simp: set_prev_def deref_def store_def upd_prev_def)

lemma bad_pointer_access [simp]:
  "get_next h NULL = Inl Bad_Pointer" "get_prev h NULL = Inl Bad_Pointer"
  "set_next h NULL v = Inl Bad_Pointer" "set_prev h NULL v = Inl Bad_Pointer"
  by (simp_all add: get_next_def get_prev_def set_next_def set_prev_def deref_def)

lemma dom_upd [simp]:
  "dom (upd_next h a v) = insert a (dom h)" "dom (upd_prev h a v) = insert a (dom h)"
  by (simp_all add: upd_next_def upd_prev_def)

lemma nx_upd_next [simp]: "nx (upd_next h a v) b = (if b = a then Some v else nx h b)"
  by (simp add: nx_def upd_next_def)

lemma pv_upd_prev [simp]: "pv (upd_prev h a v) b = (if b = a then Some v else pv h b)"
  by (simp add: pv_def upd_prev_def)

lemma nx_upd_prev [simp]: "a \<in> dom h \<Longrightarrow> nx (upd_prev h a v) b = nx h b"
  by (auto simp: nx_def upd_prev_def)

lemma pv_upd_next [simp]: "a \<in> dom h \<Longrightarrow> pv (upd_next h a v) b = pv h b"
  by (auto simp: pv_def upd_next_def)

lemma upd_other [simp]:
  "b \<noteq> a \<Longrightarrow> upd_next h a v b = h b" "b \<noteq> a \<Longrightarrow> upd_prev h a v b = h b"
  by (simp_all add: upd_next_def upd_prev_def)

lemma nx_dom: "nx h a = Some p \<Longrightarrow> a \<in> dom h"
  by (auto simp: nx_def)

lemma pv_dom: "pv h a = Some p \<Longrightarrow> a \<in> dom h"
  by (auto simp: pv_def)

lemma linked_append: "linked h (xs @ a # ys) \<longleftrightarrow> linked h (xs @ [a]) \<and> linked h (a # ys)"
proof (induction xs)
  case (Cons x xs)
  then show ?case by (cases xs) auto
qed simp

lemma linked_cong:
  "(\<And>a. a \<in> set (butlast xs) \<Longrightarrow> nx h' a = nx h a) \<Longrightarrow> (\<And>a. a \<in> set (tl xs) \<Longrightarrow> pv h' a = pv h a) \<Longrightarrow>
     linked h' xs = linked h xs"
proof (induction h xs rule: linked.induct)
  case (1 h a b xs)
  have "linked h' (b # xs) = linked h (b # xs)"
  proof (rule "1.IH")
    show "nx h' c = nx h c" if "c \<in> set (butlast (b # xs))" for c
      using "1.prems"(1) [of c] that by (auto split: if_splits)
    show "pv h' c = pv h c" if "c \<in> set (tl (b # xs))" for c
      using "1.prems"(2) [of c] that by simp
  qed
  with "1.prems"(1) [of a] "1.prems"(2) [of b] show ?case by simp
qed auto

lemma linked_dom: "linked h (a # xs @ [b]) \<Longrightarrow> insert a (insert b (set xs)) \<subseteq> dom h"
proof (induction xs arbitrary: a)
  case (Cons x xs)
  then have "nx h a = Some (Ptr x)" and "linked h (x # xs @ [b])" by simp_all
  with Cons.IH [of x] nx_dom [of h a] show ?case by auto
qed (auto dest: nx_dom pv_dom)

lemma is_list_dom: "is_list h head xs \<Longrightarrow> set (head # xs) \<subseteq> dom h"
  unfolding is_list_def using linked_dom [of h head xs head] by auto

lemma is_list_cong:
  assumes "\<And>a. a \<in> set (head # xs) \<Longrightarrow> h' a = h a"
  shows "is_list h' head xs = is_list h head xs"
  unfolding is_list_def
  by (intro conj_cong refl linked_cong)
    (use assms in \<open>auto simp: nx_def pv_def butlast_append split: if_splits dest: in_set_butlastD\<close>)

text \<open>Every cell of the ring can serve as its head.\<close>

lemma is_list_rotate: "is_list h head (xs @ y # ys) \<longleftrightarrow> is_list h y (ys @ head # xs)"
proof -
  have "linked h (head # (xs @ y # ys) @ [head]) \<longleftrightarrow> linked h (head # xs @ [y]) \<and> linked h (y # ys @ [head])"
    using linked_append [of h "head # xs" y "ys @ [head]"] by simp
  moreover have "linked h (y # (ys @ head # xs) @ [y]) \<longleftrightarrow> linked h (y # ys @ [head]) \<and> linked h (head # xs @ [y])"
    using linked_append [of h "y # ys" head "xs @ [y]"] by simp
  ultimately show ?thesis by (auto simp: is_list_def)
qed

lemma is_list_Nil: "is_list h a [] \<longleftrightarrow> nx h a = Some (Ptr a) \<and> pv h a = Some (Ptr a)"
  by (simp add: is_list_def)

lemma is_list_first: "is_list h head xs \<Longrightarrow> nx h head = Some (Ptr (hd (xs @ [head])))"
  by (cases xs) (auto simp: is_list_def)

lemma is_list_last: "is_list h head xs \<Longrightarrow> pv h head = Some (Ptr (last (head # xs)))"
proof (cases xs rule: rev_cases)
  case (snoc ys y)
  moreover assume "is_list h head xs"
  ultimately have "is_list h y (head # ys)" using is_list_rotate [of h head ys y "[]"] by simp
  with snoc show ?thesis by (simp add: is_list_def)
qed (simp add: is_list_Nil)

section \<open>Each operation on the list it is given\<close>

text \<open>No cell appears or disappears, and the cells outside a set are as before.\<close>

definition only_changes :: "'a set \<Rightarrow> 'a list_heap \<Rightarrow> 'a list_heap \<Rightarrow> bool" where
  "only_changes A h h' \<longleftrightarrow> dom h' = dom h \<and> (\<forall>a. a \<notin> A \<longrightarrow> h' a = h a)"

lemma only_changes_refl [simp]: "only_changes A h h"
  by (simp add: only_changes_def)

lemma only_changes_trans: "only_changes A h h1 \<Longrightarrow> only_changes A h1 h2 \<Longrightarrow> only_changes A h h2"
  by (simp add: only_changes_def)

lemma only_changes_mono: "only_changes A h h' \<Longrightarrow> A \<subseteq> B \<Longrightarrow> only_changes B h h'"
  by (auto simp: only_changes_def)

lemma only_changes_upd [simp]:
  "a \<in> A \<Longrightarrow> a \<in> dom h' \<Longrightarrow> only_changes A h (upd_next h' a v) \<longleftrightarrow> only_changes A h h'"
  "a \<in> A \<Longrightarrow> a \<in> dom h' \<Longrightarrow> only_changes A h (upd_prev h' a v) \<longleftrightarrow> only_changes A h h'"
  by (auto simp: only_changes_def upd_next_def upd_prev_def dom_def)

lemma only_changes_dom: "only_changes A h h' \<Longrightarrow> dom h' = dom h"
  by (simp add: only_changes_def)

lemma only_changes_list:
  "only_changes A h h' \<Longrightarrow> A \<inter> set (head # xs) = {} \<Longrightarrow> is_list h' head xs = is_list h head xs"
  by (rule is_list_cong) (auto simp: only_changes_def)

lemma INIT_LIST_HEAD_ok:
  "a \<in> dom h \<Longrightarrow> \<exists>h'. INIT_LIST_HEAD h (Ptr a) = Inr h' \<and> is_list h' a [] \<and> only_changes {a} h h'"
  by (simp add: INIT_LIST_HEAD_def is_list_Nil insert_absorb)

lemma list_add_between_ok:
  assumes L: "is_list h p xs" and n: "n \<in> dom h" "n \<notin> set (p # xs)"
  shows "\<exists>h'. list_add_between h (Ptr n) (Ptr p) (Ptr (hd (xs @ [p]))) = Inr h' \<and> is_list h' p (n # xs)
     \<and> only_changes (set (p # n # xs)) h h'"
proof -
  obtain z zs where z: "xs @ [p] = z # zs" by (cases "xs @ [p]") auto
  then have lnk: "linked h (p # z # zs)" using L by (simp add: is_list_def)
  have z_set: "z \<in> set (p # xs)" "set zs \<subseteq> set (p # xs)"
    using arg_cong [OF z, of set] by auto
  have dom: "p \<in> dom h" "z \<in> dom h" using is_list_dom [OF L] z_set by auto
  let ?h = "upd_next (upd_prev (upd_next (upd_prev h z (Ptr n)) n (Ptr z)) n (Ptr p)) p (Ptr n)"
  have "distinct (z # butlast zs)" "z \<notin> set zs" "p \<notin> set (butlast (z # zs))"
    using L z by (cases xs; auto simp: is_list_def)+
  then have "linked ?h (z # zs) = linked h (z # zs)"
    by (intro linked_cong) (use n dom z_set in \<open>auto dest: in_set_butlastD split: if_splits\<close>)
  moreover have "n \<noteq> z" "n \<noteq> p" using n z_set by auto
  ultimately have "linked ?h (p # n # z # zs)" using lnk dom n by simp
  then have "is_list ?h p (n # xs)" using L n z by (auto simp: is_list_def)
  moreover have "list_add_between h (Ptr n) (Ptr p) (Ptr z) = Inr ?h"
    using dom n by (simp add: list_add_between_def)
  moreover have "only_changes (set (p # n # xs)) h ?h"
  proof -
    have "z \<in> set (p # n # xs)" using z_set(1) by auto
    with dom n show ?thesis by simp
  qed
  ultimately show ?thesis using z by (metis list.sel(1))
qed

lemma list_add_ok:
  assumes "is_list h head xs" "n \<in> dom h" "n \<notin> set (head # xs)"
  shows "\<exists>h'. list_add h (Ptr n) (Ptr head) = Inr h' \<and> is_list h' head (n # xs)
     \<and> only_changes (set (head # n # xs)) h h'"
  using list_add_between_ok [OF assms] is_list_first [OF assms(1)] by (simp add: list_add_def)

text \<open>Adding before the head is adding after the last cell of the ring.\<close>

lemma list_add_tail_ok:
  assumes L: "is_list h head xs" and n: "n \<in> dom h" "n \<notin> set (head # xs)"
  shows "\<exists>h'. list_add_tail h (Ptr n) (Ptr head) = Inr h' \<and> is_list h' head (xs @ [n])
     \<and> only_changes (set (head # n # xs)) h h'"
proof (cases xs rule: rev_cases)
  case Nil
  with L list_add_between_ok [OF L n] show ?thesis
    by (simp add: list_add_tail_def is_list_Nil)
next
  case (snoc ys y)
  with L have R: "is_list h y (head # ys)" using is_list_rotate [of h head ys y "[]"] by simp
  from n snoc have "n \<notin> set (y # head # ys)" by auto
  from list_add_between_ok [OF R n(1) this] obtain h' where
    h': "list_add_between h (Ptr n) (Ptr y) (Ptr head) = Inr h'" "is_list h' y (n # head # ys)"
      "only_changes (set (y # n # head # ys)) h h'" by auto
  have "is_list h' head (ys @ y # [n])"
    using h'(2) is_list_rotate [of h' head ys y "[n]"] by simp
  moreover have "pv h head = Some (Ptr y)" using is_list_last [OF L] snoc by simp
  ultimately show ?thesis using h' snoc by (simp add: list_add_tail_def insert_commute)
qed

text \<open>Deletion: the rest of the ring of a cell closes up.\<close>

lemma list_del_between_ok:
  assumes L: "is_list h e (z # zs)"
  shows "\<exists>h'. list_del_between h (Ptr (last (z # zs))) (Ptr z) = Inr h' \<and> is_list h' z zs
     \<and> only_changes (set (z # zs)) h h'"
proof -
  define y where "y = last (z # zs)"
  have y: "y \<in> set (z # zs)" unfolding y_def by (rule last_in_set) simp
  have dom: "y \<in> dom h" "z \<in> dom h" using is_list_dom [OF L] y by auto
  have d: "distinct (z # zs)" and lnk: "linked h (z # zs @ [e])" using L by (auto simp: is_list_def)
  have zs: "z # zs = butlast (z # zs) @ [y]" by (simp add: y_def)
  let ?h = "upd_next (upd_prev h z (Ptr y)) y (Ptr z)"
  have "linked h (z # zs)"
    using linked_append [of h "butlast (z # zs)" y "[e]"] lnk zs by (metis append.assoc append_Cons append_Nil)
  moreover have "linked ?h (z # zs) = linked h (z # zs)"
  proof (rule linked_cong)
    have "distinct (butlast (z # zs) @ [y])" using d zs by metis
    then show "nx ?h a = nx h a" if "a \<in> set (butlast (z # zs))" for a
      using that dom by (auto simp del: butlast.simps)
    show "pv ?h a = pv h a" if "a \<in> set (tl (z # zs))" for a
      using that d dom by auto
  qed
  ultimately have "linked ?h (butlast (z # zs) @ [y])" using zs by metis
  then have "linked ?h (butlast (z # zs) @ y # [z])"
    using linked_append [of ?h "butlast (z # zs)" y "[z]"] dom by simp
  then have "linked ?h (z # zs @ [z])" using zs by (metis append.assoc append_Cons append_Nil)
  with d have "is_list ?h z zs" by (simp add: is_list_def)
  moreover have "list_del_between h (Ptr y) (Ptr z) = Inr ?h"
    using dom by (simp add: list_del_between_def)
  moreover have "only_changes (set (z # zs)) h ?h" using dom y by simp
  ultimately show ?thesis by (auto simp: y_def)
qed

lemma list_del_entry_ok:
  assumes L: "is_list h head (xs @ e # ys)"
  shows "\<exists>h'. list_del_entry h (Ptr e) = Inr h' \<and> is_list h' head (xs @ ys)
     \<and> only_changes (set (head # xs @ ys)) h h'"
proof -
  have R: "is_list h e (ys @ head # xs)" using L is_list_rotate [of h head xs e ys] by simp
  obtain z zs where z: "ys @ head # xs = z # zs" by (cases "ys @ head # xs") auto
  have set_z: "set (z # zs) = set (head # xs @ ys)" using arg_cong [OF z, of set] by auto
  from list_del_between_ok [OF R [unfolded z]] obtain h' where
    h': "list_del_between h (Ptr (last (z # zs))) (Ptr z) = Inr h'" "is_list h' z zs"
      "only_changes (set (z # zs)) h h'" by blast
  have "is_list h' head (xs @ ys)"
  proof (cases ys)
    case Nil
    with z h'(2) show ?thesis by simp
  next
    case (Cons w ws)
    with z have "z = w" "zs = ws @ head # xs" by simp_all
    with h'(2) Cons show ?thesis using is_list_rotate [of h' head xs w ws] by simp
  qed
  moreover have "list_del_entry h (Ptr e) = Inr h'" if "nx h e = Some (Ptr z)" "pv h e = Some (Ptr (last (z # zs)))"
    using that h'(1) by (simp add: list_del_entry_def)
  moreover have "nx h e = Some (Ptr z)" "pv h e = Some (Ptr (last (z # zs)))"
    using is_list_first [OF R [unfolded z]] is_list_last [OF R [unfolded z]] by simp_all
  ultimately show ?thesis using h'(3) [unfolded set_z] by blast
qed

lemma list_del_ok:
  assumes L: "is_list h head (xs @ e # ys)"
  shows "\<exists>h'. list_del h (Ptr e) = Inr h' \<and> is_list h' head (xs @ ys) \<and> e \<in> dom h'
     \<and> only_changes (set (head # xs @ e # ys)) h h'"
proof -
  obtain h1 where h1: "list_del_entry h (Ptr e) = Inr h1" "is_list h1 head (xs @ ys)"
    "only_changes (set (head # xs @ ys)) h h1" using list_del_entry_ok [OF L] by blast
  have e: "e \<in> dom h1" "e \<notin> set (head # xs @ ys)"
    using is_list_dom [OF L] only_changes_dom [OF h1(3)] L by (auto simp: is_list_def)
  let ?h = "upd_prev (upd_next h1 e LIST_POISON1) e LIST_POISON2"
  have "list_del h (Ptr e) = c_bind (list_del_entry h (Ptr e)) (\<lambda>h.
      c_bind (set_next h (Ptr e) LIST_POISON1) (\<lambda>h. set_prev h (Ptr e) LIST_POISON2))"
    by (simp add: list_del_def list_del_entry_def c_bind_def split: sum.splits)
  with h1 e have "list_del h (Ptr e) = Inr ?h" by simp
  moreover have "is_list ?h head (xs @ ys)"
    using only_changes_list [of "{e}" h1 ?h head "xs @ ys"] h1(2) e by auto
  moreover have "only_changes (set (head # xs @ e # ys)) h ?h"
    using only_changes_mono [OF h1(3), of "set (head # xs @ e # ys)"] e by auto
  ultimately show ?thesis using e by auto
qed

text \<open>A segment between two cells, by its ends; inside, only the outer pointers may change.\<close>

lemma linked_Cons:
  "xs \<noteq> [] \<Longrightarrow> linked h (a # xs) \<longleftrightarrow> nx h a = Some (Ptr (hd xs)) \<and> pv h (hd xs) = Some (Ptr a) \<and> linked h xs"
  by (cases xs) auto

lemma linked_snoc:
  "xs \<noteq> [] \<Longrightarrow> linked h (xs @ [b]) \<longleftrightarrow> linked h xs \<and> nx h (last xs) = Some (Ptr b) \<and> pv h b = Some (Ptr (last xs))"
  by (cases xs rule: rev_cases) (auto simp: linked_append [of h _ _ "[b]"])

lemma linked_ends:
  "zs \<noteq> [] \<Longrightarrow> linked h (a # zs @ [b]) \<longleftrightarrow>
     nx h a = Some (Ptr (hd zs)) \<and> pv h (hd zs) = Some (Ptr a) \<and> linked h zs \<and>
     nx h (last zs) = Some (Ptr b) \<and> pv h b = Some (Ptr (last zs))"
  by (simp add: linked_Cons linked_snoc hd_append)

lemma linked_inner:
  assumes d: "distinct zs" and n: "\<And>a. a \<in> set zs \<Longrightarrow> a \<noteq> last zs \<Longrightarrow> nx h' a = nx h a"
    and p: "\<And>a. a \<in> set zs \<Longrightarrow> a \<noteq> hd zs \<Longrightarrow> pv h' a = pv h a"
  shows "linked h' zs = linked h zs"
proof (cases "zs = []")
  case False
  have b: "distinct (butlast zs @ [last zs])" and t: "distinct (hd zs # tl zs)" using d False by simp_all
  show ?thesis
  proof (rule linked_cong)
    show "nx h' a = nx h a" if "a \<in> set (butlast zs)" for a
      using that b n [OF in_set_butlastD [OF that]] by auto
    show "pv h' a = pv h a" if "a \<in> set (tl zs)" for a
      using that t p [OF list.set_sel(2) [OF False that]] by auto
  qed
qed simp

lemma list_del_init_ok:
  assumes L: "is_list h head (xs @ e # ys)"
  shows "\<exists>h'. list_del_init h (Ptr e) = Inr h' \<and> is_list h' head (xs @ ys) \<and> is_list h' e []
     \<and> only_changes (set (head # xs @ e # ys)) h h'"
proof -
  obtain h1 where h1: "list_del_entry h (Ptr e) = Inr h1" "is_list h1 head (xs @ ys)"
    "only_changes (set (head # xs @ ys)) h h1" using list_del_entry_ok [OF L] by blast
  have e: "e \<in> dom h1" "e \<notin> set (head # xs @ ys)"
    using is_list_dom [OF L] only_changes_dom [OF h1(3)] L by (auto simp: is_list_def)
  obtain h2 where h2: "INIT_LIST_HEAD h1 (Ptr e) = Inr h2" "is_list h2 e []" "only_changes {e} h1 h2"
    using INIT_LIST_HEAD_ok [OF e(1)] by blast
  have "only_changes (set (head # xs @ e # ys)) h h2"
    by (rule only_changes_trans [OF only_changes_mono [OF h1(3)] only_changes_mono [OF h2(3)]]) auto
  moreover have "is_list h2 head (xs @ ys)" using only_changes_list [OF h2(3)] e(2) h1(2) by auto
  ultimately show ?thesis using h1 h2 by (simp add: list_del_init_def)
qed

lemma list_move_ok:
  assumes L: "is_list h head (xs @ e # ys)"
  shows "\<exists>h'. list_move h (Ptr e) (Ptr head) = Inr h' \<and> is_list h' head (e # xs @ ys)
       \<and> only_changes (set (head # xs @ e # ys)) h h'"
    and "\<exists>h'. list_move_tail h (Ptr e) (Ptr head) = Inr h' \<and> is_list h' head (xs @ ys @ [e])
       \<and> only_changes (set (head # xs @ e # ys)) h h'"
proof -
  obtain h1 where h1: "list_del_entry h (Ptr e) = Inr h1" "is_list h1 head (xs @ ys)"
    "only_changes (set (head # xs @ ys)) h h1" using list_del_entry_ok [OF L] by blast
  have e: "e \<in> dom h1" "e \<notin> set (head # xs @ ys)"
    using is_list_dom [OF L] only_changes_dom [OF h1(3)] L by (auto simp: is_list_def)
  have A: "set (head # xs @ ys) \<subseteq> set (head # xs @ e # ys)" "set (head # e # xs @ ys) = set (head # xs @ e # ys)"
    by auto
  note c = only_changes_trans [OF only_changes_mono [OF h1(3) A(1)]]
  show "\<exists>h'. list_move h (Ptr e) (Ptr head) = Inr h' \<and> is_list h' head (e # xs @ ys)
       \<and> only_changes (set (head # xs @ e # ys)) h h'"
    using list_add_ok [OF h1(2) e] c h1(1) unfolding A(2) list_move_def by auto
  show "\<exists>h'. list_move_tail h (Ptr e) (Ptr head) = Inr h' \<and> is_list h' head (xs @ ys @ [e])
       \<and> only_changes (set (head # xs @ e # ys)) h h'"
    using list_add_tail_ok [OF h1(2) e] c h1(1) unfolding A(2) list_move_tail_def by auto
qed

lemma list_tests:
  assumes "is_list h head xs"
  shows "list_empty h (Ptr head) = Inr (xs = [])"
    and "list_empty_careful h (Ptr head) = Inr (xs = [])"
    and "list_is_singular h (Ptr head) = Inr (length xs = 1)"
    and "e \<in> set xs \<Longrightarrow> list_is_last h (Ptr e) (Ptr head) = Inr (e = last xs)"
proof -
  note first = is_list_first [OF assms] and last = is_list_last [OF assms]
  have d: "distinct (head # xs)" using assms by (simp add: is_list_def)
  show emp: "list_empty h (Ptr head) = Inr (xs = [])"
    using first d by (cases xs) (auto simp: list_empty_def)
  show "list_empty_careful h (Ptr head) = Inr (xs = [])"
    using first last d by (cases xs) (auto simp: list_empty_careful_def)
  show "list_is_singular h (Ptr head) = Inr (length xs = 1)"
  proof (cases xs)
    case (Cons y ys)
    then have "y = last xs \<longleftrightarrow> ys = []" using d by (cases ys rule: rev_cases) auto
    with Cons emp first last show ?thesis by (auto simp: list_is_singular_def)
  qed (use emp in \<open>simp add: list_is_singular_def\<close>)
  show "list_is_last h (Ptr e) (Ptr head) = Inr (e = last xs)" if e: "e \<in> set xs"
  proof -
    obtain ys zs where xs: "xs = ys @ e # zs" using split_list [OF e] by blast
    with assms have R: "is_list h e (zs @ head # ys)" using is_list_rotate [of h head ys e zs] by simp
    have "nx h e = Some (Ptr (hd (zs @ [head])))" using is_list_first [OF R] by (cases zs) auto
    moreover have "hd (zs @ [head]) = head \<longleftrightarrow> e = last xs"
      using d xs hd_in_set [of zs] last_in_set [of zs] by (cases "zs = []") (auto simp: hd_append)
    ultimately show ?thesis by (simp add: list_is_last_def)
  qed
qed

lemma list_rotate_left_ok:
  assumes L: "is_list h head xs"
  shows "\<exists>h'. list_rotate_left h (Ptr head) = Inr h' \<and> is_list h' head (rotate1 xs)
     \<and> only_changes (set (head # xs)) h h'"
proof (cases xs)
  case (Cons y ys)
  then show ?thesis
    using list_move_ok(2) [of h head "[]" y ys] L list_tests(1) [OF L] is_list_first [OF L]
    by (auto simp: list_rotate_left_def)
qed (use L list_tests(1) [OF L] in \<open>simp add: list_rotate_left_def\<close>)

text \<open>Replacing a cell by a fresh one; for the head of an empty list this makes the new one empty.\<close>

lemma list_replace_head_ok:
  assumes L: "is_list h old zs" and n: "new \<in> dom h" "new \<notin> set (old # zs)"
  shows "\<exists>h'. list_replace h (Ptr old) (Ptr new) = Inr h' \<and> is_list h' new zs
     \<and> only_changes (set (old # new # zs)) h h'"
proof (cases "zs = []")
  case True
  with L n nx_dom [of h old] show ?thesis
    by (auto simp: list_replace_def is_list_Nil insert_absorb)
next
  case False
  note ends = linked_ends [OF False]
  have d: "distinct (old # zs)" and lnk: "linked h (old # zs @ [old])"
    using L by (auto simp: is_list_def)
  have in_zs: "hd zs \<in> set zs" "last zs \<in> set zs" using False by simp_all
  have dom: "old \<in> dom h" "hd zs \<in> dom h" "last zs \<in> dom h"
    using is_list_dom [OF L] in_zs by auto
  have neq: "hd zs \<noteq> old" "last zs \<noteq> old" "hd zs \<noteq> new" "last zs \<noteq> new" "new \<noteq> old" "old \<noteq> hd zs"
    using d n in_zs by auto
  let ?h = "upd_next (upd_prev (upd_prev (upd_next h new (Ptr (hd zs))) (hd zs) (Ptr new)) new (Ptr (last zs)))
     (last zs) (Ptr new)"
  have "linked ?h zs = linked h zs"
    by (rule linked_inner) (use d n dom in auto)
  with lnk dom neq n have "is_list ?h new zs"
    using d by (auto simp: is_list_def ends)
  moreover have "list_replace h (Ptr old) (Ptr new) = Inr ?h"
    using lnk dom neq n by (simp add: list_replace_def ends)
  moreover have "only_changes (set (old # new # zs)) h ?h"
    using dom n in_zs by simp
  ultimately show ?thesis by blast
qed

lemma list_replace_ok:
  assumes L: "is_list h head (xs @ old # ys)" and n: "new \<in> dom h" "new \<notin> set (head # xs @ old # ys)"
  shows "\<exists>h'. list_replace h (Ptr old) (Ptr new) = Inr h' \<and> is_list h' head (xs @ new # ys)
     \<and> only_changes (set (head # new # xs @ old # ys)) h h'"
proof -
  have "is_list h old (ys @ head # xs)" using L is_list_rotate [of h head xs old ys] by simp
  from list_replace_head_ok [OF this n(1)] n(2) obtain h' where
    h': "list_replace h (Ptr old) (Ptr new) = Inr h'" "is_list h' new (ys @ head # xs)"
      "only_changes (set (old # new # ys @ head # xs)) h h'" by auto
  moreover have "set (old # new # ys @ head # xs) = set (head # new # xs @ old # ys)" by auto
  ultimately show ?thesis using is_list_rotate [of h' head xs new ys] by metis
qed

lemma list_replace_init_ok:
  assumes L: "is_list h head (xs @ old # ys)" and n: "new \<in> dom h" "new \<notin> set (head # xs @ old # ys)"
  shows "\<exists>h'. list_replace_init h (Ptr old) (Ptr new) = Inr h' \<and> is_list h' head (xs @ new # ys)
     \<and> is_list h' old [] \<and> only_changes (set (head # new # xs @ old # ys)) h h'"
proof -
  obtain h1 where h1: "list_replace h (Ptr old) (Ptr new) = Inr h1" "is_list h1 head (xs @ new # ys)"
      "only_changes (set (head # new # xs @ old # ys)) h h1" using list_replace_ok [OF assms] by blast
  have old: "old \<in> dom h1" "old \<notin> set (head # xs @ new # ys)"
    using is_list_dom [OF L] only_changes_dom [OF h1(3)] L n by (auto simp: is_list_def)
  obtain h2 where h2: "INIT_LIST_HEAD h1 (Ptr old) = Inr h2" "is_list h2 old []" "only_changes {old} h1 h2"
    using INIT_LIST_HEAD_ok [OF old(1)] by blast
  have "only_changes (set (head # new # xs @ old # ys)) h h2"
    using only_changes_trans [OF h1(3) only_changes_mono [OF h2(3)]] by simp
  moreover have "is_list h2 head (xs @ new # ys)"
    using only_changes_list [OF h2(3)] old(2) h1(2) by auto
  ultimately show ?thesis using h1 h2 by (simp add: list_replace_init_def)
qed

text \<open>Splicing a list in after a cell of a ring, and cutting one in two.\<close>

lemma list_splice_between_ok:
  assumes L1: "is_list h l ls" and ne: "ls \<noteq> []" and L2: "is_list h p xs"
    and disj: "set (l # ls) \<inter> set (p # xs) = {}"
  shows "\<exists>h'. list_splice_between h (Ptr l) (Ptr p) (Ptr (hd (xs @ [p]))) = Inr h'
     \<and> is_list h' p (ls @ xs) \<and> only_changes (set (p # ls @ xs)) h h'"
proof -
  obtain q qs where q: "xs @ [p] = q # qs" by (cases "xs @ [p]") auto
  note ends = linked_ends [OF ne]
  have d1: "distinct (l # ls)" and k1: "linked h (l # ls @ [l])" using L1 by (auto simp: is_list_def)
  have d2: "distinct (p # xs)" and k2: "linked h (p # q # qs)" using L2 q by (auto simp: is_list_def)
  have in_set: "hd ls \<in> set ls" "last ls \<in> set ls" "q \<in> set (p # xs)" "set qs \<subseteq> set (p # xs)"
    using ne arg_cong [OF q, of set] by auto
  have dom: "p \<in> dom h" "q \<in> dom h" "hd ls \<in> dom h" "last ls \<in> dom h" "l \<in> dom h"
    using is_list_dom [OF L1] is_list_dom [OF L2] in_set by auto
  have out: "hd ls \<notin> set (p # xs)" "last ls \<notin> set (p # xs)" "p \<notin> set ls" "q \<notin> set ls"
    using disj in_set by auto
  have neq: "hd ls \<noteq> p" "last ls \<noteq> p" "hd ls \<noteq> q" "last ls \<noteq> q" using out in_set by auto
  define g where "g = upd_prev (upd_next (upd_next (upd_prev h (hd ls) (Ptr p)) p (Ptr (hd ls))) (last ls) (Ptr q))
     q (Ptr (last ls))"
  have splice: "list_splice_between h (Ptr l) (Ptr p) (Ptr q) = Inr g"
    using k1 dom by (simp add: list_splice_between_def ends g_def)
  have nx_g: "nx g a = (if a = last ls then Some (Ptr q) else if a = p then Some (Ptr (hd ls)) else nx h a)" for a
    using dom by (simp add: g_def)
  have pv_g: "pv g a = (if a = q then Some (Ptr (last ls)) else if a = hd ls then Some (Ptr p) else pv h a)" for a
    using dom by (simp add: g_def)
  have frame: "only_changes A h g" if "p \<in> A" "q \<in> A" "hd ls \<in> A" "last ls \<in> A" for A
    using that dom by (simp add: g_def)
  have "linked g ls = linked h ls"
    by (rule linked_inner) (use d1 out in \<open>auto simp: nx_g pv_g\<close>)
  then have "linked g (p # ls @ [q])" using k1 neq by (simp add: ends nx_g pv_g)
  moreover have "linked g (q # qs) = linked h (q # qs)"
  proof (rule linked_cong)
    have "p \<notin> set (butlast (q # qs))" using d2 q by (metis butlast_snoc distinct.simps(2))
    then show "nx g a = nx h a" if "a \<in> set (butlast (q # qs))" for a
      using that in_set(3,4) out(2) in_set_butlastD [OF that] by (auto simp: nx_g simp del: butlast.simps)
    have "q \<notin> set qs" using d2 q by (cases xs) auto
    then show "pv g a = pv h a" if "a \<in> set (tl (q # qs))" for a
      using that in_set(4) out(1) by (auto simp: pv_g)
  qed
  ultimately have "linked g (p # (ls @ xs) @ [p])"
    using linked_append [of g "p # ls" q qs] k2 q by simp
  then have "is_list g p (ls @ xs)" using d1 d2 disj by (auto simp: is_list_def)
  moreover have "only_changes (set (p # ls @ xs)) h g"
    by (rule frame) (use in_set in auto)
  ultimately show ?thesis using splice q by (metis list.sel(1))
qed

lemma list_splice_ok:
  assumes L1: "is_list h l ls" and L2: "is_list h head xs" and disj: "set (l # ls) \<inter> set (head # xs) = {}"
  shows "\<exists>h'. list_splice h (Ptr l) (Ptr head) = Inr h' \<and> is_list h' head (ls @ xs)
     \<and> only_changes (set (head # ls @ xs)) h h'"
proof (cases "ls = []")
  case True
  with L2 list_tests(1) [OF L1] show ?thesis by (simp add: list_splice_def)
next
  case False
  with list_splice_between_ok [OF L1 False L2 disj] list_tests(1) [OF L1] is_list_first [OF L2]
  show ?thesis by (simp add: list_splice_def)
qed

lemma list_splice_tail_ok:
  assumes L1: "is_list h l ls" and L2: "is_list h head xs" and disj: "set (l # ls) \<inter> set (head # xs) = {}"
  shows "\<exists>h'. list_splice_tail h (Ptr l) (Ptr head) = Inr h' \<and> is_list h' head (xs @ ls)
     \<and> only_changes (set (head # ls @ xs)) h h'"
proof (cases "ls = []")
  case True
  with L2 list_tests(1) [OF L1] show ?thesis by (simp add: list_splice_tail_def)
next
  case False
  show ?thesis
  proof (cases xs rule: rev_cases)
    case Nil
    with list_splice_between_ok [OF L1 False L2 disj] list_tests(1) [OF L1] False L2 show ?thesis
      by (simp add: list_splice_tail_def is_list_Nil)
  next
    case (snoc ys y)
    with L2 have R: "is_list h y (head # ys)" using is_list_rotate [of h head ys y "[]"] by simp
    from disj snoc have "set (l # ls) \<inter> set (y # head # ys) = {}" by auto
    from list_splice_between_ok [OF L1 False R this] obtain h' where
      h': "list_splice_between h (Ptr l) (Ptr y) (Ptr head) = Inr h'" "is_list h' y (ls @ head # ys)"
        "only_changes (set (y # ls @ head # ys)) h h'" by auto
    have "is_list h' head (ys @ y # ls)" using h'(2) is_list_rotate [of h' head ys y ls] by simp
    moreover have "pv h head = Some (Ptr y)" using is_list_last [OF L2] snoc by simp
    moreover have "only_changes (set (head # ls @ xs)) h h'"
      by (rule only_changes_mono [OF h'(3)]) (use snoc in auto)
    ultimately show ?thesis using h'(1) snoc list_tests(1) [OF L1] False by (simp add: list_splice_tail_def)
  qed
qed

lemma splice_then_init:
  assumes "only_changes (set (head # ls @ xs)) h h1" "is_list h1 head ys" "set ys = set (ls @ xs)" "is_list h l ls"
    "set (l # ls) \<inter> set (head # xs) = {}"
  shows "\<exists>h'. INIT_LIST_HEAD h1 (Ptr l) = Inr h' \<and> is_list h' head ys \<and> is_list h' l []
     \<and> only_changes (set (l # head # ls @ xs)) h h'"
proof -
  have l: "l \<in> dom h1" "l \<notin> set (head # ys)"
  proof -
    show "l \<in> dom h1" using is_list_dom [OF assms(4)] by (simp add: only_changes_dom [OF assms(1)])
    have "l \<notin> set (ls @ xs)" "l \<noteq> head" using assms(4,5) by (auto simp: is_list_def)
    then show "l \<notin> set (head # ys)" using assms(3) by simp
  qed
  obtain h2 where h2: "INIT_LIST_HEAD h1 (Ptr l) = Inr h2" "is_list h2 l []" "only_changes {l} h1 h2"
    using INIT_LIST_HEAD_ok [OF l(1)] by blast
  have "is_list h2 head ys" using only_changes_list [OF h2(3), of head ys] l(2) assms(2) by auto
  moreover have "only_changes (set (l # head # ls @ xs)) h h2"
    by (rule only_changes_trans [OF only_changes_mono [OF assms(1)] only_changes_mono [OF h2(3)]]) auto
  ultimately show ?thesis using h2 by blast
qed

lemma list_splice_init_eq:
  "list_empty h l = Inr False \<Longrightarrow> list_splice_init h l head = c_bind (list_splice h l head) (\<lambda>h. INIT_LIST_HEAD h l)"
  "list_empty h l = Inr False \<Longrightarrow>
     list_splice_tail_init h l head = c_bind (list_splice_tail h l head) (\<lambda>h. INIT_LIST_HEAD h l)"
  by (auto simp: list_splice_init_def list_splice_def list_splice_tail_init_def list_splice_tail_def
      c_bind_def split: sum.splits)

lemma list_splice_init_ok:
  assumes L1: "is_list h l ls" and L2: "is_list h head xs" and disj: "set (l # ls) \<inter> set (head # xs) = {}"
  shows "\<exists>h'. list_splice_init h (Ptr l) (Ptr head) = Inr h' \<and> is_list h' head (ls @ xs) \<and> is_list h' l []
       \<and> only_changes (set (l # head # ls @ xs)) h h'"
    and "\<exists>h'. list_splice_tail_init h (Ptr l) (Ptr head) = Inr h' \<and> is_list h' head (xs @ ls) \<and> is_list h' l []
       \<and> only_changes (set (l # head # ls @ xs)) h h'"
proof -
  note emp = list_tests(1) [OF L1]
  show "\<exists>h'. list_splice_init h (Ptr l) (Ptr head) = Inr h' \<and> is_list h' head (ls @ xs) \<and> is_list h' l []
       \<and> only_changes (set (l # head # ls @ xs)) h h'"
  proof (cases "ls = []")
    case True
    then show ?thesis using L1 L2 emp by (simp add: list_splice_init_def)
  next
    case False
    with emp have E: "list_empty h (Ptr l) = Inr False" by simp
    obtain h1 where h1: "list_splice h (Ptr l) (Ptr head) = Inr h1" "is_list h1 head (ls @ xs)"
      "only_changes (set (head # ls @ xs)) h h1" using list_splice_ok [OF assms] by blast
    with splice_then_init [OF h1(3,2) _ L1 disj] list_splice_init_eq(1) [OF E] show ?thesis by simp
  qed
  show "\<exists>h'. list_splice_tail_init h (Ptr l) (Ptr head) = Inr h' \<and> is_list h' head (xs @ ls) \<and> is_list h' l []
       \<and> only_changes (set (l # head # ls @ xs)) h h'"
  proof (cases "ls = []")
    case True
    then show ?thesis using L1 L2 emp by (simp add: list_splice_tail_init_def)
  next
    case False
    with emp have E: "list_empty h (Ptr l) = Inr False" by simp
    obtain h1 where h1: "list_splice_tail h (Ptr l) (Ptr head) = Inr h1" "is_list h1 head (xs @ ls)"
      "only_changes (set (head # ls @ xs)) h h1" using list_splice_tail_ok [OF assms] by blast
    with splice_then_init [OF h1(3,2) _ L1 disj] list_splice_init_eq(2) [OF E] show ?thesis
      by (simp add: Un_commute)
  qed
qed

lemma list_cut_between_ok:
  assumes L: "is_list h head (xs @ e # ys)" and l: "l \<in> dom h" "l \<notin> set (head # xs @ e # ys)"
  shows "\<exists>h'. list_cut_between h (Ptr l) (Ptr head) (Ptr e) = Inr h' \<and> is_list h' l (xs @ [e])
     \<and> is_list h' head ys \<and> only_changes (set (l # head # xs @ e # ys)) h h'"
proof -
  define f n where "f = hd (xs @ [e])" and "n = hd (ys @ [head])"
  have d: "distinct (head # xs @ e # ys)" using L by (simp add: is_list_def)
  have f: "f \<in> set (xs @ [e])" unfolding f_def by (rule hd_in_set) simp
  have n: "n \<in> set (ys @ [head])" unfolding n_def by (rule hd_in_set) simp
  have k1: "linked h (head # xs @ [e])" and k2: "linked h (e # ys @ [head])"
    using L linked_append [of h "head # xs" e "ys @ [head]"] by (simp_all add: is_list_def)
  have head: "nx h head = Some (Ptr f)" "linked h (xs @ [e])"
    using k1 linked_Cons [of "xs @ [e]" h head] by (simp_all add: f_def)
  have e: "nx h e = Some (Ptr n)" "linked h (ys @ [head])"
    using k2 linked_Cons [of "ys @ [head]" h e] by (simp_all add: n_def)
  have dom: "head \<in> dom h" "e \<in> dom h" "f \<in> dom h" "n \<in> dom h" using is_list_dom [OF L] f n by auto
  have neq: "l \<noteq> head" "l \<noteq> e" "l \<noteq> f" "l \<noteq> n" "head \<noteq> e" "f \<noteq> n" "f \<noteq> head" "n \<noteq> e" "e \<noteq> head" "f \<noteq> l" "n \<noteq> f"
    using d l f n by auto
  define g where "g = upd_prev (upd_next (upd_next (upd_prev (upd_prev (upd_next h l (Ptr f)) f (Ptr l)) l (Ptr e))
     e (Ptr l)) head (Ptr n)) n (Ptr head)"
  have cut: "list_cut_between h (Ptr l) (Ptr head) (Ptr e) = Inr g"
    using dom neq l head(1) e(1) by (simp add: list_cut_between_def g_def)
  have nx_g: "nx g a = (if a = head then Some (Ptr n) else if a = e then Some (Ptr l)
      else if a = l then Some (Ptr f) else nx h a)" for a
    using dom l by (simp add: g_def)
  have pv_g: "pv g a = (if a = n then Some (Ptr head) else if a = l then Some (Ptr e)
      else if a = f then Some (Ptr l) else pv h a)" for a
    using dom l by (simp add: g_def)
  have frame: "only_changes A h g" if "l \<in> A" "head \<in> A" "e \<in> A" "f \<in> A" "n \<in> A" for A
    using that dom l by (simp add: g_def)
  have "linked g (xs @ [e]) = linked h (xs @ [e])"
  proof (rule linked_inner)
    show "nx g a = nx h a" if "a \<in> set (xs @ [e])" "a \<noteq> last (xs @ [e])" for a
      using that d l(2) by (auto simp: nx_g)
    show "pv g a = pv h a" if "a \<in> set (xs @ [e])" "a \<noteq> hd (xs @ [e])" for a
      using that d l n by (auto simp: pv_g f_def)
  qed (use d in auto)
  then have "linked g (l # (xs @ [e]) @ [l])"
    using neq head(2) by (subst linked_ends) (auto simp: nx_g pv_g f_def [symmetric])
  then have "is_list g l (xs @ [e])" using d l(2) by (auto simp: is_list_def)
  moreover have "linked g (ys @ [head]) = linked h (ys @ [head])"
  proof (rule linked_inner)
    show "nx g a = nx h a" if "a \<in> set (ys @ [head])" "a \<noteq> last (ys @ [head])" for a
      using that d l(2) by (auto simp: nx_g)
    show "pv g a = pv h a" if "a \<in> set (ys @ [head])" "a \<noteq> hd (ys @ [head])" for a
      using that d l f by (auto simp: pv_g n_def)
  qed (use d in auto)
  then have "linked g (head # ys @ [head])"
    using neq e(2) by (subst linked_Cons) (auto simp: nx_g pv_g n_def [symmetric])
  then have "is_list g head ys" using d by (auto simp: is_list_def)
  moreover have "only_changes (set (l # head # xs @ e # ys)) h g"
    by (rule frame) (use f n in auto)
  ultimately show ?thesis using cut by blast
qed

lemma list_cut_position_ok:
  assumes L: "is_list h head (xs @ e # ys)" and l: "l \<in> dom h" "l \<notin> set (head # xs @ e # ys)"
  shows "\<exists>h'. list_cut_position h (Ptr l) (Ptr head) (Ptr e) = Inr h' \<and> is_list h' l (xs @ [e])
     \<and> is_list h' head ys \<and> only_changes (set (l # head # xs @ e # ys)) h h'"
proof -
  have "length (xs @ e # ys) = 1 \<Longrightarrow> hd (xs @ e # ys) = e" by (cases xs) auto
  moreover have "e \<noteq> head" using L by (auto simp: is_list_def)
  moreover have "nx h head = Some (Ptr (hd (xs @ e # ys)))" using is_list_first [OF L] by (simp add: hd_append)
  ultimately have "list_cut_position h (Ptr l) (Ptr head) (Ptr e) = list_cut_between h (Ptr l) (Ptr head) (Ptr e)"
    using list_tests(1,3) [OF L] by (auto simp: list_cut_position_def)
  with list_cut_between_ok [OF assms] show ?thesis by simp
qed

section \<open>Traversals return the list\<close>

lemma for_each_from_ok:
  "linked h (xs @ [head]) \<Longrightarrow> head \<notin> set xs \<Longrightarrow>
     for_each_from h (Ptr head) (Ptr (hd (xs @ [head]))) = Some (Inr (map Ptr xs))"
proof (induction xs)
  case Nil
  show ?case by (subst for_each_from.simps) simp
next
  case (Cons x xs)
  then have "nx h x = Some (Ptr (hd (xs @ [head])))" "linked h (xs @ [head])"
    by (simp_all add: linked_Cons)
  with Cons show ?case by (subst for_each_from.simps) auto
qed

lemma for_each_prev_from_ok:
  "linked h (head # xs) \<Longrightarrow> head \<notin> set xs \<Longrightarrow>
     for_each_prev_from h (Ptr head) (Ptr (last (head # xs))) = Some (Inr (map Ptr (rev xs)))"
proof (induction xs rule: rev_induct)
  case Nil
  show ?case by (subst for_each_prev_from.simps) simp
next
  case (snoc x xs)
  then have "pv h x = Some (Ptr (last (head # xs)))" "linked h (head # xs)"
    using linked_snoc [of "head # xs" h x] by simp_all
  with snoc show ?case by (subst for_each_prev_from.simps) auto
qed

lemma list_for_each_ok: "is_list h head xs \<Longrightarrow> list_for_each h (Ptr head) = Some (Inr (map Ptr xs))"
  using for_each_from_ok [of h xs head] is_list_first [of h head xs]
  by (simp add: is_list_def linked_Cons list_for_each_def)

lemma list_for_each_prev_ok:
  "is_list h head xs \<Longrightarrow> list_for_each_prev h (Ptr head) = Some (Inr (map Ptr (rev xs)))"
  using for_each_prev_from_ok [of h head xs] is_list_last [of h head xs] linked_snoc [of "head # xs" h head]
  by (simp add: is_list_def list_for_each_prev_def)

section \<open>Several lists in one memory\<close>

text \<open>
  The abstract state: an association list from the heads of the lists to their cells. The lists
  share no cell; a cell of the memory in none of them is detached.
\<close>

type_synonym 'a lists = "('a \<times> 'a list) list"

definition cells :: "'a lists \<Rightarrow> 'a list" where
  "cells A = concat (map (\<lambda>(k, xs). k # xs) A)"

definition detached :: "'a set \<Rightarrow> 'a lists \<Rightarrow> 'a \<Rightarrow> bool" where
  "detached U A n \<longleftrightarrow> n \<in> U \<and> n \<notin> set (cells A)"

definition own :: "'a lists \<Rightarrow> 'a \<Rightarrow> 'a set" where
  "own A k = (case map_of A k of None \<Rightarrow> {} | Some xs \<Rightarrow> set (k # xs))"

definition apart :: "'a lists \<Rightarrow> bool" where
  "apart A \<longleftrightarrow> distinct (map fst A) \<and> (\<forall>k l. k \<noteq> l \<longrightarrow> own A k \<inter> own A l = {})"

definition represents :: "'a set \<Rightarrow> 'a list_heap \<Rightarrow> 'a lists \<Rightarrow> bool" where
  "represents U h A \<longleftrightarrow> dom h = U \<and> apart A \<and> (\<forall>k xs. map_of A k = Some xs \<longrightarrow> is_list h k xs)"

text \<open>
  The operations, with the list an entry is on where the C function takes only the entry, and
  what each does to the lists. \<open>None\<close>: outside what the comments in \<open>list.h\<close> ask for.
\<close>

datatype 'a list_op =
    Init 'a | Add 'a 'a | Add_Tail 'a 'a | Del 'a 'a | Del_Init 'a 'a
  | Move 'a 'a 'a | Move_Tail 'a 'a 'a | Rotate_Left 'a | Replace 'a 'a 'a | Replace_Init 'a 'a 'a
  | Splice 'a 'a | Splice_Tail 'a 'a | Splice_Init 'a 'a | Splice_Tail_Init 'a 'a | Cut 'a 'a 'a

fun list_exec :: "'a list_op \<Rightarrow> 'a list_heap \<Rightarrow> 'a list_heap c_result" where
  "list_exec (Init n) h = INIT_LIST_HEAD h (Ptr n)"
| "list_exec (Add n k) h = list_add h (Ptr n) (Ptr k)"
| "list_exec (Add_Tail n k) h = list_add_tail h (Ptr n) (Ptr k)"
| "list_exec (Del e k) h = list_del h (Ptr e)"
| "list_exec (Del_Init e k) h = list_del_init h (Ptr e)"
| "list_exec (Move e k l) h = list_move h (Ptr e) (Ptr l)"
| "list_exec (Move_Tail e k l) h = list_move_tail h (Ptr e) (Ptr l)"
| "list_exec (Rotate_Left k) h = list_rotate_left h (Ptr k)"
| "list_exec (Replace e n k) h = list_replace h (Ptr e) (Ptr n)"
| "list_exec (Replace_Init e n k) h = list_replace_init h (Ptr e) (Ptr n)"
| "list_exec (Splice l k) h = list_splice h (Ptr l) (Ptr k)"
| "list_exec (Splice_Tail l k) h = list_splice_tail h (Ptr l) (Ptr k)"
| "list_exec (Splice_Init l k) h = list_splice_init h (Ptr l) (Ptr k)"
| "list_exec (Splice_Tail_Init l k) h = list_splice_tail_init h (Ptr l) (Ptr k)"
| "list_exec (Cut l k e) h = list_cut_position h (Ptr l) (Ptr k) (Ptr e)"

definition on_list :: "'a lists \<Rightarrow> 'a \<Rightarrow> ('a list \<Rightarrow> 'a lists option) \<Rightarrow> 'a lists option" where
  "on_list A k f = (case map_of A k of None \<Rightarrow> None | Some xs \<Rightarrow> f xs)"

definition spec_add :: "('a \<Rightarrow> 'a list \<Rightarrow> 'a list) \<Rightarrow> 'a set \<Rightarrow> 'a \<Rightarrow> 'a \<Rightarrow> 'a lists \<Rightarrow> 'a lists option" where
  "spec_add put U n k A = on_list A k (\<lambda>xs.
     if detached U A n then Some (AList.update k (put n xs) A) else None)"

definition spec_del :: "'a \<Rightarrow> 'a \<Rightarrow> 'a lists \<Rightarrow> 'a lists option" where
  "spec_del e k A = on_list A k (\<lambda>xs.
     if e \<in> set xs then Some (AList.update k (remove1 e xs) A) else None)"

definition spec_replace :: "'a set \<Rightarrow> 'a \<Rightarrow> 'a \<Rightarrow> 'a \<Rightarrow> 'a lists \<Rightarrow> 'a lists option" where
  "spec_replace U e n k A = on_list A k (\<lambda>xs.
     if e \<in> set xs \<and> detached U A n then Some (AList.update k (map (\<lambda>x. if x = e then n else x) xs) A) else None)"

definition spec_splice :: "('a list \<Rightarrow> 'a list \<Rightarrow> 'a list) \<Rightarrow> 'a \<Rightarrow> 'a \<Rightarrow> 'a lists \<Rightarrow> 'a lists option" where
  "spec_splice join l k A = on_list A l (\<lambda>ls. on_list A k (\<lambda>xs.
     if l \<noteq> k then Some (AList.update l [] (AList.update k (join ls xs) A)) else None))"

definition spec_cut :: "'a set \<Rightarrow> 'a \<Rightarrow> 'a \<Rightarrow> 'a \<Rightarrow> 'a lists \<Rightarrow> 'a lists option" where
  "spec_cut U l k e A = on_list A k (\<lambda>xs.
     if detached U A l \<and> e \<in> set xs
     then Some (AList.update l (takeWhile (\<lambda>x. x \<noteq> e) xs @ [e]) (AList.update k (tl (dropWhile (\<lambda>x. x \<noteq> e) xs)) A))
     else if detached U A l \<and> e = k then Some (if xs = [] then A else AList.update l [] A)
     else None)"

fun list_spec :: "'a set \<Rightarrow> 'a list_op \<Rightarrow> 'a lists \<Rightarrow> 'a lists option" where
  "list_spec U (Init n) A = (if detached U A n then Some (AList.update n [] A) else None)"
| "list_spec U (Add n k) A = spec_add (\<lambda>n xs. n # xs) U n k A"
| "list_spec U (Add_Tail n k) A = spec_add (\<lambda>n xs. xs @ [n]) U n k A"
| "list_spec U (Del e k) A = spec_del e k A"
| "list_spec U (Del_Init e k) A = Option.bind (spec_del e k A) (\<lambda>B. Some (AList.update e [] B))"
| "list_spec U (Move e k l) A = Option.bind (spec_del e k A) (spec_add (\<lambda>n xs. n # xs) U e l)"
| "list_spec U (Move_Tail e k l) A = Option.bind (spec_del e k A) (spec_add (\<lambda>n xs. xs @ [n]) U e l)"
| "list_spec U (Rotate_Left k) A = on_list A k (\<lambda>xs. Some (AList.update k (rotate1 xs) A))"
| "list_spec U (Replace e n k) A = spec_replace U e n k A"
| "list_spec U (Replace_Init e n k) A = Option.bind (spec_replace U e n k A) (\<lambda>B. Some (AList.update e [] B))"
| "list_spec U (Splice l k) A = Option.bind (spec_splice (\<lambda>ls xs. ls @ xs) l k A) (\<lambda>B. Some (AList.delete l B))"
| "list_spec U (Splice_Tail l k) A = Option.bind (spec_splice (\<lambda>ls xs. xs @ ls) l k A) (\<lambda>B. Some (AList.delete l B))"
| "list_spec U (Splice_Init l k) A = spec_splice (\<lambda>ls xs. ls @ xs) l k A"
| "list_spec U (Splice_Tail_Init l k) A = spec_splice (\<lambda>ls xs. xs @ ls) l k A"
| "list_spec U (Cut l k e) A = spec_cut U l k e A"

lemma own_update [simp]: "own (AList.update k xs A) m = (if m = k then set (k # xs) else own A m)"
  by (simp add: own_def update_conv)

lemma own_delete [simp]: "own (AList.delete k A) m = (if m = k then {} else own A m)"
  by (simp add: own_def delete_conv)

lemma own_Some: "map_of A k = Some xs \<Longrightarrow> own A k = set (k # xs)"
  by (simp add: own_def)

lemma cells_own:
  assumes "apart A"
  shows "set (cells A) = (\<Union>k. own A k)"
proof -
  have own: "a \<in> own A k \<longleftrightarrow> (\<exists>xs. map_of A k = Some xs \<and> a \<in> set (k # xs))" for a k
    by (simp add: own_def split: option.split)
  have key: "map_of A k = Some xs \<longleftrightarrow> (k, xs) \<in> set A" for k xs
    using assms map_of_eq_Some_iff unfolding apart_def by metis
  have "a \<in> set (cells A) \<longleftrightarrow> (\<exists>p \<in> set A. a \<in> set (fst p # snd p))" for a
    by (simp add: cells_def case_prod_beta)
  then have "a \<in> set (cells A) \<longleftrightarrow> (\<exists>k xs. (k, xs) \<in> set A \<and> a \<in> set (k # xs))" for a
    by (metis fst_conv snd_conv prod.collapse)
  then show ?thesis unfolding set_eq_iff UN_iff own key by blast
qed

lemma representsD:
  assumes "represents U h A"
  shows "dom h = U" "apart A" "map_of A k = Some xs \<Longrightarrow> is_list h k xs"
    "k \<noteq> l \<Longrightarrow> own A k \<inter> own A l = {}"
  using assms unfolding represents_def apart_def by blast+

lemma detachedD: "represents U h A \<Longrightarrow> detached U A n \<Longrightarrow> n \<in> dom h"
  "represents U h A \<Longrightarrow> detached U A n \<Longrightarrow> n \<notin> own A k"
  by (auto simp: detached_def cells_own [OF representsD(2)] representsD(1))

text \<open>One or two of the lists change; nothing outside them and detached cells is touched.\<close>

lemma represents_update2:
  assumes R: "represents U h A" and ch: "only_changes C h h'"
    and k: "is_list h' k xs" and l: "is_list h' l ys" and kl: "k = l \<Longrightarrow> xs = ys"
      "k \<noteq> l \<Longrightarrow> set (k # xs) \<inter> set (l # ys) = {}"
    and C: "\<And>m. m \<noteq> k \<Longrightarrow> m \<noteq> l \<Longrightarrow> (C \<union> set (k # xs) \<union> set (l # ys)) \<inter> own A m = {}"
  shows "represents U h' (AList.update l ys (AList.update k xs A))"
proof -
  let ?B = "AList.update l ys (AList.update k xs A)"
  have "distinct (map fst ?B)"
    using representsD(2) [OF R] by (simp add: apart_def distinct_update)
  moreover have "own ?B m \<inter> own ?B n = {}" if "m \<noteq> n" for m n
    using that representsD(4) [OF R that] kl C [of m] C [of n] by (simp only: own_update split: if_split) blast
  ultimately have "apart ?B" by (simp add: apart_def)
  moreover have "is_list h' m zs" if m: "map_of ?B m = Some zs" for m zs
  proof (cases "m = k \<or> m = l")
    case True
    with m k l kl(1) show ?thesis by (auto simp: update_conv split: if_splits)
  next
    case False
    with m have A: "map_of A m = Some zs" by (simp add: update_conv)
    with False C [of m] have "C \<inter> set (m # zs) = {}" unfolding own_Some [OF A] by blast
    with only_changes_list [OF ch] representsD(3) [OF R A] show ?thesis by blast
  qed
  ultimately show ?thesis using representsD(1) [OF R] only_changes_dom [OF ch] by (auto simp: represents_def)
qed

lemma represents_update1:
  assumes "represents U h A" "only_changes C h h'" "is_list h' k xs"
    and "\<And>m. m \<noteq> k \<Longrightarrow> (C \<union> set (k # xs)) \<inter> own A m = {}"
  shows "represents U h' (AList.update k xs A)"
proof -
  have "(C \<union> set (k # xs) \<union> set (k # xs)) \<inter> own A m = {}" if "m \<noteq> k" for m
    using assms(4) [OF that] by blast
  with represents_update2 [OF assms(1,2,3,3)] show ?thesis by simp
qed

lemma represents_delete: "represents U h A \<Longrightarrow> represents U h (AList.delete k A)"
  unfolding represents_def apart_def
  by (auto simp: delete_conv distinct_delete)

section \<open>Refinement\<close>

lemma on_list_Some [elim!]:
  assumes "on_list A k f = Some B"
  obtains xs where "map_of A k = Some xs" "f xs = Some B"
  using assms by (auto simp: on_list_def split: option.splits)

lemma Init_impl:
  assumes R: "represents U h A" and n: "detached U A n"
  shows "\<exists>h'. INIT_LIST_HEAD h (Ptr n) = Inr h' \<and> represents U h' (AList.update n [] A)"
proof -
  obtain h' where h': "INIT_LIST_HEAD h (Ptr n) = Inr h'" "is_list h' n []" "only_changes {n} h h'"
    using INIT_LIST_HEAD_ok [OF detachedD(1) [OF R n]] by blast
  with represents_update1 [OF R h'(3,2)] detachedD(2) [OF R n] show ?thesis by simp
qed

lemma spec_add_impl:
  assumes R: "represents U h A" and S: "spec_add put U n k A = Some B"
    and add: "\<And>xs. is_list h k xs \<Longrightarrow> n \<in> dom h \<Longrightarrow> n \<notin> set (k # xs) \<Longrightarrow>
      \<exists>h'. r = Inr h' \<and> is_list h' k (put n xs) \<and> only_changes (set (k # n # xs)) h h'"
    and put: "\<And>xs. set (put n xs) = set (n # xs)"
  shows "\<exists>h'. r = Inr h' \<and> represents U h' B"
proof -
  from S obtain xs where xs: "map_of A k = Some xs" and n: "detached U A n" and B: "B = AList.update k (put n xs) A"
    unfolding spec_add_def by (auto split: if_splits)
  have k: "own A k = set (k # xs)" by (rule own_Some [OF xs])
  from add [OF representsD(3) [OF R xs] detachedD(1) [OF R n]] detachedD(2) [OF R n, of k] obtain h' where
    h': "r = Inr h'" "is_list h' k (put n xs)" "only_changes (set (k # n # xs)) h h'" unfolding k by auto
  have "(set (k # n # xs) \<union> set (k # put n xs)) \<inter> own A m = {}" if "m \<noteq> k" for m
    using representsD(4) [OF R that] detachedD(2) [OF R n, of m] unfolding k by (auto simp: put)
  with represents_update1 [OF R h'(3,2)] h'(1) B show ?thesis by blast
qed

text \<open>Taking an entry off its list leaves it detached.\<close>

lemma spec_del_split:
  assumes R: "represents U h A" and S: "spec_del e k A = Some B"
  obtains xs ys where "is_list h k (xs @ e # ys)" "own A k = set (k # xs @ e # ys)"
    "B = AList.update k (xs @ ys) A" "e \<notin> set (k # xs @ ys)" "\<And>m. m \<noteq> k \<Longrightarrow> e \<notin> own A m"
proof -
  from S obtain zs where zs: "map_of A k = Some zs" "e \<in> set zs" "B = AList.update k (remove1 e zs) A"
    unfolding spec_del_def by (auto split: if_splits)
  from split_list_first [OF zs(2)] obtain xs ys where xs: "zs = xs @ e # ys" "e \<notin> set xs" by blast
  have L: "is_list h k (xs @ e # ys)" using representsD(3) [OF R zs(1)] xs by simp
  have k: "own A k = set (k # xs @ e # ys)" using own_Some [OF zs(1)] xs by simp
  show thesis
  proof (rule that [OF L k])
    show "B = AList.update k (xs @ ys) A" using zs(3) xs by (simp add: remove1_append)
    show "e \<notin> set (k # xs @ ys)" using L by (auto simp: is_list_def)
    show "e \<notin> own A m" if "m \<noteq> k" for m using representsD(4) [OF R that] k by auto
  qed
qed

lemma spec_del_impl:
  assumes R: "represents U h A" and S: "spec_del e k A = Some B"
    and del: "\<And>xs ys. is_list h k (xs @ e # ys) \<Longrightarrow>
      \<exists>h'. r = Inr h' \<and> is_list h' k (xs @ ys) \<and> only_changes (set (k # xs @ e # ys)) h h'"
  shows "\<exists>h'. r = Inr h' \<and> represents U h' B"
proof -
  obtain xs ys where e: "is_list h k (xs @ e # ys)" "own A k = set (k # xs @ e # ys)" "B = AList.update k (xs @ ys) A"
    using spec_del_split [OF R S] by metis
  from del [OF e(1)] obtain h' where
    h': "r = Inr h'" "is_list h' k (xs @ ys)" "only_changes (set (k # xs @ e # ys)) h h'" by blast
  have "(set (k # xs @ e # ys) \<union> set (k # xs @ ys)) \<inter> own A m = {}" if "m \<noteq> k" for m
    using representsD(4) [OF R that] unfolding e(2) by auto
  with represents_update1 [OF R h'(3,2)] h'(1) e(3) show ?thesis by blast
qed

lemma spec_del_detached:
  assumes R: "represents U h A" and S: "spec_del e k A = Some B" and R': "represents U h' B"
  shows "detached U B e"
proof -
  obtain xs ys where e: "is_list h k (xs @ e # ys)" "B = AList.update k (xs @ ys) A" "e \<notin> set (k # xs @ ys)"
      "\<And>m. m \<noteq> k \<Longrightarrow> e \<notin> own A m"
    using spec_del_split [OF R S] by metis
  have "e \<in> U" using is_list_dom [OF e(1)] representsD(1) [OF R] by auto
  moreover have "e \<notin> own B m" for m using e(2-4) by simp
  ultimately show ?thesis by (auto simp: detached_def cells_own [OF representsD(2) [OF R']])
qed

lemma list_del_entry_impl:
  "represents U h A \<Longrightarrow> spec_del e k A = Some B \<Longrightarrow>
     \<exists>h'. list_del_entry h (Ptr e) = Inr h' \<and> represents U h' B"
proof (rule spec_del_impl)
  fix xs ys assume "is_list h k (xs @ e # ys)"
  from list_del_entry_ok [OF this]
  show "\<exists>h'. list_del_entry h (Ptr e) = Inr h' \<and> is_list h' k (xs @ ys) \<and> only_changes (set (k # xs @ e # ys)) h h'"
    by (auto intro: only_changes_mono)
qed

lemma list_add_impl:
  "represents U h A \<Longrightarrow> spec_add (\<lambda>n xs. n # xs) U n k A = Some B \<Longrightarrow>
     \<exists>h'. list_add h (Ptr n) (Ptr k) = Inr h' \<and> represents U h' B"
  by (rule spec_add_impl) (auto dest: list_add_ok)

lemma list_add_tail_impl:
  "represents U h A \<Longrightarrow> spec_add (\<lambda>n xs. xs @ [n]) U n k A = Some B \<Longrightarrow>
     \<exists>h'. list_add_tail h (Ptr n) (Ptr k) = Inr h' \<and> represents U h' B"
  by (rule spec_add_impl) (auto dest: list_add_tail_ok)

lemma list_del_impl:
  "represents U h A \<Longrightarrow> spec_del e k A = Some B \<Longrightarrow> \<exists>h'. list_del h (Ptr e) = Inr h' \<and> represents U h' B"
proof (rule spec_del_impl)
  fix xs ys assume "is_list h k (xs @ e # ys)"
  from list_del_ok [OF this]
  show "\<exists>h'. list_del h (Ptr e) = Inr h' \<and> is_list h' k (xs @ ys) \<and> only_changes (set (k # xs @ e # ys)) h h'"
    by blast
qed

text \<open>An operation that takes the entry off and then does something with the detached entry.\<close>

lemma del_then_impl:
  assumes R: "represents U h A" and S: "Option.bind (spec_del e k A) f = Some B"
    and cont: "\<And>h A. represents U h A \<Longrightarrow> detached U A e \<Longrightarrow> f A = Some B \<Longrightarrow> \<exists>h'. g h = Inr h' \<and> represents U h' B"
  shows "\<exists>h'. c_bind (list_del_entry h (Ptr e)) g = Inr h' \<and> represents U h' B"
proof -
  from S obtain A1 where A1: "spec_del e k A = Some A1" "f A1 = Some B" by (auto simp: bind_eq_Some_conv)
  obtain h1 where h1: "list_del_entry h (Ptr e) = Inr h1" "represents U h1 A1"
    using list_del_entry_impl [OF R A1(1)] by blast
  with cont [OF h1(2) spec_del_detached [OF R A1(1) h1(2)] A1(2)] show ?thesis by simp
qed

lemma list_rotate_left_impl:
  assumes R: "represents U h A" and xs: "map_of A k = Some xs"
  shows "\<exists>h'. list_rotate_left h (Ptr k) = Inr h' \<and> represents U h' (AList.update k (rotate1 xs) A)"
proof -
  obtain h' where h': "list_rotate_left h (Ptr k) = Inr h'" "is_list h' k (rotate1 xs)"
    "only_changes (set (k # xs)) h h'" using list_rotate_left_ok [OF representsD(3) [OF R xs]] by blast
  have "(set (k # xs) \<union> set (k # rotate1 xs)) \<inter> own A m = {}" if "m \<noteq> k" for m
    using representsD(4) [OF R that] unfolding own_Some [OF xs] by auto
  with represents_update1 [OF R h'(3,2)] h'(1) show ?thesis by blast
qed

lemma map_replace: "e \<notin> set xs \<Longrightarrow> map (\<lambda>x. if x = e then n else x) xs = xs"
  by (induction xs) auto

lemma spec_replace_split:
  assumes R: "represents U h A" and S: "spec_replace U e n k A = Some B"
  obtains xs ys where "is_list h k (xs @ e # ys)" "own A k = set (k # xs @ e # ys)"
    "B = AList.update k (xs @ n # ys) A" "n \<in> dom h" "n \<notin> set (k # xs @ e # ys)"
    "\<And>m. m \<noteq> k \<Longrightarrow> set (k # n # xs @ e # ys) \<inter> own A m = {}"
proof -
  from S obtain zs where zs: "map_of A k = Some zs" "e \<in> set zs" and n: "detached U A n"
    and B: "B = AList.update k (map (\<lambda>x. if x = e then n else x) zs) A"
    unfolding spec_replace_def by (auto split: if_splits)
  from split_list [OF zs(2)] obtain xs ys where xs: "zs = xs @ e # ys" by blast
  have L: "is_list h k (xs @ e # ys)" using representsD(3) [OF R zs(1)] xs by simp
  have k: "own A k = set (k # xs @ e # ys)" using own_Some [OF zs(1)] xs by simp
  have "e \<notin> set xs" "e \<notin> set ys" using L by (auto simp: is_list_def)
  with B xs have B': "B = AList.update k (xs @ n # ys) A" by (simp add: map_replace)
  show thesis
  proof (rule that [OF L k B' detachedD(1) [OF R n]])
    show "n \<notin> set (k # xs @ e # ys)" using detachedD(2) [OF R n, of k] k by simp
    show "set (k # n # xs @ e # ys) \<inter> own A m = {}" if "m \<noteq> k" for m
      using representsD(4) [OF R that] detachedD(2) [OF R n, of m] unfolding k by auto
  qed
qed

lemma list_replace_impl:
  assumes R: "represents U h A" and S: "spec_replace U e n k A = Some B"
  shows "\<exists>h'. list_replace h (Ptr e) (Ptr n) = Inr h' \<and> represents U h' B"
    and "\<exists>h'. list_replace_init h (Ptr e) (Ptr n) = Inr h' \<and> represents U h' (AList.update e [] B)"
proof -
  obtain xs ys where L: "is_list h k (xs @ e # ys)" "own A k = set (k # xs @ e # ys)"
    and B: "B = AList.update k (xs @ n # ys) A" and n: "n \<in> dom h" "n \<notin> set (k # xs @ e # ys)"
    and out: "\<And>m. m \<noteq> k \<Longrightarrow> set (k # n # xs @ e # ys) \<inter> own A m = {}"
    using spec_replace_split [OF R S] by metis
  have "(set (k # n # xs @ e # ys) \<union> set (k # xs @ n # ys)) \<inter> own A m = {}" if "m \<noteq> k" for m
    using out [OF that] by auto
  with list_replace_ok [OF L(1) n] represents_update1 [OF R]
  show "\<exists>h'. list_replace h (Ptr e) (Ptr n) = Inr h' \<and> represents U h' B"
    unfolding B by metis
  have e: "e \<noteq> k" "set (k # xs @ n # ys) \<inter> set [e] = {}" using L(1) n(2) by (auto simp: is_list_def)
  have "(set (k # n # xs @ e # ys) \<union> set (k # xs @ n # ys) \<union> set [e]) \<inter> own A m = {}" if "m \<noteq> k" for m
    using out [OF that] by auto
  with list_replace_init_ok [OF L(1) n] represents_update2 [OF R, of _ _ k "xs @ n # ys" e "[]"] e
  show "\<exists>h'. list_replace_init h (Ptr e) (Ptr n) = Inr h' \<and> represents U h' (AList.update e [] B)"
    unfolding B by metis
qed

lemma spec_splice_impl:
  assumes R: "represents U h A" and S: "spec_splice join l k A = Some B"
    and join: "\<And>ls xs. set (join ls xs) = set ls \<union> set xs"
    and op: "\<And>ls xs. is_list h l ls \<Longrightarrow> is_list h k xs \<Longrightarrow> set (l # ls) \<inter> set (k # xs) = {} \<Longrightarrow>
      \<exists>h'. r = Inr h' \<and> is_list h' k (join ls xs) \<and> is_list h' l [] \<and> only_changes (set (l # k # ls @ xs)) h h'"
  shows "\<exists>h'. r = Inr h' \<and> represents U h' B"
proof -
  from S obtain ls xs where ls: "map_of A l = Some ls" and xs: "map_of A k = Some xs" and lk: "l \<noteq> k"
    and B: "B = AList.update l [] (AList.update k (join ls xs) A)"
    unfolding spec_splice_def by (auto split: if_splits)
  note own = own_Some [OF ls] own_Some [OF xs]
  have disj: "set (l # ls) \<inter> set (k # xs) = {}" using representsD(4) [OF R lk] unfolding own .
  from op [OF representsD(3) [OF R ls] representsD(3) [OF R xs] disj] obtain h' where
    h': "r = Inr h'" "is_list h' k (join ls xs)" "is_list h' l []" "only_changes (set (l # k # ls @ xs)) h h'" by blast
  have "represents U h' B" unfolding B
  proof (rule represents_update2 [OF R h'(4,2,3)])
    show "set (k # join ls xs) \<inter> set [l] = {}"
      using disj representsD(3) [OF R ls] by (auto simp: join is_list_def)
    show "(set (l # k # ls @ xs) \<union> set (k # join ls xs) \<union> set [l]) \<inter> own A m = {}" if m: "m \<noteq> k" "m \<noteq> l" for m
      using representsD(4) [OF R m(1)] representsD(4) [OF R m(2)] unfolding own by (auto simp: join)
  qed (use lk in simp)
  with h'(1) show ?thesis by blast
qed

text \<open>Without the re-initialisation the emptied head is left with stale pointers: no list any more.\<close>

lemma spec_splice_delete_impl:
  assumes R: "represents U h A" and S: "spec_splice join l k A = Some B"
    and join: "\<And>ls xs. set (join ls xs) = set ls \<union> set xs"
    and op: "\<And>ls xs. is_list h l ls \<Longrightarrow> is_list h k xs \<Longrightarrow> set (l # ls) \<inter> set (k # xs) = {} \<Longrightarrow>
      \<exists>h'. r = Inr h' \<and> is_list h' k (join ls xs) \<and> only_changes (set (k # ls @ xs)) h h'"
  shows "\<exists>h'. r = Inr h' \<and> represents U h' (AList.delete l B)"
proof -
  from S obtain ls xs where ls: "map_of A l = Some ls" and xs: "map_of A k = Some xs" and lk: "l \<noteq> k"
    and B: "B = AList.update l [] (AList.update k (join ls xs) A)"
    unfolding spec_splice_def by (auto split: if_splits)
  note own = own_Some [OF ls] own_Some [OF xs]
  have disj: "set (l # ls) \<inter> set (k # xs) = {}" using representsD(4) [OF R lk] unfolding own .
  from op [OF representsD(3) [OF R ls] representsD(3) [OF R xs] disj] obtain h' where
    h': "r = Inr h'" "is_list h' k (join ls xs)" "only_changes (set (k # ls @ xs)) h h'" by blast
  have "represents U h' (AList.update k (join ls xs) (AList.delete l A))"
  proof (rule represents_update1 [OF represents_delete [OF R] h'(3,2)])
    show "(set (k # ls @ xs) \<union> set (k # join ls xs)) \<inter> own (AList.delete l A) m = {}" if m: "m \<noteq> k" for m
      using representsD(4) [OF R m] representsD(4) [OF R, of m l] unfolding own by (auto simp: join)
  qed
  moreover have "AList.delete l B = AList.update k (join ls xs) (AList.delete l A)"
    unfolding B using lk by (simp add: delete_update delete_update_same)
  ultimately show ?thesis using h'(1) by simp
qed

lemma takeWhile_dropWhile_split:
  "e \<notin> set xs \<Longrightarrow> takeWhile (\<lambda>x. x \<noteq> e) (xs @ e # ys) = xs \<and> tl (dropWhile (\<lambda>x. x \<noteq> e) (xs @ e # ys)) = ys"
  by (induction xs) auto

lemma cut_at_head_impl:
  assumes R: "represents U h A" and xs: "map_of A k = Some xs" and l: "detached U A l"
  shows "\<exists>h'. list_cut_position h (Ptr l) (Ptr k) (Ptr k) = Inr h'
     \<and> represents U h' (if xs = [] then A else AList.update l [] A)"
proof -
  note L = representsD(3) [OF R xs]
  have "list_cut_position h (Ptr l) (Ptr k) (Ptr k) = (if xs = [] then Inr h else INIT_LIST_HEAD h (Ptr l))"
    using list_tests(1,3) [OF L] is_list_first [OF L] by (simp add: list_cut_position_def)
  with Init_impl [OF R l] R show ?thesis by simp
qed

lemma list_cut_impl:
  assumes R: "represents U h A" and S: "spec_cut U l k e A = Some B"
  shows "\<exists>h'. list_cut_position h (Ptr l) (Ptr k) (Ptr e) = Inr h' \<and> represents U h' B"
proof -
  from S obtain zs where zs: "map_of A k = Some zs" and l: "detached U A l" and
    B: "B = (if e \<in> set zs then AList.update l (takeWhile (\<lambda>x. x \<noteq> e) zs @ [e]) (AList.update k (tl (dropWhile (\<lambda>x. x \<noteq> e) zs)) A)
       else if zs = [] then A else AList.update l [] A)" "e \<notin> set zs \<Longrightarrow> e = k"
    unfolding spec_cut_def by (auto split: if_splits)
  show ?thesis
  proof (cases "e \<in> set zs")
    case False
    with cut_at_head_impl [OF R zs l] B show ?thesis by simp
  next
    case True
    from split_list_first [OF True] obtain xs ys where xs: "zs = xs @ e # ys" "e \<notin> set xs" by blast
    have k: "own A k = set (k # xs @ e # ys)" using own_Some [OF zs] xs by simp
    have L: "is_list h k (xs @ e # ys)" using representsD(3) [OF R zs] xs by simp
    have n: "l \<in> dom h" "l \<notin> set (k # xs @ e # ys)" using detachedD(1) [OF R l] detachedD(2) [OF R l, of k] k by simp_all
    obtain h' where h': "list_cut_position h (Ptr l) (Ptr k) (Ptr e) = Inr h'" "is_list h' l (xs @ [e])"
        "is_list h' k ys" "only_changes (set (l # k # xs @ e # ys)) h h'"
      using list_cut_position_ok [OF L n] by blast
    have "represents U h' (AList.update l (xs @ [e]) (AList.update k ys A))"
    proof (rule represents_update2 [OF R h'(4,3,2)])
      show "set (k # ys) \<inter> set (l # xs @ [e]) = {}" using L n by (auto simp: is_list_def)
      show "(set (l # k # xs @ e # ys) \<union> set (k # ys) \<union> set (l # xs @ [e])) \<inter> own A m = {}" if "m \<noteq> k" for m
        using representsD(4) [OF R that] detachedD(2) [OF R l, of m] unfolding k by auto
    qed (use n in auto)
    with h'(1) B(1) True xs takeWhile_dropWhile_split [OF xs(2)] show ?thesis by simp
  qed
qed

lemma list_del_init_impl:
  assumes "represents U h A" "spec_del e k A = Some B"
  shows "\<exists>h'. list_del_init h (Ptr e) = Inr h' \<and> represents U h' (AList.update e [] B)"
  unfolding list_del_init_def
  by (rule del_then_impl [OF assms(1), of e k "\<lambda>B. Some (AList.update e [] B)"])
    (simp add: assms(2), metis Init_impl option.inject)

lemma list_move_impl:
  assumes "represents U h A" "Option.bind (spec_del e k A) (spec_add (\<lambda>n xs. n # xs) U e l) = Some B"
  shows "\<exists>h'. list_move h (Ptr e) (Ptr l) = Inr h' \<and> represents U h' B"
  unfolding list_move_def by (rule del_then_impl [OF assms]) (rule list_add_impl)

lemma list_move_tail_impl:
  assumes "represents U h A" "Option.bind (spec_del e k A) (spec_add (\<lambda>n xs. xs @ [n]) U e l) = Some B"
  shows "\<exists>h'. list_move_tail h (Ptr e) (Ptr l) = Inr h' \<and> represents U h' B"
  unfolding list_move_tail_def by (rule del_then_impl [OF assms]) (rule list_add_tail_impl)

lemma list_splice_impl:
  assumes "represents U h A" "spec_splice (\<lambda>ls xs. ls @ xs) l k A = Some B"
  shows "\<exists>h'. list_splice h (Ptr l) (Ptr k) = Inr h' \<and> represents U h' (AList.delete l B)"
    and "\<exists>h'. list_splice_init h (Ptr l) (Ptr k) = Inr h' \<and> represents U h' B"
  by (rule spec_splice_delete_impl [OF assms], simp, rule list_splice_ok, assumption+)
    (rule spec_splice_impl [OF assms], simp, rule list_splice_init_ok, assumption+)

lemma list_splice_tail_impl:
  assumes "represents U h A" "spec_splice (\<lambda>ls xs. xs @ ls) l k A = Some B"
  shows "\<exists>h'. list_splice_tail h (Ptr l) (Ptr k) = Inr h' \<and> represents U h' (AList.delete l B)"
    and "\<exists>h'. list_splice_tail_init h (Ptr l) (Ptr k) = Inr h' \<and> represents U h' B"
  by (rule spec_splice_delete_impl [OF assms], auto simp del: list.set intro: list_splice_tail_ok)
    (rule spec_splice_impl [OF assms], auto simp del: list.set intro: list_splice_init_ok)

lemmas list_impl = Init_impl list_add_impl list_add_tail_impl list_del_impl list_del_init_impl list_move_impl
  list_move_tail_impl list_rotate_left_impl list_replace_impl list_splice_impl list_splice_tail_impl list_cut_impl

lemma list_exec_impl:
  assumes "represents U h A" "list_spec U op A = Some B"
  shows "\<exists>h'. list_exec op h = Inr h' \<and> represents U h' B"
  using assms
  by (cases "(U, op, A)" rule: list_spec.cases)
    (auto simp: bind_eq_Some_conv [of _ "\<lambda>B. Some (_ B)"] split: if_splits intro: list_impl)

interpretation klist: implements list_exec "list_spec U" "represents U" for U :: "'a set"
  by unfold_locales (rule list_exec_impl)

section \<open>Properties\<close>

text \<open>C18: On a memory of detached cells and lists that share no cell, every sequence of list
  operations used as \<open>list.h\<close> asks (add fresh entries, take off, move, replace entries of a list,
  rotate, splice and cut lists) runs without a bad access, does to the lists what the abstract
  operations do to the sequences of entries, touches no other memory, and afterwards a forward
  traversal of each list visits exactly its entries in order and a backward one in reverse.\<close>

theorem list_ops_refine:
  assumes "represents (dom h) h A" "run (list_spec (dom h)) ops A = Some B"
  shows "\<exists>h'. exec_all list_exec ops h = Inr h' \<and> represents (dom h) h' B \<and>
    (\<forall>k xs. map_of B k = Some xs \<longrightarrow> list_for_each h' (Ptr k) = Some (Inr (map Ptr xs)) \<and>
       list_for_each_prev h' (Ptr k) = Some (Inr (map Ptr (rev xs))) \<and>
       list_empty h' (Ptr k) = Inr (xs = []))"
proof -
  obtain h' where h': "exec_all list_exec ops h = Inr h'" "represents (dom h) h' B"
    using klist.impl_all [OF assms] by blast
  moreover note representsD(3) [OF h'(2)]
  ultimately show ?thesis by (auto simp: list_for_each_ok list_for_each_prev_ok list_tests(1))
qed

definition sample_heap :: "nat list_heap" where
  "sample_heap = map_of (map (\<lambda>a. (a, \<lparr>lnext = NULL, lprev = NULL\<rparr>)) [0..<6])"

definition sample_ops :: "nat list_op list" where
  "sample_ops = [Init 0, Init 1, Add 2 0, Add_Tail 3 0, Add 4 1, Move_Tail 2 0 1, Replace 3 5 0,
     Splice 1 0, Rotate_Left 0, Cut 1 0 5, Del 4 0]"

theorem list_ops_refine_witness:
  "run (list_spec (dom sample_heap)) sample_ops [] = Some [(0, []), (1, [2, 5])] \<and>
   (\<exists>h. exec_all list_exec sample_ops sample_heap = Inr h \<and> list_for_each h (Ptr 1) = Some (Inr [Ptr 2, Ptr 5]))"
proof -
  have dom: "dom sample_heap = set [0..<6]"
    by (simp add: sample_heap_def dom_map_of_conv_image_fst image_image)
  have spec: "run (list_spec (set [0..<6])) sample_ops [] = Some [(0, []), (1, [2, 5])]"
    by code_simp
  have "represents (dom sample_heap) sample_heap []"
    by (simp add: represents_def apart_def own_def)
  from list_ops_refine [OF this spec [folded dom]] show ?thesis
    unfolding dom using spec by auto
qed

lemma is_list_cell:
  assumes "is_list h head xs" "is_list h' head xs" "a \<in> set (head # xs)"
  shows "h' a = h a"
proof -
  have eq: "h' b = h b" if "is_list h b ys" "is_list h' b ys" for b ys
    using is_list_first [OF that(1)] is_list_first [OF that(2)] is_list_last [OF that(1)] is_list_last [OF that(2)]
    by (cases "h b"; cases "h' b") (auto simp: nx_def pv_def intro!: list_head.equality)
  show ?thesis
  proof (cases "a = head")
    case False
    then obtain ys zs where "xs = ys @ a # zs" using assms(3) split_list [of a xs] by auto
    with assms(1,2) eq [of a "zs @ head # ys"] is_list_rotate [of _ head ys a zs] show ?thesis by simp
  qed (use eq assms in blast)
qed

text \<open>Cutting a list at an entry and splicing the cut-off part back in front restores the list,
  pointer for pointer: only the auxiliary head has changed, and it would be initialised again.\<close>

theorem cut_splice_roundtrip:
  assumes "is_list h head xs" "e \<in> set xs" "l \<in> dom h" "l \<notin> set (head # xs)"
  shows "\<exists>h1 h2. list_cut_position h (Ptr l) (Ptr head) (Ptr e) = Inr h1 \<and>
     list_for_each h1 (Ptr l) = Some (Inr (map Ptr (takeWhile (\<lambda>x. x \<noteq> e) xs @ [e]))) \<and>
     list_splice_init h1 (Ptr l) (Ptr head) = Inr h2 \<and> (\<forall>a. a \<noteq> l \<longrightarrow> h2 a = h a) \<and> is_list h2 l []"
proof -
  obtain ys zs where xs: "xs = ys @ e # zs" "e \<notin> set ys" using split_list_first [OF assms(2)] by blast
  note L = assms(1) [unfolded xs(1)] and l = assms(3) assms(4) [unfolded xs(1)]
  obtain h1 where h1: "list_cut_position h (Ptr l) (Ptr head) (Ptr e) = Inr h1" "is_list h1 l (ys @ [e])"
      "is_list h1 head zs" "only_changes (set (l # head # ys @ e # zs)) h h1"
    using list_cut_position_ok [OF L l] by blast
  have "set (l # ys @ [e]) \<inter> set (head # zs) = {}" using L l by (auto simp: is_list_def)
  from list_splice_init_ok(1) [OF h1(2,3) this] obtain h2 where
    h2: "list_splice_init h1 (Ptr l) (Ptr head) = Inr h2" "is_list h2 head (ys @ e # zs)" "is_list h2 l []"
      "only_changes (set (l # head # ys @ e # zs)) h1 h2" by auto
  have "h2 a = h a" if "a \<noteq> l" for a
  proof (cases "a \<in> set (head # ys @ e # zs)")
    case False
    then show ?thesis using only_changes_trans [OF h1(4) h2(4)] that by (auto simp: only_changes_def)
  qed (use is_list_cell [OF L h2(2)] in simp)
  moreover have "list_for_each h1 (Ptr l) = Some (Inr (map Ptr (takeWhile (\<lambda>x. x \<noteq> e) xs @ [e])))"
    using list_for_each_ok [OF h1(2)] takeWhile_dropWhile_split [OF xs(2)] xs(1) by simp
  ultimately show ?thesis using h1(1) h2(1,3) by blast
qed

theorem cut_splice_roundtrip_witness:
  "\<exists>h h1 h2. is_list h (0::nat) [1, 2] \<and> list_cut_position h (Ptr 3) (Ptr 0) (Ptr 1) = Inr h1 \<and>
     list_for_each h1 (Ptr 3) = Some (Inr [Ptr 1]) \<and> list_splice_init h1 (Ptr 3) (Ptr 0) = Inr h2 \<and> h2 0 = h 0"
proof -
  let ?h = "[0 \<mapsto> \<lparr>lnext = Ptr 1, lprev = Ptr 2\<rparr>, 1 \<mapsto> \<lparr>lnext = Ptr 2, lprev = Ptr 0\<rparr>,
     2 \<mapsto> \<lparr>lnext = Ptr 0, lprev = Ptr 1\<rparr>, 3 \<mapsto> \<lparr>lnext = NULL, lprev = NULL\<rparr>] :: nat list_heap"
  have L: "is_list ?h 0 [1, 2]" by (simp add: is_list_def nx_def pv_def)
  with cut_splice_roundtrip [OF L, of 1 3] show ?thesis by fastforce
qed

end
