(* ===== verification/Kernel_HList.thy ===== *)
theory Kernel_HList
  imports Kernel_List
begin

text \<open>
  The hash lists of the Linux kernel (\<open>hlist_head\<close>, \<open>hlist_node\<close> of \<open>list.h\<close>): a head is a single
  pointer to the first node, and a node points back to the pointer that points to it, which is the
  field \<open>first\<close> of the head or the field \<open>next\<close> of another node. The memory is kept field by field:
  \<open>slots\<close> holds the contents of the fields \<open>first\<close> and \<open>next\<close>, \<open>pprevs\<close> that of the back pointers.
  As for the lists with two pointers every access is checked, the operations are translated line by
  line and refine operations on lists of nodes.
\<close>

section \<open>Memory\<close>

datatype 'a slot = First 'a | Next 'a

record 'a hmem =
  slots :: "'a slot \<rightharpoonup> 'a ptr"
  pprevs :: "'a \<rightharpoonup> 'a slot ptr"

text \<open>The address of a field of the structure that a pointer points to.\<close>

fun first_of :: "'a ptr \<Rightarrow> 'a slot ptr" where
  "first_of (Ptr a) = Ptr (First a)"
| "first_of NULL = NULL"
| "first_of LIST_POISON1 = LIST_POISON1"
| "first_of LIST_POISON2 = LIST_POISON2"

fun next_of :: "'a ptr \<Rightarrow> 'a slot ptr" where
  "next_of (Ptr a) = Ptr (Next a)"
| "next_of NULL = NULL"
| "next_of LIST_POISON1 = LIST_POISON1"
| "next_of LIST_POISON2 = LIST_POISON2"

definition get_slot :: "'a hmem \<Rightarrow> 'a slot ptr \<Rightarrow> 'a ptr c_result" where
  "get_slot m p = (case p of
     Ptr s \<Rightarrow> (case slots m s of Some v \<Rightarrow> Inr v | None \<Rightarrow> Inl Bad_Pointer)
   | _ \<Rightarrow> Inl Bad_Pointer)"

definition set_slot :: "'a hmem \<Rightarrow> 'a slot ptr \<Rightarrow> 'a ptr \<Rightarrow> 'a hmem c_result" where
  "set_slot m p v = (case p of
     Ptr s \<Rightarrow> (if slots m s = None then Inl Bad_Pointer else Inr (m\<lparr>slots := (slots m)(s \<mapsto> v)\<rparr>))
   | _ \<Rightarrow> Inl Bad_Pointer)"

definition get_pprev :: "'a hmem \<Rightarrow> 'a ptr \<Rightarrow> 'a slot ptr c_result" where
  "get_pprev m p = (case p of
     Ptr a \<Rightarrow> (case pprevs m a of Some v \<Rightarrow> Inr v | None \<Rightarrow> Inl Bad_Pointer)
   | _ \<Rightarrow> Inl Bad_Pointer)"

definition set_pprev :: "'a hmem \<Rightarrow> 'a ptr \<Rightarrow> 'a slot ptr \<Rightarrow> 'a hmem c_result" where
  "set_pprev m p v = (case p of
     Ptr a \<Rightarrow> (if pprevs m a = None then Inl Bad_Pointer else Inr (m\<lparr>pprevs := (pprevs m)(a \<mapsto> v)\<rparr>))
   | _ \<Rightarrow> Inl Bad_Pointer)"

section \<open>The operations\<close>

definition INIT_HLIST_HEAD :: "'a hmem \<Rightarrow> 'a ptr \<Rightarrow> 'a hmem c_result" where
  "INIT_HLIST_HEAD m p = set_slot m (first_of p) NULL"

definition INIT_HLIST_NODE :: "'a hmem \<Rightarrow> 'a ptr \<Rightarrow> 'a hmem c_result" where
  "INIT_HLIST_NODE m h = c_bind (set_slot m (next_of h) NULL) (\<lambda>m. set_pprev m h NULL)"

definition hlist_unhashed :: "'a hmem \<Rightarrow> 'a ptr \<Rightarrow> bool c_result" where
  "hlist_unhashed m h = c_bind (get_pprev m h) (\<lambda>p. Inr (p = NULL))"

definition hlist_empty :: "'a hmem \<Rightarrow> 'a ptr \<Rightarrow> bool c_result" where
  "hlist_empty m h = c_bind (get_slot m (first_of h)) (\<lambda>f. Inr (f = NULL))"

definition hlist_del_links :: "'a hmem \<Rightarrow> 'a ptr \<Rightarrow> 'a hmem c_result" where
  "hlist_del_links m n =
     c_bind (get_slot m (next_of n)) (\<lambda>nxt.
     c_bind (get_pprev m n) (\<lambda>pprev.
     c_bind (set_slot m pprev nxt) (\<lambda>m.
     if nxt \<noteq> NULL then set_pprev m nxt pprev else Inr m)))"

definition hlist_del :: "'a hmem \<Rightarrow> 'a ptr \<Rightarrow> 'a hmem c_result" where
  "hlist_del m n =
     c_bind (hlist_del_links m n) (\<lambda>m.
     c_bind (set_slot m (next_of n) LIST_POISON1) (\<lambda>m.
     set_pprev m n LIST_POISON2))"

definition hlist_del_init :: "'a hmem \<Rightarrow> 'a ptr \<Rightarrow> 'a hmem c_result" where
  "hlist_del_init m n =
     c_bind (hlist_unhashed m n) (\<lambda>u.
     if \<not> u then c_bind (hlist_del_links m n) (\<lambda>m. INIT_HLIST_NODE m n) else Inr m)"

definition hlist_add_head :: "'a hmem \<Rightarrow> 'a ptr \<Rightarrow> 'a ptr \<Rightarrow> 'a hmem c_result" where
  "hlist_add_head m n h =
     c_bind (get_slot m (first_of h)) (\<lambda>first.
     c_bind (set_slot m (next_of n) first) (\<lambda>m.
     c_bind (if first \<noteq> NULL then set_pprev m first (next_of n) else Inr m) (\<lambda>m.
     c_bind (set_slot m (first_of h) n) (\<lambda>m.
     set_pprev m n (first_of h)))))"

definition hlist_add_before :: "'a hmem \<Rightarrow> 'a ptr \<Rightarrow> 'a ptr \<Rightarrow> 'a hmem c_result" where
  "hlist_add_before m n nxt =
     c_bind (get_pprev m nxt) (\<lambda>p.
     c_bind (set_pprev m n p) (\<lambda>m.
     c_bind (set_slot m (next_of n) nxt) (\<lambda>m.
     c_bind (set_pprev m nxt (next_of n)) (\<lambda>m.
     c_bind (get_pprev m n) (\<lambda>p.
     set_slot m p n)))))"

definition hlist_add_after :: "'a hmem \<Rightarrow> 'a ptr \<Rightarrow> 'a ptr \<Rightarrow> 'a hmem c_result" where
  "hlist_add_after m n nxt =
     c_bind (get_slot m (next_of n)) (\<lambda>v.
     c_bind (set_slot m (next_of nxt) v) (\<lambda>m.
     c_bind (set_slot m (next_of n) nxt) (\<lambda>m.
     c_bind (set_pprev m nxt (next_of n)) (\<lambda>m.
     c_bind (get_slot m (next_of nxt)) (\<lambda>w.
     if w \<noteq> NULL then set_pprev m w (next_of nxt) else Inr m)))))"

definition hlist_add_fake :: "'a hmem \<Rightarrow> 'a ptr \<Rightarrow> 'a hmem c_result" where
  "hlist_add_fake m n = set_pprev m n (next_of n)"

definition hlist_move_list :: "'a hmem \<Rightarrow> 'a ptr \<Rightarrow> 'a ptr \<Rightarrow> 'a hmem c_result" where
  "hlist_move_list m old new =
     c_bind (get_slot m (first_of old)) (\<lambda>v.
     c_bind (set_slot m (first_of new) v) (\<lambda>m.
     c_bind (get_slot m (first_of new)) (\<lambda>w.
     c_bind (if w \<noteq> NULL then set_pprev m w (first_of new) else Inr m) (\<lambda>m.
     set_slot m (first_of old) NULL))))"

text \<open>The traversal ends at a null pointer; in a damaged memory it may go on for ever.\<close>

partial_function (option) hlist_from :: "'a hmem \<Rightarrow> 'a ptr \<Rightarrow> 'a ptr list c_result option" where
  "hlist_from m pos =
     (if pos = NULL then Some (Inr []) else
      case get_slot m (next_of pos) of
        Inl e \<Rightarrow> Some (Inl e)
      | Inr n \<Rightarrow> Option.bind (hlist_from m n) (\<lambda>r. Some (c_bind r (\<lambda>ps. Inr (pos # ps)))))"

definition hlist_for_each :: "'a hmem \<Rightarrow> 'a ptr \<Rightarrow> 'a ptr list c_result option" where
  "hlist_for_each m head =
     (case get_slot m (first_of head) of Inl e \<Rightarrow> Some (Inl e) | Inr f \<Rightarrow> hlist_from m f)"

section \<open>Lists in memory\<close>

text \<open>A chain of nodes that starts at a slot; the part of it before its last slot.\<close>

fun chain :: "'a hmem \<Rightarrow> 'a slot \<Rightarrow> 'a list \<Rightarrow> bool" where
  "chain m s [] \<longleftrightarrow> slots m s = Some NULL"
| "chain m s (x # xs) \<longleftrightarrow> slots m s = Some (Ptr x) \<and> pprevs m x = Some (Ptr s) \<and> chain m (Next x) xs"

fun prefix_at :: "'a hmem \<Rightarrow> 'a slot \<Rightarrow> 'a list \<Rightarrow> bool" where
  "prefix_at m s [] \<longleftrightarrow> True"
| "prefix_at m s (x # xs) \<longleftrightarrow> slots m s = Some (Ptr x) \<and> pprevs m x = Some (Ptr s) \<and> prefix_at m (Next x) xs"

fun last_slot :: "'a slot \<Rightarrow> 'a list \<Rightarrow> 'a slot" where
  "last_slot s [] = s"
| "last_slot s (x # xs) = last_slot (Next x) xs"

definition head_ptr :: "'a list \<Rightarrow> 'a ptr" where
  "head_ptr xs = (case xs of [] \<Rightarrow> NULL | x # _ \<Rightarrow> Ptr x)"

lemma head_ptr_simps [simp]: "head_ptr [] = NULL" "head_ptr (x # xs) = Ptr x" "head_ptr xs = NULL \<longleftrightarrow> xs = []"
  by (simp_all add: head_ptr_def split: list.split)

lemma chain_append: "chain m s (xs @ ys) \<longleftrightarrow> prefix_at m s xs \<and> chain m (last_slot s xs) ys"
  by (induction xs arbitrary: s) auto

lemma chain_slot: "chain m s xs \<Longrightarrow> slots m s = Some (head_ptr xs)"
  by (cases xs) simp_all

lemma last_slot_in: "last_slot s xs \<in> insert s (Next ` set xs)"
  by (induction xs arbitrary: s) auto

lemma last_slot_snoc [simp]: "last_slot s (xs @ [x]) = Next x"
  by (induction xs arbitrary: s) simp_all

lemma chain_cong:
  "(\<And>r. r \<in> insert s (Next ` set xs) \<Longrightarrow> slots m' r = slots m r) \<Longrightarrow>
     (\<And>x. x \<in> set xs \<Longrightarrow> pprevs m' x = pprevs m x) \<Longrightarrow> chain m' s xs = chain m s xs"
  by (induction xs arbitrary: s) auto

lemma prefix_at_cong:
  "distinct xs \<Longrightarrow> s \<notin> Next ` set xs \<Longrightarrow>
     (\<And>r. r \<in> insert s (Next ` set xs) \<Longrightarrow> r \<noteq> last_slot s xs \<Longrightarrow> slots m' r = slots m r) \<Longrightarrow>
     (\<And>x. x \<in> set xs \<Longrightarrow> pprevs m' x = pprevs m x) \<Longrightarrow> prefix_at m' s xs = prefix_at m s xs"
proof (induction xs arbitrary: s)
  case (Cons x xs)
  have "s \<noteq> last_slot (Next x) xs" using last_slot_in [of "Next x" xs] Cons.prems(2) by auto
  then have "slots m' s = slots m s" using Cons.prems(3) by simp
  moreover have "prefix_at m' (Next x) xs = prefix_at m (Next x) xs"
    using Cons.prems by (intro Cons.IH) auto
  ultimately show ?case using Cons.prems(4) by simp
qed simp

lemma chain_dom: "chain m s xs \<Longrightarrow> insert s (Next ` set xs) \<subseteq> dom (slots m) \<and> set xs \<subseteq> dom (pprevs m)"
  by (induction xs arbitrary: s) auto

text \<open>What the operations do to the memory: put a node into a slot, take the node out of a slot.\<close>

definition back_to :: "'a ptr \<Rightarrow> 'a slot \<Rightarrow> ('a \<rightharpoonup> 'a slot ptr) \<Rightarrow> ('a \<rightharpoonup> 'a slot ptr)" where
  "back_to p s f = (case p of Ptr y \<Rightarrow> f(y \<mapsto> Ptr s) | _ \<Rightarrow> f)"

lemma back_to_simps [simp]: "back_to NULL s f = f" "back_to (Ptr y) s f = f(y \<mapsto> Ptr s)"
  by (simp_all add: back_to_def)

definition link :: "'a slot \<Rightarrow> 'a \<Rightarrow> 'a ptr \<Rightarrow> 'a hmem \<Rightarrow> 'a hmem" where
  "link t n p m = m\<lparr>slots := (slots m)(Next n \<mapsto> p, t \<mapsto> Ptr n), pprevs := back_to p (Next n) ((pprevs m)(n \<mapsto> Ptr t))\<rparr>"

definition unlink :: "'a slot \<Rightarrow> 'a ptr \<Rightarrow> 'a hmem \<Rightarrow> 'a hmem" where
  "unlink t p m = m\<lparr>slots := (slots m)(t \<mapsto> p), pprevs := back_to p t (pprevs m)\<rparr>"

lemma chain_link:
  assumes C: "chain m s (xs @ ys)" and d: "distinct (xs @ ys)" "n \<notin> set (xs @ ys)" "s \<notin> Next ` set (n # xs @ ys)"
  shows "chain (link (last_slot s xs) n (head_ptr ys) m) s (xs @ n # ys)"
proof -
  let ?t = "last_slot s xs" and ?m = "link (last_slot s xs) n (head_ptr ys) m"
  have t: "?t \<noteq> Next n" "\<forall>x \<in> set ys. Next x \<noteq> ?t" using last_slot_in [of s xs] d by auto
  have "prefix_at ?m s xs = prefix_at m s xs"
    using d by (intro prefix_at_cong) (auto simp: link_def head_ptr_def back_to_def split: list.splits)
  moreover have "chain ?m (Next n) ys"
  proof (cases ys)
    case (Cons y zs)
    have "chain ?m (Next y) zs = chain m (Next y) zs"
      using t d Cons by (intro chain_cong) (auto simp: link_def)
    then show ?thesis using C Cons t d by (auto simp: chain_append link_def)
  qed (use t in \<open>simp add: link_def\<close>)
  moreover have "slots ?m ?t = Some (Ptr n)" "pprevs ?m n = Some (Ptr ?t)"
    using d by (auto simp: link_def head_ptr_def split: list.splits)
  ultimately show ?thesis using C by (simp add: chain_append)
qed

lemma chain_unlink:
  assumes C: "chain m s (xs @ e # ys)" and d: "distinct (xs @ e # ys)" "s \<notin> Next ` set (xs @ e # ys)"
  shows "chain (unlink (last_slot s xs) (head_ptr ys) m) s (xs @ ys)"
proof -
  let ?t = "last_slot s xs" and ?m = "unlink (last_slot s xs) (head_ptr ys) m"
  have t: "\<forall>x \<in> set ys. Next x \<noteq> ?t" using last_slot_in [of s xs] d by auto
  have "prefix_at ?m s xs = prefix_at m s xs"
    using d by (intro prefix_at_cong) (auto simp: unlink_def head_ptr_def split: list.splits)
  moreover have "chain ?m ?t ys"
  proof (cases ys)
    case (Cons y zs)
    have "chain ?m (Next y) zs = chain m (Next y) zs"
      using t d Cons by (intro chain_cong) (auto simp: unlink_def)
    then show ?thesis using C Cons by (simp add: chain_append unlink_def)
  qed (simp add: unlink_def)
  ultimately show ?thesis using C by (simp add: chain_append)
qed

section \<open>Each operation on the list it is given\<close>

lemma slot_access [simp]:
  "slots m s = Some v \<Longrightarrow> get_slot m (Ptr s) = Inr v"
  "s \<in> dom (slots m) \<Longrightarrow> set_slot m (Ptr s) v = Inr (m\<lparr>slots := (slots m)(s \<mapsto> v)\<rparr>)"
  "pprevs m a = Some q \<Longrightarrow> get_pprev m (Ptr a) = Inr q"
  "a \<in> dom (pprevs m) \<Longrightarrow> set_pprev m (Ptr a) q = Inr (m\<lparr>pprevs := (pprevs m)(a \<mapsto> q)\<rparr>)"
  by (auto simp: get_slot_def set_slot_def get_pprev_def set_pprev_def)

lemma hmem_eqI: "slots m = slots m' \<Longrightarrow> pprevs m = pprevs m' \<Longrightarrow> (m :: 'a hmem) = m'"
  by simp

definition node :: "'a hmem \<Rightarrow> 'a \<Rightarrow> bool" where
  "node m n \<longleftrightarrow> Next n \<in> dom (slots m) \<and> n \<in> dom (pprevs m)"

lemma hlist_add_head_link:
  assumes "chain m (First k) xs" "node m n" "n \<notin> set xs"
  shows "hlist_add_head m (Ptr n) (Ptr k) = Inr (link (First k) n (head_ptr xs) m)"
  using assms chain_dom [OF assms(1)]
  by (cases xs) (auto simp: hlist_add_head_def node_def link_def fun_upd_twist dom_def)

lemma hlist_add_before_link:
  assumes "chain m s (xs @ y # ys)" "node m n" "n \<notin> set (xs @ y # ys)"
  shows "hlist_add_before m (Ptr n) (Ptr y) = Inr (link (last_slot s xs) n (Ptr y) m)"
proof -
  let ?t = "last_slot s xs"
  have "slots m ?t = Some (Ptr y)" "pprevs m y = Some (Ptr ?t)" using assms(1) by (simp_all add: chain_append)
  then show ?thesis using assms(2,3) by (auto simp: hlist_add_before_def node_def link_def fun_upd_twist dom_def)
qed

lemma hlist_add_after_link:
  assumes "chain m s (xs @ x # ys)" "node m n" "n \<notin> set (xs @ x # ys)" "distinct (x # ys)"
  shows "hlist_add_after m (Ptr x) (Ptr n) = Inr (link (last_slot s (xs @ [x])) n (head_ptr ys) m)"
proof -
  have "chain m (Next x) ys" using assms(1) by (simp add: chain_append)
  then show ?thesis using assms(2-) chain_dom [of m "Next x" ys]
    by (cases ys) (auto simp: hlist_add_after_def node_def link_def fun_upd_twist dom_def)
qed

lemma hlist_del_unlink:
  assumes "chain m s (xs @ e # ys)"
  shows "hlist_del_links m (Ptr e) = Inr (unlink (last_slot s xs) (head_ptr ys) m)"
proof -
  let ?t = "last_slot s xs"
  have "slots m ?t = Some (Ptr e)" "pprevs m e = Some (Ptr ?t)" "chain m (Next e) ys" using assms by (simp_all add: chain_append)
  then show ?thesis
    by (cases ys) (auto simp: hlist_del_links_def unlink_def dom_def)
qed

lemma hlist_from_chain:
  "chain m s xs \<Longrightarrow> hlist_from m (head_ptr xs) = Some (Inr (map Ptr xs))"
proof (induction xs arbitrary: s)
  case (Cons x xs)
  then have "chain m (Next x) xs" by simp
  with Cons.IH chain_slot [OF this] show ?case by (subst hlist_from.simps) simp
qed (simp add: hlist_from.simps)

lemma hlist_queries:
  assumes "chain m (First k) xs"
  shows "hlist_for_each m (Ptr k) = Some (Inr (map Ptr xs))" "hlist_empty m (Ptr k) = Inr (xs = [])"
    and "x \<in> set xs \<Longrightarrow> hlist_unhashed m (Ptr x) = Inr False"
proof -
  show "hlist_for_each m (Ptr k) = Some (Inr (map Ptr xs))" "hlist_empty m (Ptr k) = Inr (xs = [])"
    using chain_slot [OF assms] hlist_from_chain [OF assms] by (simp_all add: hlist_for_each_def hlist_empty_def)
  show "hlist_unhashed m (Ptr x) = Inr False" if x: "x \<in> set xs"
  proof -
    obtain ys zs where "xs = ys @ x # zs" using split_list [OF x] by blast
    then have "pprevs m x = Some (Ptr (last_slot (First k) ys))" using assms by (simp add: chain_append)
    then show ?thesis by (simp add: hlist_unhashed_def)
  qed
qed

section \<open>Several lists in one memory\<close>

text \<open>
  The abstract state: an association list from the heads to the nodes of their lists, and the nodes
  that are initialised and on no list. \<open>N\<close> and \<open>H\<close> are the nodes and the heads of the memory.
\<close>

type_synonym 'a hstate = "'a lists \<times> 'a list"

definition hnodes :: "'a lists \<Rightarrow> 'a list" where
  "hnodes A = concat (map snd A)"

definition hown :: "'a lists \<Rightarrow> 'a \<Rightarrow> 'a set" where
  "hown A k = (case map_of A k of None \<Rightarrow> {} | Some xs \<Rightarrow> set xs)"

definition happart :: "'a lists \<Rightarrow> bool" where
  "happart A \<longleftrightarrow> distinct (map fst A) \<and> (\<forall>k l. k \<noteq> l \<longrightarrow> hown A k \<inter> hown A l = {})"

definition initialised :: "'a hmem \<Rightarrow> 'a \<Rightarrow> bool" where
  "initialised m n \<longleftrightarrow> slots m (Next n) = Some NULL \<and> pprevs m n = Some NULL"

definition hdom :: "'a set \<Rightarrow> 'a set \<Rightarrow> 'a hmem \<Rightarrow> bool" where
  "hdom N H m \<longleftrightarrow> dom (slots m) = Next ` N \<union> First ` H \<and> dom (pprevs m) = N"

definition hchains :: "'a hmem \<Rightarrow> 'a lists \<Rightarrow> bool" where
  "hchains m A \<longleftrightarrow> (\<forall>k xs. map_of A k = Some xs \<longrightarrow> distinct xs \<and> chain m (First k) xs)"

definition hidle :: "'a hmem \<Rightarrow> 'a hstate \<Rightarrow> bool" where
  "hidle m S \<longleftrightarrow> (\<forall>n \<in> set (snd S). initialised m n \<and> (\<forall>k. n \<notin> hown (fst S) k))"

definition hrep :: "'a set \<Rightarrow> 'a set \<Rightarrow> 'a hmem \<Rightarrow> 'a hstate \<Rightarrow> bool" where
  "hrep N H m S \<longleftrightarrow> hdom N H m \<and> happart (fst S) \<and> hchains m (fst S) \<and> hidle m S"

datatype 'a hlist_op =
    Init_Head 'a | Init_Node 'a | Add_Head 'a 'a | Add_Before 'a 'a 'a | Add_After 'a 'a 'a
  | Delete 'a 'a | Delete_Init 'a 'a | Move_List 'a 'a

fun hlist_exec :: "'a hlist_op \<Rightarrow> 'a hmem \<Rightarrow> 'a hmem c_result" where
  "hlist_exec (Init_Head k) m = INIT_HLIST_HEAD m (Ptr k)"
| "hlist_exec (Init_Node n) m = INIT_HLIST_NODE m (Ptr n)"
| "hlist_exec (Add_Head n k) m = hlist_add_head m (Ptr n) (Ptr k)"
| "hlist_exec (Add_Before n y k) m = hlist_add_before m (Ptr n) (Ptr y)"
| "hlist_exec (Add_After x n k) m = hlist_add_after m (Ptr x) (Ptr n)"
| "hlist_exec (Delete e k) m = hlist_del m (Ptr e)"
| "hlist_exec (Delete_Init e k) m = hlist_del_init m (Ptr e)"
| "hlist_exec (Move_List k l) m = hlist_move_list m (Ptr k) (Ptr l)"

definition vacant :: "'a set \<Rightarrow> 'a lists \<Rightarrow> 'a \<Rightarrow> bool" where
  "vacant H A k \<longleftrightarrow> k \<in> H \<and> map_of A k \<in> {None, Some []}"

definition unlisted :: "'a set \<Rightarrow> 'a lists \<Rightarrow> 'a \<Rightarrow> bool" where
  "unlisted N A n \<longleftrightarrow> n \<in> N \<and> n \<notin> set (hnodes A)"

definition spec_insert :: "('a list \<Rightarrow> ('a list \<times> 'a list) option) \<Rightarrow> 'a set \<Rightarrow> 'a \<Rightarrow> 'a \<Rightarrow> 'a hstate \<Rightarrow> 'a hstate option" where
  "spec_insert part N n k S = (case map_of (fst S) k of
     None \<Rightarrow> None
   | Some zs \<Rightarrow> (case part zs of
       None \<Rightarrow> None
     | Some (xs, ys) \<Rightarrow> if unlisted N (fst S) n
         then Some (AList.update k (xs @ n # ys) (fst S), removeAll n (snd S)) else None))"

definition cut_before :: "'a \<Rightarrow> 'a list \<Rightarrow> ('a list \<times> 'a list) option" where
  "cut_before y zs = (if y \<in> set zs then Some (takeWhile (\<lambda>x. x \<noteq> y) zs, dropWhile (\<lambda>x. x \<noteq> y) zs) else None)"

definition cut_after :: "'a \<Rightarrow> 'a list \<Rightarrow> ('a list \<times> 'a list) option" where
  "cut_after x zs = (if x \<in> set zs then Some (takeWhile (\<lambda>y. y \<noteq> x) zs @ [x], tl (dropWhile (\<lambda>y. y \<noteq> x) zs)) else None)"

definition spec_remove :: "'a \<Rightarrow> 'a \<Rightarrow> 'a hstate \<Rightarrow> 'a hstate option" where
  "spec_remove e k S = (case map_of (fst S) k of
     None \<Rightarrow> None
   | Some zs \<Rightarrow> if e \<in> set zs then Some (AList.update k (remove1 e zs) (fst S), snd S) else None)"

fun hlist_spec :: "'a set \<Rightarrow> 'a set \<Rightarrow> 'a hlist_op \<Rightarrow> 'a hstate \<Rightarrow> 'a hstate option" where
  "hlist_spec N H (Init_Head k) S = (if vacant H (fst S) k then Some (AList.update k [] (fst S), snd S) else None)"
| "hlist_spec N H (Init_Node n) S = (if unlisted N (fst S) n then Some (fst S, List.insert n (snd S)) else None)"
| "hlist_spec N H (Add_Head n k) S = spec_insert (\<lambda>zs. Some ([], zs)) N n k S"
| "hlist_spec N H (Add_Before n y k) S = spec_insert (cut_before y) N n k S"
| "hlist_spec N H (Add_After x n k) S = spec_insert (cut_after x) N n k S"
| "hlist_spec N H (Delete e k) S = spec_remove e k S"
| "hlist_spec N H (Delete_Init e k) S =
     (if e \<in> set (snd S) then Some S
      else Option.bind (spec_remove e k S) (\<lambda>T. Some (fst T, e # snd T)))"
| "hlist_spec N H (Move_List k l) S = (case map_of (fst S) k of
     None \<Rightarrow> None
   | Some zs \<Rightarrow> if vacant H (fst S) l \<and> k \<noteq> l
       then Some (AList.update l zs (AList.update k [] (fst S)), snd S) else None)"

text \<open>The fields outside one head and a set of nodes are as before.\<close>

definition hframe :: "'a set \<Rightarrow> 'a set \<Rightarrow> 'a hmem \<Rightarrow> 'a hmem \<Rightarrow> bool" where
  "hframe K C m m' \<longleftrightarrow> dom (slots m') = dom (slots m) \<and> dom (pprevs m') = dom (pprevs m) \<and>
     (\<forall>s. s \<notin> First ` K \<union> Next ` C \<longrightarrow> slots m' s = slots m s) \<and> (\<forall>x. x \<notin> C \<longrightarrow> pprevs m' x = pprevs m x)"

lemma hframe_trans: "hframe K C m m1 \<Longrightarrow> hframe K C m1 m2 \<Longrightarrow> hframe K C m m2"
  by (simp add: hframe_def)

lemma hframe_mono: "hframe K C m m' \<Longrightarrow> K \<subseteq> K' \<Longrightarrow> C \<subseteq> C' \<Longrightarrow> hframe K' C' m m'"
  unfolding hframe_def by (meson UnE UnI1 UnI2 image_mono subsetD)

lemma hown_update [simp]: "hown (AList.update k xs A) j = (if j = k then set xs else hown A j)"
  by (simp add: hown_def update_conv)

lemma hnodes_hown:
  assumes "happart A"
  shows "set (hnodes A) = (\<Union>k. hown A k)"
proof -
  have key: "map_of A k = Some xs \<longleftrightarrow> (k, xs) \<in> set A" for k xs
    using assms map_of_eq_Some_iff unfolding happart_def by metis
  have "x \<in> hown A k \<longleftrightarrow> (\<exists>xs. (k, xs) \<in> set A \<and> x \<in> set xs)" for x k
    by (auto simp: hown_def key [symmetric] split: option.split)
  then have "(\<Union>k. hown A k) = (\<Union>p \<in> set A. set (snd p))" by (simp add: set_eq_iff split_paired_Ex Bex_def)
  then show ?thesis by (simp add: hnodes_def)
qed

lemma hrepD:
  assumes "hrep N H m S"
  shows "happart (fst S)" "map_of (fst S) k = Some xs \<Longrightarrow> distinct xs" "map_of (fst S) k = Some xs \<Longrightarrow> chain m (First k) xs"
    "n \<in> set (snd S) \<Longrightarrow> initialised m n" "n \<in> set (snd S) \<Longrightarrow> n \<notin> hown (fst S) k"
    "k \<noteq> l \<Longrightarrow> hown (fst S) k \<inter> hown (fst S) l = {}" "map_of (fst S) k = Some xs \<Longrightarrow> hown (fst S) k = set xs"
proof -
  have A: "happart (fst S)" and C: "hchains m (fst S)" and I: "hidle m S" using assms by (simp_all add: hrep_def)
  show "happart (fst S)" by (rule A)
  show "distinct xs" "chain m (First k) xs" if "map_of (fst S) k = Some xs"
    using C that unfolding hchains_def by blast+
  show "hown (fst S) k = set xs" if "map_of (fst S) k = Some xs" using that by (simp add: hown_def)
  show "initialised m n" "n \<notin> hown (fst S) k" if "n \<in> set (snd S)" using I that unfolding hidle_def by blast+
  show "hown (fst S) k \<inter> hown (fst S) l = {}" if "k \<noteq> l" using A that unfolding happart_def by blast
qed

lemma unlistedD:
  assumes "hrep N H m S" "unlisted N (fst S) n"
  shows "node m n" "n \<notin> hown (fst S) k"
proof -
  show "node m n" using assms by (auto simp: hrep_def hdom_def unlisted_def node_def)
  show "n \<notin> hown (fst S) k" using assms(2) hnodes_hown [OF hrepD(1) [OF assms(1)]] by (auto simp: unlisted_def)
qed

text \<open>One list is changed, and the set of initialised nodes outside the lists.\<close>

lemma hrep_update:
  assumes R: "hrep N H m S" and F: "hframe {k} C m m'" and k: "chain m' (First k) xs" "distinct xs"
    and C: "\<And>j. j \<noteq> k \<Longrightarrow> (C \<union> set xs) \<inter> hown (fst S) j = {}"
    and I: "\<And>n. n \<in> set I' \<Longrightarrow> n \<notin> set xs \<and> (n \<in> set (snd S) - C \<or> initialised m' n \<and> (\<forall>j. j \<noteq> k \<longrightarrow> n \<notin> hown (fst S) j))"
  shows "hrep N H m' (AList.update k xs (fst S), I')"
proof -
  let ?A = "AList.update k xs (fst S)"
  have "hown ?A i \<inter> hown ?A j = {}" if "i \<noteq> j" for i j
    using that hrepD(6) [OF R that] C [of i] C [of j] by auto
  then have ap: "happart ?A" using hrepD(1) [OF R] by (simp add: happart_def distinct_update)
  have ch: "distinct zs \<and> chain m' (First j) zs" if j: "map_of ?A j = Some zs" for j zs
  proof (cases "j = k")
    case True
    with j k show ?thesis by (simp add: update_conv)
  next
    case False
    with j have A: "map_of (fst S) j = Some zs" by (simp add: update_conv)
    have "C \<inter> set zs = {}" using C [OF False] hrepD(7) [OF R A] by auto
    then have "chain m' (First j) zs = chain m (First j) zs"
      using F False by (intro chain_cong) (auto simp: hframe_def)
    then show ?thesis using hrepD(2,3) [OF R A] by simp
  qed
  have id: "initialised m' n \<and> (\<forall>j. n \<notin> hown ?A j)" if n: "n \<in> set I'" for n
  proof (cases "n \<in> set (snd S) - C")
    case True
    then have "initialised m' n" using hrepD(4) [OF R, of n] F by (auto simp: hframe_def initialised_def)
    then show ?thesis using True hrepD(5) [OF R, of n] I [OF n] by auto
  next
    case False
    then show ?thesis using I [OF n] by auto
  qed
  have "hdom N H m'" using R F by (simp add: hrep_def hdom_def hframe_def)
  moreover have "hchains m' ?A" unfolding hchains_def using ch by blast
  moreover have "hidle m' (?A, I')" unfolding hidle_def using id by simp
  ultimately show ?thesis using ap by (simp add: hrep_def)
qed

lemma hframe_link:
  assumes "chain m (First k) (xs @ ys)" "node m n"
  shows "hframe {k} (set (n # xs @ ys)) m (link (last_slot (First k) xs) n (head_ptr ys) m)"
proof -
  let ?t = "last_slot (First k) xs"
  have "?t \<in> insert (First k) (Next ` set xs)" by (rule last_slot_in)
  then show ?thesis using assms chain_dom [OF assms(1)]
    by (cases ys) (auto simp: hframe_def link_def node_def)
qed

lemma hframe_unlink:
  assumes "chain m (First k) (xs @ e # ys)"
  shows "hframe {k} (set (xs @ e # ys)) m (unlink (last_slot (First k) xs) (head_ptr ys) m)"
proof -
  let ?t = "last_slot (First k) xs"
  have "?t \<in> insert (First k) (Next ` set xs)" by (rule last_slot_in)
  then show ?thesis using chain_dom [OF assms]
    by (cases ys) (auto simp: hframe_def unlink_def)
qed

section \<open>Refinement\<close>

lemma insert_impl:
  assumes R: "hrep N H m S" and T: "spec_insert part N n k S = Some T"
    and part: "\<And>zs xs ys. part zs = Some (xs, ys) \<Longrightarrow> zs = xs @ ys"
    and op: "\<And>xs ys. part (xs @ ys) = Some (xs, ys) \<Longrightarrow> chain m (First k) (xs @ ys) \<Longrightarrow> distinct (xs @ ys) \<Longrightarrow>
      node m n \<Longrightarrow> n \<notin> set (xs @ ys) \<Longrightarrow> r = Inr (link (last_slot (First k) xs) n (head_ptr ys) m)"
  shows "\<exists>m'. r = Inr m' \<and> hrep N H m' T"
proof -
  from T obtain zs xs ys where z: "map_of (fst S) k = Some zs" "part zs = Some (xs, ys)" "unlisted N (fst S) n"
    and T': "T = (AList.update k (xs @ n # ys) (fst S), removeAll n (snd S))"
    by (auto simp: spec_insert_def split: option.splits if_splits)
  have zs: "zs = xs @ ys" by (rule part [OF z(2)])
  have C: "chain m (First k) (xs @ ys)" "distinct (xs @ ys)" and own: "hown (fst S) k = set (xs @ ys)"
    using hrepD(2,3,7) [OF R z(1)] by (simp_all add: zs)
  have n: "node m n" "n \<notin> set (xs @ ys)" "\<And>j. n \<notin> hown (fst S) j"
    using unlistedD [OF R z(3)] own by auto
  let ?m = "link (last_slot (First k) xs) n (head_ptr ys) m"
  have "hrep N H ?m T" unfolding T'
  proof (rule hrep_update [OF R hframe_link [OF C(1) n(1)]])
    show "chain ?m (First k) (xs @ n # ys)" using C n(2) by (intro chain_link) auto
    show "distinct (xs @ n # ys)" using C(2) n(2) by auto
    show "(set (n # xs @ ys) \<union> set (xs @ n # ys)) \<inter> hown (fst S) j = {}" if "j \<noteq> k" for j
      using hrepD(6) [OF R that] own n(3) [of j] by auto
    show "i \<notin> set (xs @ n # ys) \<and> (i \<in> set (snd S) - set (n # xs @ ys) \<or>
        initialised ?m i \<and> (\<forall>j. j \<noteq> k \<longrightarrow> i \<notin> hown (fst S) j))" if "i \<in> set (removeAll n (snd S))" for i
      using that hrepD(5) [OF R, of i k] own by auto
  qed
  moreover have "r = Inr ?m" using op [OF z(2) [unfolded zs] C n(1,2)] .
  ultimately show ?thesis by blast
qed

lemma cut_before_Some: "cut_before y zs = Some (xs, ys) \<Longrightarrow> zs = xs @ ys \<and> (\<exists>ws. ys = y # ws)"
  by (auto simp: cut_before_def split: if_splits)
    (metis (mono_tags, lifting) hd_dropWhile dropWhile_eq_Nil_conv list.collapse)

lemma cut_after_Some: "cut_after x zs = Some (xs, ys) \<Longrightarrow> zs = xs @ ys \<and> (\<exists>ws. xs = ws @ [x])"
proof -
  assume "cut_after x zs = Some (xs, ys)"
  then have x: "x \<in> set zs" and xs: "xs = takeWhile (\<lambda>y. y \<noteq> x) zs @ [x]" and ys: "ys = tl (dropWhile (\<lambda>y. y \<noteq> x) zs)"
    by (auto simp: cut_after_def split: if_splits)
  have "dropWhile (\<lambda>y. y \<noteq> x) zs = x # ys" unfolding ys
    using x by (metis (mono_tags, lifting) hd_dropWhile dropWhile_eq_Nil_conv list.collapse)
  then show ?thesis using xs takeWhile_dropWhile_id [of "\<lambda>y. y \<noteq> x" zs] by simp
qed

lemma add_head_impl:
  "hrep N H m S \<Longrightarrow> spec_insert (\<lambda>zs. Some ([], zs)) N n k S = Some T \<Longrightarrow>
     \<exists>m'. hlist_add_head m (Ptr n) (Ptr k) = Inr m' \<and> hrep N H m' T"
  by (rule insert_impl) (auto intro: hlist_add_head_link)

lemma add_before_impl:
  assumes "hrep N H m S" "spec_insert (cut_before y) N n k S = Some T"
  shows "\<exists>m'. hlist_add_before m (Ptr n) (Ptr y) = Inr m' \<and> hrep N H m' T"
proof (rule insert_impl [OF assms])
  show "zs = xs @ ys" if "cut_before y zs = Some (xs, ys)" for zs xs ys using cut_before_Some [OF that] by simp
  fix xs ys assume a: "cut_before y (xs @ ys) = Some (xs, ys)" "chain m (First k) (xs @ ys)" "distinct (xs @ ys)"
    "node m n" "n \<notin> set (xs @ ys)"
  obtain ws where "ys = y # ws" using cut_before_Some [OF a(1)] by blast
  then show "hlist_add_before m (Ptr n) (Ptr y) = Inr (link (last_slot (First k) xs) n (head_ptr ys) m)"
    using hlist_add_before_link [of m "First k" xs y ws n] a by simp
qed

lemma add_after_impl:
  assumes "hrep N H m S" "spec_insert (cut_after x) N n k S = Some T"
  shows "\<exists>m'. hlist_add_after m (Ptr x) (Ptr n) = Inr m' \<and> hrep N H m' T"
proof (rule insert_impl [OF assms])
  show "zs = xs @ ys" if "cut_after x zs = Some (xs, ys)" for zs xs ys using cut_after_Some [OF that] by simp
  fix xs ys assume a: "cut_after x (xs @ ys) = Some (xs, ys)" "chain m (First k) (xs @ ys)" "distinct (xs @ ys)"
    "node m n" "n \<notin> set (xs @ ys)"
  obtain ws where "xs = ws @ [x]" using cut_after_Some [OF a(1)] by blast
  then show "hlist_add_after m (Ptr x) (Ptr n) = Inr (link (last_slot (First k) xs) n (head_ptr ys) m)"
    using hlist_add_after_link [of m "First k" ws x ys n] a by simp
qed

text \<open>Taking a node out, and writing its own two fields afterwards.\<close>

definition put_node :: "'a \<Rightarrow> 'a ptr \<Rightarrow> 'a slot ptr \<Rightarrow> 'a hmem \<Rightarrow> 'a hmem" where
  "put_node e v q m = m\<lparr>slots := (slots m)(Next e \<mapsto> v), pprevs := (pprevs m)(e \<mapsto> q)\<rparr>"

lemma remove_impl:
  assumes R: "hrep N H m S" and T: "spec_remove e k S = Some T"
  obtains m1 where "hlist_del_links m (Ptr e) = Inr m1" "node m1 e" "hlist_unhashed m (Ptr e) = Inr False"
    "hrep N H (put_node e v q m1) T" "v = NULL \<Longrightarrow> q = NULL \<Longrightarrow> hrep N H (put_node e v q m1) (fst T, e # snd T)"
proof -
  from T obtain zs where z: "map_of (fst S) k = Some zs" "e \<in> set zs" "T = (AList.update k (remove1 e zs) (fst S), snd S)"
    by (auto simp: spec_remove_def split: option.splits if_splits)
  obtain xs ys where zs: "zs = xs @ e # ys" "e \<notin> set xs" using split_list_first [OF z(2)] by blast
  have C: "chain m (First k) (xs @ e # ys)" "distinct (xs @ e # ys)" and own: "hown (fst S) k = set (xs @ e # ys)"
    using hrepD(2,3,7) [OF R z(1)] by (simp_all add: zs)
  have T': "fst T = AList.update k (xs @ ys) (fst S)" "snd T = snd S" using z(3) zs by (simp_all add: remove1_append)
  define m1 where "m1 = unlink (last_slot (First k) xs) (head_ptr ys) m"
  let ?m = "put_node e v q m1"
  have F1: "hframe {k} (set (xs @ e # ys)) m m1" unfolding m1_def by (rule hframe_unlink [OF C(1)])
  have e: "node m1 e" using F1 chain_dom [OF C(1)] by (auto simp: node_def hframe_def)
  have F: "hframe {k} (set (xs @ e # ys)) m ?m"
    using F1 e by (auto simp: hframe_def put_node_def node_def)
  have "chain m1 (First k) (xs @ ys)" unfolding m1_def using C by (intro chain_unlink) auto
  moreover have "chain ?m (First k) (xs @ ys) = chain m1 (First k) (xs @ ys)"
    using C(2) by (intro chain_cong) (auto simp: put_node_def)
  ultimately have ch: "chain ?m (First k) (xs @ ys)" "distinct (xs @ ys)" using C(2) by auto
  have out: "(set (xs @ e # ys) \<union> set (xs @ ys)) \<inter> hown (fst S) j = {}" if "j \<noteq> k" for j
    using hrepD(6) [OF R that] own by auto
  have i: "i \<notin> set (xs @ ys) \<and> i \<in> set (snd S) - set (xs @ e # ys)" if "i \<in> set (snd S)" for i
    using that hrepD(5) [OF R that, of k] own by auto
  show thesis
  proof (rule that [OF _ e])
    show "hlist_del_links m (Ptr e) = Inr m1" unfolding m1_def by (rule hlist_del_unlink [OF C(1)])
    show "hlist_unhashed m (Ptr e) = Inr False" using hlist_queries(3) [OF C(1)] by simp
    show "hrep N H ?m T"
      using hrep_update [OF R F ch out, of "snd S"] i T' by (metis prod.collapse)
    show "hrep N H ?m (fst T, e # snd T)" if vq: "v = NULL" "q = NULL"
    proof -
      have "initialised ?m e" "e \<notin> set (xs @ ys)" using vq C(2) by (auto simp: initialised_def put_node_def)
      then show ?thesis unfolding T'
        by (intro hrep_update [OF R F ch out]) (use i out in auto)
    qed
  qed
qed

lemma put_node_code:
  assumes "node m e"
  shows "c_bind (set_slot m (next_of (Ptr e)) v) (\<lambda>m. set_pprev m (Ptr e) q) = Inr (put_node e v q m)"
  using assms by (simp add: node_def put_node_def)

lemma del_impl:
  assumes "hrep N H m S" "spec_remove e k S = Some T"
  shows "\<exists>m'. hlist_del m (Ptr e) = Inr m' \<and> hrep N H m' T"
proof -
  obtain m1 where m1: "hlist_del_links m (Ptr e) = Inr m1" "node m1 e" "hrep N H (put_node e LIST_POISON1 LIST_POISON2 m1) T"
    using remove_impl [OF assms, of LIST_POISON1 LIST_POISON2] by metis
  then show ?thesis using put_node_code [OF m1(2), of LIST_POISON1 LIST_POISON2] by (simp add: hlist_del_def)
qed

lemma del_init_impl:
  assumes R: "hrep N H m S" and T: "hlist_spec N H (Delete_Init e k) S = Some T"
  shows "\<exists>m'. hlist_del_init m (Ptr e) = Inr m' \<and> hrep N H m' T"
proof (cases "e \<in> set (snd S)")
  case True
  then have "hlist_unhashed m (Ptr e) = Inr True" using hrepD(4) [OF R True] by (simp add: initialised_def hlist_unhashed_def)
  then show ?thesis using True R T by (simp add: hlist_del_init_def)
next
  case False
  then obtain T0 where T0: "spec_remove e k S = Some T0" "T = (fst T0, e # snd T0)"
    using T by (auto simp: bind_eq_Some_conv)
  obtain m1 where m1: "hlist_del_links m (Ptr e) = Inr m1" "node m1 e" "hlist_unhashed m (Ptr e) = Inr False"
    "hrep N H (put_node e NULL NULL m1) T"
    using remove_impl [OF R T0(1), of NULL NULL] unfolding T0(2) by metis
  then show ?thesis using put_node_code [OF m1(2), of NULL NULL] by (simp add: hlist_del_init_def INIT_HLIST_NODE_def)
qed

lemma init_head_impl:
  assumes R: "hrep N H m S" and k: "vacant H (fst S) k \<or> map_of (fst S) k \<noteq> None"
  shows "\<exists>m'. INIT_HLIST_HEAD m (Ptr k) = Inr m' \<and> m' = m\<lparr>slots := (slots m)(First k \<mapsto> NULL)\<rparr> \<and>
    hrep N H m' (AList.update k [] (fst S), snd S)"
proof -
  let ?m = "m\<lparr>slots := (slots m)(First k \<mapsto> NULL)\<rparr>"
  have d: "First k \<in> dom (slots m)"
  proof (cases "map_of (fst S) k")
    case None
    then show ?thesis using R k by (auto simp: vacant_def hrep_def hdom_def)
  next
    case (Some xs)
    then show ?thesis using chain_slot [OF hrepD(3) [OF R Some]] by blast
  qed
  then have "hframe {k} {} m ?m" by (auto simp: hframe_def)
  then have "hrep N H ?m (AList.update k [] (fst S), snd S)" by (rule hrep_update [OF R]) auto
  then show ?thesis using d by (simp add: INIT_HLIST_HEAD_def)
qed

lemma init_node_impl:
  assumes R: "hrep N H m S" and n: "unlisted N (fst S) n"
  shows "\<exists>m'. INIT_HLIST_NODE m (Ptr n) = Inr m' \<and> hrep N H m' (fst S, List.insert n (snd S))"
proof -
  note d = unlistedD [OF R n]
  let ?m = "put_node n NULL NULL m"
  have "hchains ?m (fst S)" unfolding hchains_def
  proof (intro allI impI)
    fix k xs assume k: "map_of (fst S) k = Some xs"
    have "n \<notin> set xs" using d(2) [of k] hrepD(7) [OF R k] by simp
    then have "chain ?m (First k) xs = chain m (First k) xs" by (intro chain_cong) (auto simp: put_node_def)
    then show "distinct xs \<and> chain ?m (First k) xs" using hrepD(2,3) [OF R k] by simp
  qed
  moreover have "hidle ?m (fst S, List.insert n (snd S))"
    using hrepD(4,5) [OF R] d(2) by (auto simp: hidle_def initialised_def put_node_def)
  moreover have "hdom N H ?m" using R d(1) by (auto simp: hrep_def hdom_def put_node_def node_def)
  ultimately have "hrep N H ?m (fst S, List.insert n (snd S))" using hrepD(1) [OF R] by (simp add: hrep_def)
  then show ?thesis using put_node_code [OF d(1)] by (simp add: INIT_HLIST_NODE_def)
qed

lemma move_list_impl:
  assumes R: "hrep N H m S" and k: "map_of (fst S) k = Some zs" and l: "vacant H (fst S) l" "k \<noteq> l"
  shows "\<exists>m'. hlist_move_list m (Ptr k) (Ptr l) = Inr m' \<and>
    hrep N H m' (AList.update l zs (AList.update k [] (fst S)), snd S)"
proof -
  note C = hrepD(3) [OF R k] and d = hrepD(2) [OF R k] and own = hrepD(7) [OF R k]
  define m1 where "m1 = m\<lparr>slots := (slots m)(First k \<mapsto> NULL)\<rparr>"
  have R1: "hrep N H m1 (AList.update k [] (fst S), snd S)"
    using init_head_impl [OF R, of k] k by (auto simp: m1_def)
  let ?m = "unlink (First l) (head_ptr zs) m1"
  have dl: "First l \<in> dom (slots m)" "First k \<in> dom (slots m)" "set zs \<subseteq> dom (pprevs m)"
    using R l chain_dom [OF C] by (auto simp: vacant_def hrep_def hdom_def)
  have F: "hframe {l} (set zs) m1 ?m"
    using dl by (cases zs) (auto simp: hframe_def unlink_def m1_def)
  have "chain ?m (First l) zs"
  proof (cases zs)
    case (Cons y ys)
    have "chain ?m (Next y) ys = chain m (Next y) ys"
      using d Cons by (intro chain_cong) (auto simp: unlink_def m1_def)
    then show ?thesis using C Cons by (simp add: unlink_def)
  qed (simp add: unlink_def)
  then have "hrep N H ?m (AList.update l zs (fst (AList.update k [] (fst S), snd S)), snd S)"
  proof (rule hrep_update [OF R1 F _ d])
    show "(set zs \<union> set zs) \<inter> hown (fst (AList.update k [] (fst S), snd S)) j = {}" for j
      using hrepD(6) [OF R, of k j] own by auto
    show "i \<notin> set zs \<and> (i \<in> set (snd (AList.update k [] (fst S), snd S)) - set zs \<or>
        initialised ?m i \<and> (\<forall>j. j \<noteq> l \<longrightarrow> i \<notin> hown (fst (AList.update k [] (fst S), snd S)) j))" if "i \<in> set (snd S)" for i
      using hrepD(5) [OF R that, of k] that own by simp
  qed
  then have "hrep N H ?m (AList.update l zs (AList.update k [] (fst S)), snd S)" by simp
  moreover have "hlist_move_list m (Ptr k) (Ptr l) = Inr ?m"
    using chain_slot [OF C] dl l(2)
    by (cases zs) (auto simp: hlist_move_list_def unlink_def m1_def fun_upd_twist dom_def)
  ultimately show ?thesis by blast
qed

lemma hlist_exec_impl:
  assumes "hrep N H m S" "hlist_spec N H op S = Some T"
  shows "\<exists>m'. hlist_exec op m = Inr m' \<and> hrep N H m' T"
proof (cases op)
  case (Init_Head k)
  with assms init_head_impl [OF assms(1), of k] show ?thesis by (auto split: if_splits)
next
  case (Init_Node n)
  with assms init_node_impl [OF assms(1), of n] show ?thesis by (auto split: if_splits)
next
  case (Add_Head n k)
  with assms add_head_impl show ?thesis by simp
next
  case (Add_Before n y k)
  with assms add_before_impl show ?thesis by simp
next
  case (Add_After x n k)
  with assms add_after_impl show ?thesis by simp
next
  case (Delete e k)
  with assms del_impl show ?thesis by simp
next
  case (Delete_Init e k)
  with assms del_init_impl [OF assms(1), of e k T] show ?thesis by simp
next
  case (Move_List k l)
  with assms move_list_impl [OF assms(1), of k _ l] show ?thesis by (auto split: option.splits if_splits)
qed

interpretation hlist: implements hlist_exec "hlist_spec N H" "hrep N H" for N H :: "'a set"
  by unfold_locales (rule hlist_exec_impl)

text \<open>\<open>hlist_add_fake\<close>: afterwards the node seems to be on a list, and a deletion works on it alone.\<close>

lemma hlist_add_fake_del:
  assumes "initialised m n"
  shows "\<exists>m1. hlist_add_fake m (Ptr n) = Inr m1 \<and> hlist_unhashed m1 (Ptr n) = Inr False \<and>
    hlist_del_init m1 (Ptr n) = Inr m \<and> hlist_del m1 (Ptr n) = Inr (put_node n LIST_POISON1 LIST_POISON2 m)"
proof -
  have n: "slots m (Next n) = Some NULL" "pprevs m n = Some NULL" using assms by (simp_all add: initialised_def)
  let ?m = "m\<lparr>pprevs := (pprevs m)(n \<mapsto> Ptr (Next n))\<rparr>"
  have del: "hlist_del_links ?m (Ptr n) = Inr ?m"
    using n by (auto simp: hlist_del_links_def dom_def fun_upd_idem)
  have "hlist_add_fake m (Ptr n) = Inr ?m" using n by (simp add: hlist_add_fake_def dom_def)
  moreover have u: "hlist_unhashed ?m (Ptr n) = Inr False" by (simp add: hlist_unhashed_def)
  moreover have "hlist_del_init ?m (Ptr n) = Inr m"
    using n by (auto simp: hlist_del_init_def u del INIT_HLIST_NODE_def dom_def fun_upd_idem)
  moreover have "hlist_del ?m (Ptr n) = Inr (put_node n LIST_POISON1 LIST_POISON2 m)"
    using n by (auto simp: hlist_del_def del put_node_def dom_def)
  ultimately show ?thesis by blast
qed

section \<open>Properties\<close>

text \<open>C24: On a memory of hash lists that share no node, every sequence of hash-list operations used as \<open>list.h\<close> asks (initialise
  heads and nodes, add nodes that are on no list at the front or next to a node, delete them, move a whole list to an empty
  head) runs without a bad access and does to the lists what the abstract operations do to the sequences of nodes; afterwards
  a traversal of each list visits exactly its nodes in order, \<open>hlist_empty\<close> tells whether there are any, and
  \<open>hlist_unhashed\<close> tells the nodes on a list from those initialised and on none.\<close>

theorem hlist_ops_refine:
  assumes "hrep N H m S" "run (hlist_spec N H) ops S = Some T"
  shows "\<exists>m'. exec_all hlist_exec ops m = Inr m' \<and> hrep N H m' T \<and>
    (\<forall>k xs. map_of (fst T) k = Some xs \<longrightarrow> hlist_for_each m' (Ptr k) = Some (Inr (map Ptr xs)) \<and>
       hlist_empty m' (Ptr k) = Inr (xs = []) \<and> (\<forall>x \<in> set xs. hlist_unhashed m' (Ptr x) = Inr False)) \<and>
    (\<forall>n \<in> set (snd T). hlist_unhashed m' (Ptr n) = Inr True)"
proof -
  obtain m' where m': "exec_all hlist_exec ops m = Inr m'" "hrep N H m' T"
    using hlist.impl_all [OF assms] by blast
  have "hlist_unhashed m' (Ptr n) = Inr True" if "n \<in> set (snd T)" for n
    using hrepD(4) [OF m'(2) that] by (simp add: initialised_def hlist_unhashed_def)
  with m' hlist_queries [OF hrepD(3) [OF m'(2)]] show ?thesis by blast
qed

definition sample_hmem :: "nat hmem" where
  "sample_hmem = \<lparr>slots = map_of (map (\<lambda>a. (Next a, NULL)) [0..<5] @ map (\<lambda>k. (First k, NULL)) [0..<2]),
     pprevs = map_of (map (\<lambda>a. (a, NULL)) [0..<5])\<rparr>"

definition sample_hops :: "nat hlist_op list" where
  "sample_hops = [Init_Head 0, Init_Head 1, Init_Node 4, Delete_Init 4 0, Add_Head 2 0, Add_Before 3 2 0, Add_After 2 0 0,
     Add_Head 1 0, Delete 3 0, Delete_Init 2 0, Move_List 0 1]"

theorem hlist_ops_refine_witness:
  "run (hlist_spec (set [0..<5]) (set [0..<2])) sample_hops ([], []) = Some ([(0, []), (1, [1, 0])], [2, 4]) \<and>
   (\<exists>m. exec_all hlist_exec sample_hops sample_hmem = Inr m \<and> hlist_for_each m (Ptr 1) = Some (Inr [Ptr 1, Ptr 0]) \<and>
      hlist_unhashed m (Ptr 2) = Inr True)"
proof -
  have spec: "run (hlist_spec (set [0..<5]) (set [0..<2])) sample_hops ([], []) = Some ([(0, []), (1, [1, 0])], [2, 4])"
    by code_simp
  have "hrep (set [0..<5]) (set [0..<2]) sample_hmem ([], [])"
    by (auto simp: hrep_def hdom_def happart_def hchains_def hidle_def hown_def sample_hmem_def
        dom_map_of_conv_image_fst image_image image_Un)
  from hlist_ops_refine [OF this spec] show ?thesis using spec by fastforce
qed

end
