(* ===== verification/Kernel_Traversal.thy ===== *)
theory Kernel_Traversal
  imports Kernel_HList
begin

text \<open>
  The traversal macros of \<open>list.h\<close> over entries, with the body of the loop as a parameter: forward,
  backward, from or after a given entry, and the variants that are safe against the removal of the
  entry the body is given; and those of the hash lists. A body changes a state out of which the loop
  reads the memory (\<open>mem\<close>), so that a body that relinks the list is seen by the loop. The cursor of
  the model is the address of the embedded list head: \<open>list_entry\<close> subtracts the offset of the
  member and \<open>&pos->member\<close> adds it again. Bodies run to their end (no \<open>break\<close>).
\<close>

section \<open>The loops\<close>

text \<open>
  \<open>for (pos = ...; pos != end; pos = adv(pos)) body\<close> reads the next position after the body;
  the safe loop holds it in \<open>n\<close> before the body runs. Either may run for ever, which is \<open>None\<close>.
\<close>

partial_function (option) for_loop ::
    "('p \<Rightarrow> bool) \<Rightarrow> ('s \<Rightarrow> 'p \<Rightarrow> 'p c_result) \<Rightarrow> ('p \<Rightarrow> 's \<Rightarrow> 's c_result) \<Rightarrow> 'p \<Rightarrow> 's \<Rightarrow> 's c_result option" where
  "for_loop stop adv body pos s =
     (if stop pos then Some (Inr s) else
      case body pos s of
        Inl e \<Rightarrow> Some (Inl e)
      | Inr s' \<Rightarrow> (case adv s' pos of
            Inl e \<Rightarrow> Some (Inl e)
          | Inr pos' \<Rightarrow> for_loop stop adv body pos' s'))"

partial_function (option) safe_loop ::
    "('p \<Rightarrow> bool) \<Rightarrow> ('s \<Rightarrow> 'p \<Rightarrow> 'p c_result) \<Rightarrow> ('p \<Rightarrow> 's \<Rightarrow> 's c_result) \<Rightarrow> 'p \<Rightarrow> 'p \<Rightarrow> 's \<Rightarrow> 's c_result option" where
  "safe_loop stop adv body pos n s =
     (if stop pos then Some (Inr s) else
      case body pos s of
        Inl e \<Rightarrow> Some (Inl e)
      | Inr s' \<Rightarrow> (case adv s' n of
            Inl e \<Rightarrow> Some (Inl e)
          | Inr n' \<Rightarrow> safe_loop stop adv body n n' s'))"

text \<open>The assignments that start a loop read memory as well.\<close>

definition starting :: "'p c_result \<Rightarrow> ('p \<Rightarrow> 's c_result option) \<Rightarrow> 's c_result option" where
  "starting r f = (case r of Inl e \<Rightarrow> Some (Inl e) | Inr pos \<Rightarrow> f pos)"

lemma starting_simps [simp]: "starting (Inl e) f = Some (Inl e)" "starting (Inr p) f = f p"
  by (simp_all add: starting_def)

section \<open>Traversals of lists\<close>

definition list_first_entry :: "'a list_heap \<Rightarrow> 'a ptr \<Rightarrow> 'a ptr c_result" where
  "list_first_entry h head = get_next h head"

definition list_last_entry :: "'a list_heap \<Rightarrow> 'a ptr \<Rightarrow> 'a ptr c_result" where
  "list_last_entry h head = get_prev h head"

definition list_first_entry_or_null :: "'a list_heap \<Rightarrow> 'a ptr \<Rightarrow> 'a ptr c_result" where
  "list_first_entry_or_null h head =
     c_bind (list_empty h head) (\<lambda>e. if \<not> e then list_first_entry h head else Inr NULL)"

definition list_next_entry :: "'a list_heap \<Rightarrow> 'a ptr \<Rightarrow> 'a ptr c_result" where
  "list_next_entry h pos = get_next h pos"

definition list_prev_entry :: "'a list_heap \<Rightarrow> 'a ptr \<Rightarrow> 'a ptr c_result" where
  "list_prev_entry h pos = get_prev h pos"

definition list_prepare_entry :: "'a ptr \<Rightarrow> 'a ptr \<Rightarrow> 'a ptr" where
  "list_prepare_entry pos head = (if pos \<noteq> NULL then pos else head)"

definition list_safe_reset_next :: "'a list_heap \<Rightarrow> 'a ptr \<Rightarrow> 'a ptr c_result" where
  "list_safe_reset_next h pos = list_next_entry h pos"

type_synonym ('a, 's) traversal =
  "('s \<Rightarrow> 'a list_heap) \<Rightarrow> ('a ptr \<Rightarrow> 's \<Rightarrow> 's c_result) \<Rightarrow> 'a ptr \<Rightarrow> 's \<Rightarrow> 's c_result option"

type_synonym ('a, 's) traversal_at =
  "('s \<Rightarrow> 'a list_heap) \<Rightarrow> ('a ptr \<Rightarrow> 's \<Rightarrow> 's c_result) \<Rightarrow> 'a ptr \<Rightarrow> 'a ptr \<Rightarrow> 's \<Rightarrow> 's c_result option"

definition list_for_each_entry_from :: "('a, 's) traversal_at" where
  "list_for_each_entry_from mem body pos head s =
     for_loop (\<lambda>p. p = head) (\<lambda>s. list_next_entry (mem s)) body pos s"

definition list_for_each_entry :: "('a, 's) traversal" where
  "list_for_each_entry mem body head s =
     starting (list_first_entry (mem s) head) (\<lambda>pos.
       for_loop (\<lambda>p. p = head) (\<lambda>s. list_next_entry (mem s)) body pos s)"

definition list_for_each_entry_reverse :: "('a, 's) traversal" where
  "list_for_each_entry_reverse mem body head s =
     starting (list_last_entry (mem s) head) (\<lambda>pos.
       for_loop (\<lambda>p. p = head) (\<lambda>s. list_prev_entry (mem s)) body pos s)"

definition list_for_each_entry_continue :: "('a, 's) traversal_at" where
  "list_for_each_entry_continue mem body pos head s =
     starting (list_next_entry (mem s) pos) (\<lambda>pos.
       for_loop (\<lambda>p. p = head) (\<lambda>s. list_next_entry (mem s)) body pos s)"

definition list_for_each_entry_continue_reverse :: "('a, 's) traversal_at" where
  "list_for_each_entry_continue_reverse mem body pos head s =
     starting (list_prev_entry (mem s) pos) (\<lambda>pos.
       for_loop (\<lambda>p. p = head) (\<lambda>s. list_prev_entry (mem s)) body pos s)"

definition list_for_each_safe :: "('a, 's) traversal" where
  "list_for_each_safe mem body head s =
     starting (get_next (mem s) head) (\<lambda>pos.
     starting (get_next (mem s) pos) (\<lambda>n.
       safe_loop (\<lambda>p. p = head) (\<lambda>s. get_next (mem s)) body pos n s))"

definition list_for_each_prev_safe :: "('a, 's) traversal" where
  "list_for_each_prev_safe mem body head s =
     starting (get_prev (mem s) head) (\<lambda>pos.
     starting (get_prev (mem s) pos) (\<lambda>n.
       safe_loop (\<lambda>p. p = head) (\<lambda>s. get_prev (mem s)) body pos n s))"

definition list_for_each_entry_safe :: "('a, 's) traversal" where
  "list_for_each_entry_safe mem body head s =
     starting (list_first_entry (mem s) head) (\<lambda>pos.
     starting (list_next_entry (mem s) pos) (\<lambda>n.
       safe_loop (\<lambda>p. p = head) (\<lambda>s. list_next_entry (mem s)) body pos n s))"

definition list_for_each_entry_safe_continue :: "('a, 's) traversal_at" where
  "list_for_each_entry_safe_continue mem body pos head s =
     starting (list_next_entry (mem s) pos) (\<lambda>pos.
     starting (list_next_entry (mem s) pos) (\<lambda>n.
       safe_loop (\<lambda>p. p = head) (\<lambda>s. list_next_entry (mem s)) body pos n s))"

definition list_for_each_entry_safe_from :: "('a, 's) traversal_at" where
  "list_for_each_entry_safe_from mem body pos head s =
     starting (list_next_entry (mem s) pos) (\<lambda>n.
       safe_loop (\<lambda>p. p = head) (\<lambda>s. list_next_entry (mem s)) body pos n s)"

definition list_for_each_entry_safe_reverse :: "('a, 's) traversal" where
  "list_for_each_entry_safe_reverse mem body head s =
     starting (list_last_entry (mem s) head) (\<lambda>pos.
     starting (list_prev_entry (mem s) pos) (\<lambda>n.
       safe_loop (\<lambda>p. p = head) (\<lambda>s. list_prev_entry (mem s)) body pos n s))"

lemma entry_defs:
  "list_first_entry = get_next" "list_last_entry = get_prev" "list_next_entry = get_next" "list_prev_entry = get_prev"
  by (intro ext; simp add: list_first_entry_def list_last_entry_def list_next_entry_def list_prev_entry_def)+

section \<open>Traversals of hash lists\<close>

text \<open>
  The entry variants apply \<open>hlist_entry_safe\<close>, which leaves a null pointer alone. The safe loop
  reads the next node as part of its test, and only at a node.
\<close>

definition hlist_next :: "'a hmem \<Rightarrow> 'a ptr \<Rightarrow> 'a ptr c_result" where
  "hlist_next m pos = get_slot m (next_of pos)"

partial_function (option) hlist_safe_loop ::
    "('s \<Rightarrow> 'a hmem) \<Rightarrow> ('a ptr \<Rightarrow> 's \<Rightarrow> 's c_result) \<Rightarrow> 'a ptr \<Rightarrow> 's \<Rightarrow> 's c_result option" where
  "hlist_safe_loop mem body pos s =
     (if pos = NULL then Some (Inr s) else
      case hlist_next (mem s) pos of
        Inl e \<Rightarrow> Some (Inl e)
      | Inr n \<Rightarrow> (case body pos s of
            Inl e \<Rightarrow> Some (Inl e)
          | Inr s' \<Rightarrow> hlist_safe_loop mem body n s'))"

definition hlist_for_each_safe ::
    "('s \<Rightarrow> 'a hmem) \<Rightarrow> ('a ptr \<Rightarrow> 's \<Rightarrow> 's c_result) \<Rightarrow> 'a ptr \<Rightarrow> 's \<Rightarrow> 's c_result option" where
  "hlist_for_each_safe mem body head s =
     starting (get_slot (mem s) (first_of head)) (\<lambda>pos. hlist_safe_loop mem body pos s)"

definition hlist_entry_safe :: "'a ptr \<Rightarrow> 'a ptr" where
  "hlist_entry_safe p = (if p \<noteq> NULL then p else NULL)"

definition hlist_for_each_entry_from ::
    "('s \<Rightarrow> 'a hmem) \<Rightarrow> ('a ptr \<Rightarrow> 's \<Rightarrow> 's c_result) \<Rightarrow> 'a ptr \<Rightarrow> 's \<Rightarrow> 's c_result option" where
  "hlist_for_each_entry_from mem body pos s =
     for_loop (\<lambda>p. p = NULL) (\<lambda>s p. c_bind (hlist_next (mem s) p) (\<lambda>n. Inr (hlist_entry_safe n))) body pos s"

definition hlist_for_each_entry ::
    "('s \<Rightarrow> 'a hmem) \<Rightarrow> ('a ptr \<Rightarrow> 's \<Rightarrow> 's c_result) \<Rightarrow> 'a ptr \<Rightarrow> 's \<Rightarrow> 's c_result option" where
  "hlist_for_each_entry mem body head s =
     starting (get_slot (mem s) (first_of head)) (\<lambda>pos. hlist_for_each_entry_from mem body (hlist_entry_safe pos) s)"

definition hlist_for_each_entry_continue ::
    "('s \<Rightarrow> 'a hmem) \<Rightarrow> ('a ptr \<Rightarrow> 's \<Rightarrow> 's c_result) \<Rightarrow> 'a ptr \<Rightarrow> 's \<Rightarrow> 's c_result option" where
  "hlist_for_each_entry_continue mem body pos s =
     starting (hlist_next (mem s) pos) (\<lambda>pos. hlist_for_each_entry_from mem body (hlist_entry_safe pos) s)"

definition hlist_for_each_entry_safe ::
    "('s \<Rightarrow> 'a hmem) \<Rightarrow> ('a ptr \<Rightarrow> 's \<Rightarrow> 's c_result) \<Rightarrow> 'a ptr \<Rightarrow> 's \<Rightarrow> 's c_result option" where
  "hlist_for_each_entry_safe mem body head s =
     starting (get_slot (mem s) (first_of head)) (\<lambda>pos. hlist_safe_loop mem body (hlist_entry_safe pos) s)"

lemma hlist_entry_safe_id [simp]: "hlist_entry_safe p = p"
  by (simp add: hlist_entry_safe_def)

section \<open>Loops along a path\<close>

text \<open>
  What a loop over a structure relies on: \<open>shape s xs\<close> says that the state holds the entries \<open>xs\<close>,
  in the order in which \<open>adv\<close> visits them, before the end position \<open>fin\<close>.
\<close>

locale cursor =
  fixes adv :: "'s \<Rightarrow> 'a ptr \<Rightarrow> 'a ptr c_result"
    and fin :: "'a ptr"
    and shape :: "'s \<Rightarrow> 'a list \<Rightarrow> bool"
  assumes adv_entry: "shape s (xs @ x # ys) \<Longrightarrow> adv s (Ptr x) = Inr (hd (map Ptr ys @ [fin]))"
    and entry_not_fin: "shape s xs \<Longrightarrow> fin \<notin> Ptr ` set xs"
    and entries_distinct: "shape s xs \<Longrightarrow> distinct xs"
begin

lemma for_loop_visits:
  assumes "shape s (ds @ xs)"
    and "\<And>x s s'. x \<in> set xs \<Longrightarrow> shape s (ds @ xs) \<Longrightarrow> body (Ptr x) s = Inr s' \<Longrightarrow> shape s' (ds @ xs)"
  shows "for_loop (\<lambda>p. p = fin) adv body (hd (map Ptr xs @ [fin])) s = Some (exec_all body (map Ptr xs) s)"
  using assms
proof (induction xs arbitrary: s ds)
  case Nil
  show ?case by (subst for_loop.simps) simp
next
  case (Cons x xs)
  have x: "Ptr x \<noteq> fin" using entry_not_fin [OF Cons.prems(1)] by auto
  show ?case
  proof (cases "body (Ptr x) s")
    case (Inr s1)
    have s1: "shape s1 (ds @ x # xs)" by (rule Cons.prems(2) [OF _ Cons.prems(1) Inr]) simp
    have "for_loop (\<lambda>p. p = fin) adv body (hd (map Ptr xs @ [fin])) s1 = Some (exec_all body (map Ptr xs) s1)"
    proof (rule Cons.IH [of s1 "ds @ [x]"])
      show "shape t' ((ds @ [x]) @ xs)" if "y \<in> set xs" "shape t ((ds @ [x]) @ xs)" "body (Ptr y) t = Inr t'" for y t t'
        using Cons.prems(2) [of y t t'] that by simp
    qed (use s1 in simp)
    then show ?thesis using x Inr adv_entry [OF s1] by (subst for_loop.simps) simp
  qed (use x in \<open>subst for_loop.simps, simp\<close>)
qed

end

text \<open>
  The safe loop also reads one position past the end, and lets the body take out the entry it is
  given: \<open>P\<close> says which entries the body takes out.
\<close>

definition without :: "('a \<Rightarrow> bool) \<Rightarrow> 'a \<Rightarrow> 'a list \<Rightarrow> 'a list" where
  "without P x xs = (if P x then filter (\<lambda>y. y \<noteq> x) xs else xs)"

definition removes :: "('s \<Rightarrow> 'a list \<Rightarrow> bool) \<Rightarrow> ('a \<Rightarrow> bool) \<Rightarrow> ('a ptr \<Rightarrow> 's \<Rightarrow> 's c_result) \<Rightarrow> bool" where
  "removes shape P body \<longleftrightarrow>
     (\<forall>s xs x. shape s xs \<longrightarrow> x \<in> set xs \<longrightarrow> (\<exists>s'. body (Ptr x) s = Inr s' \<and> shape s' (without P x xs)))"

lemma without_split:
  "distinct (ds @ x # xs) \<Longrightarrow> without P x (ds @ x # xs) = (ds @ (if P x then [] else [x])) @ xs"
  by (auto simp: without_def intro!: arg_cong2 [where f = "(@)"] filter_True)

locale safe_cursor = cursor +
  assumes adv_fin: "shape s xs \<Longrightarrow> \<exists>p. adv s fin = Inr p"
begin

lemma adv_hd:
  assumes "shape s (ds @ xs)"
  shows "\<exists>p. adv s (hd (map Ptr xs @ [fin])) = Inr p \<and> (xs \<noteq> [] \<longrightarrow> p = hd (map Ptr (tl xs) @ [fin]))"
  using assms adv_entry adv_fin by (cases xs) fastforce+

lemma safe_loop_removes:
  assumes "removes shape P body" "shape s (ds @ xs)" "xs \<noteq> [] \<longrightarrow> n = hd (map Ptr (tl xs) @ [fin])"
  shows "\<exists>s'. safe_loop (\<lambda>p. p = fin) adv body (hd (map Ptr xs @ [fin])) n s = Some (Inr s') \<and>
     exec_all body (map Ptr xs) s = Inr s' \<and> shape s' (ds @ filter (\<lambda>x. \<not> P x) xs)"
  using assms(2,3)
proof (induction xs arbitrary: s ds n)
  case Nil
  then show ?case by (subst safe_loop.simps) simp
next
  case (Cons x xs)
  have x: "Ptr x \<noteq> fin" using entry_not_fin [OF Cons.prems(1)] by auto
  let ?ds = "ds @ (if P x then [] else [x])"
  obtain s1 where s1: "body (Ptr x) s = Inr s1" "shape s1 (?ds @ xs)"
    using assms(1) Cons.prems(1) without_split [OF entries_distinct [OF Cons.prems(1)]] unfolding removes_def
    by (metis in_set_conv_decomp)
  obtain p where p: "adv s1 (hd (map Ptr xs @ [fin])) = Inr p" "xs \<noteq> [] \<longrightarrow> p = hd (map Ptr (tl xs) @ [fin])"
    using adv_hd [OF s1(2)] by blast
  from Cons.IH [OF s1(2) p(2)] s1(1) x p(1) Cons.prems(2) show ?case
    by (subst safe_loop.simps) auto
qed

end

section \<open>The three kinds of list\<close>

lemma forward_entry: "is_list h head (xs @ x # ys) \<Longrightarrow> get_next h (Ptr x) = Inr (hd (map Ptr ys @ [Ptr head]))"
  using is_list_first [of h x "ys @ head # xs"] is_list_rotate [of h head xs x ys] by (cases ys) auto

lemma backward_entry:
  "is_list h head (rev (xs @ x # ys)) \<Longrightarrow> get_prev h (Ptr x) = Inr (hd (map Ptr ys @ [Ptr head]))"
  using is_list_last [of h x "rev xs @ head # rev ys"] is_list_rotate [of h head "rev ys" x "rev xs"]
  by (cases ys) auto

interpretation forward: safe_cursor "\<lambda>s. list_next_entry (mem s)" "Ptr head" "\<lambda>s xs. is_list (mem s) head xs \<and> I s xs"
  for mem :: "'s \<Rightarrow> 'a list_heap" and head :: 'a and I :: "'s \<Rightarrow> 'a list \<Rightarrow> bool"
proof
  show "\<exists>p. list_next_entry (mem s) (Ptr head) = Inr p" if "is_list (mem s) head xs \<and> I s xs" for s xs
    using is_list_first that by (fastforce simp: entry_defs)
qed (auto simp: forward_entry entry_defs is_list_def)

interpretation backward: safe_cursor "\<lambda>s. list_prev_entry (mem s)" "Ptr head" "\<lambda>s xs. is_list (mem s) head (rev xs) \<and> I s xs"
  for mem :: "'s \<Rightarrow> 'a list_heap" and head :: 'a and I :: "'s \<Rightarrow> 'a list \<Rightarrow> bool"
proof
  show "\<exists>p. list_prev_entry (mem s) (Ptr head) = Inr p" if "is_list (mem s) head (rev xs) \<and> I s xs" for s xs
    using is_list_last that by (fastforce simp: entry_defs)
  show "list_prev_entry (mem s) (Ptr x) = Inr (hd (map Ptr ys @ [Ptr head]))"
    if "is_list (mem s) head (rev (xs @ x # ys)) \<and> I s (xs @ x # ys)" for s xs x ys
    using backward_entry [of "mem s" head xs x ys] that by (simp add: entry_defs)
qed (auto simp: is_list_def)

interpretation hashed: cursor "\<lambda>s p. c_bind (hlist_next (mem s) p) (\<lambda>n. Inr (hlist_entry_safe n))" NULL
    "\<lambda>s xs. chain (mem s) (First k) xs \<and> distinct xs"
  for mem :: "'s \<Rightarrow> 'a hmem" and k :: 'a
proof
  show "c_bind (hlist_next (mem s) (Ptr x)) (\<lambda>n. Inr (hlist_entry_safe n)) = Inr (hd (map Ptr ys @ [NULL]))"
    if "chain (mem s) (First k) (xs @ x # ys) \<and> distinct (xs @ x # ys)" for s xs x ys
    using that chain_slot [of "mem s" "Next x" ys] by (cases ys) (auto simp: hlist_next_def chain_append)
qed auto

text \<open>
  A safe traversal whose body removes the cell it is given: it visits the cells in order and
  leaves the empty list. The body's effect on the rest of the state is a parameter.
\<close>

lemma list_for_each_safe_ok:
  assumes L: "is_list (mem s) head xs" and I: "I xs s"
    and body: "\<And>y ys s. is_list (mem s) head (y # ys) \<Longrightarrow> I (y # ys) s \<Longrightarrow>
       \<exists>s'. body (Ptr y) s = Inr s' \<and> is_list (mem s') head ys \<and> I ys s'"
  shows "\<exists>s'. list_for_each_safe mem body (Ptr head) s = Some (Inr s') \<and> is_list (mem s') head [] \<and> I [] s'"
proof -
  have loop: "\<exists>s'. safe_loop (\<lambda>p. p = Ptr head) (\<lambda>s. get_next (mem s)) body (Ptr (hd (xs @ [head]))) n s = Some (Inr s')
      \<and> is_list (mem s') head [] \<and> I [] s'"
    if "is_list (mem s) head xs" "I xs s" "xs \<noteq> [] \<Longrightarrow> n = Ptr (hd (tl xs @ [head]))" for n s
    using that
  proof (induction xs arbitrary: s n)
    case Nil
    then show ?case by (subst safe_loop.simps) simp
  next
    case (Cons y ys)
    obtain s1 where s1: "body (Ptr y) s = Inr s1" "is_list (mem s1) head ys" "I ys s1"
      using body [OF Cons.prems(1,2)] by blast
    have y: "y \<noteq> head" "n = Ptr (hd (ys @ [head]))" using Cons.prems by (auto simp: is_list_def)
    obtain m where m: "nx (mem s1) (hd (ys @ [head])) = Some m" "ys \<noteq> [] \<Longrightarrow> m = Ptr (hd (tl ys @ [head]))"
      using s1(2) by (cases ys) (auto simp: is_list_def linked_Cons)
    from Cons.IH [OF s1(2,3) m(2)] s1(1) y m(1) show ?case
      by (subst safe_loop.simps) simp
  qed
  obtain m where m: "nx (mem s) (hd (xs @ [head])) = Some m" "xs \<noteq> [] \<Longrightarrow> m = Ptr (hd (tl xs @ [head]))"
    using L by (cases xs) (auto simp: is_list_def linked_Cons)
  from loop [OF L I m(2)] is_list_first [OF L] m(1) show ?thesis by (simp add: list_for_each_safe_def)
qed

lemma list_for_each_entry_safe_eq: "list_for_each_entry_safe = list_for_each_safe"
  by (intro ext) (simp add: list_for_each_entry_safe_def list_for_each_safe_def entry_defs)

section \<open>What the traversals of lists visit\<close>

text \<open>A body that only reads the list.\<close>

definition reads_only :: "('s \<Rightarrow> 'm) \<Rightarrow> ('a ptr \<Rightarrow> 's \<Rightarrow> 's c_result) \<Rightarrow> bool" where
  "reads_only mem body \<longleftrightarrow> (\<forall>p s s'. body p s = Inr s' \<longrightarrow> mem s' = mem s)"

lemma reads_onlyD: "reads_only mem body \<Longrightarrow> body p s = Inr s' \<Longrightarrow> mem s' = mem s"
  by (simp add: reads_only_def)

lemma forward_visits:
  assumes "is_list (mem s) head (ds @ xs)" "reads_only mem body"
  shows "for_loop (\<lambda>p. p = Ptr head) (\<lambda>s. list_next_entry (mem s)) body (hd (map Ptr xs @ [Ptr head])) s
     = Some (exec_all body (map Ptr xs) s)"
  by (rule forward.for_loop_visits [where mem = mem and I = "\<lambda>_ _. True" and ds = ds]) (use assms in \<open>auto dest: reads_onlyD\<close>)

lemma backward_visits:
  assumes "is_list (mem s) head (xs @ ds)" "reads_only mem body"
  shows "for_loop (\<lambda>p. p = Ptr head) (\<lambda>s. list_prev_entry (mem s)) body (hd (map Ptr (rev xs) @ [Ptr head])) s
     = Some (exec_all body (map Ptr (rev xs)) s)"
  by (rule backward.for_loop_visits [where mem = mem and I = "\<lambda>_ _. True" and ds = "rev ds"]) (use assms in \<open>auto dest: reads_onlyD\<close>)

lemma list_ends:
  assumes "is_list h head xs"
  shows "list_first_entry h (Ptr head) = Inr (hd (map Ptr xs @ [Ptr head]))"
    and "list_last_entry h (Ptr head) = Inr (hd (map Ptr (rev xs) @ [Ptr head]))"
  using is_list_first [OF assms] is_list_last [OF assms]
  by (cases xs, auto simp: entry_defs) (cases xs rule: rev_cases, auto simp: entry_defs)

lemma list_for_each_entry_ok:
  "is_list (mem s) head xs \<Longrightarrow> reads_only mem body \<Longrightarrow>
     list_for_each_entry mem body (Ptr head) s = Some (exec_all body (map Ptr xs) s)"
  using forward_visits [of mem s head "[]" xs body] by (simp add: list_for_each_entry_def list_ends)

lemma list_for_each_entry_reverse_ok:
  "is_list (mem s) head xs \<Longrightarrow> reads_only mem body \<Longrightarrow>
     list_for_each_entry_reverse mem body (Ptr head) s = Some (exec_all body (map Ptr (rev xs)) s)"
  using backward_visits [of mem s head xs "[]" body] by (simp add: list_for_each_entry_reverse_def list_ends)

lemma list_for_each_entry_at_ok:
  assumes "is_list (mem s) head (ds @ e # xs)" "reads_only mem body"
  shows "list_for_each_entry_from mem body (Ptr e) (Ptr head) s = Some (exec_all body (map Ptr (e # xs)) s)"
    and "list_for_each_entry_continue mem body (Ptr e) (Ptr head) s = Some (exec_all body (map Ptr xs) s)"
    and "list_for_each_entry_continue_reverse mem body (Ptr e) (Ptr head) s = Some (exec_all body (map Ptr (rev ds)) s)"
proof -
  show "list_for_each_entry_from mem body (Ptr e) (Ptr head) s = Some (exec_all body (map Ptr (e # xs)) s)"
    using forward_visits [of mem s head ds "e # xs" body] assms by (simp add: list_for_each_entry_from_def)
  show "list_for_each_entry_continue mem body (Ptr e) (Ptr head) s = Some (exec_all body (map Ptr xs) s)"
    using forward_visits [of mem s head "ds @ [e]" xs body] forward_entry [OF assms(1)] assms
    by (simp add: list_for_each_entry_continue_def entry_defs)
  show "list_for_each_entry_continue_reverse mem body (Ptr e) (Ptr head) s = Some (exec_all body (map Ptr (rev ds)) s)"
    using backward_visits [of mem s head ds "e # xs" body] backward_entry [of "mem s" head "rev xs" e "rev ds"] assms
    by (simp add: list_for_each_entry_continue_reverse_def entry_defs)
qed

lemma list_for_each_entry_at_head:
  assumes "is_list (mem s) head xs" "reads_only mem body"
  shows "list_for_each_entry_continue mem body (list_prepare_entry NULL (Ptr head)) (Ptr head) s
     = Some (exec_all body (map Ptr xs) s)"
  using list_for_each_entry_ok [OF assms]
  by (simp add: list_for_each_entry_continue_def list_for_each_entry_def list_prepare_entry_def entry_defs)

lemma list_first_entry_or_null_ok:
  "is_list h head xs \<Longrightarrow> list_first_entry_or_null h (Ptr head) = Inr (hd (map Ptr xs @ [NULL]))"
  by (cases xs) (auto simp: list_first_entry_or_null_def list_tests(1) list_ends)

section \<open>Removing entries during a traversal\<close>

lemma list_for_each_entry_safe_removes:
  assumes "removes (\<lambda>s xs. is_list (mem s) head xs \<and> I s xs) P body" "is_list (mem s) head xs" "I s xs"
  shows "\<exists>s'. list_for_each_entry_safe mem body (Ptr head) s = Some (Inr s') \<and>
     exec_all body (map Ptr xs) s = Inr s' \<and> is_list (mem s') head (filter (\<lambda>x. \<not> P x) xs) \<and> I s' (filter (\<lambda>x. \<not> P x) xs)"
proof -
  obtain n where n: "list_next_entry (mem s) (hd (map Ptr xs @ [Ptr head])) = Inr n"
      "xs \<noteq> [] \<longrightarrow> n = hd (map Ptr (tl xs) @ [Ptr head])"
    using forward.adv_hd [where I = I and mem = mem and ds = "[]"] assms by fastforce
  with forward.safe_loop_removes [OF assms(1), of s "[]" xs n] assms(2,3) show ?thesis
    by (auto simp: list_for_each_entry_safe_def list_ends)
qed

lemma list_for_each_entry_safe_reverse_removes:
  assumes "removes (\<lambda>s xs. is_list (mem s) head (rev xs) \<and> I s xs) P body" "is_list (mem s) head xs" "I s (rev xs)"
  shows "\<exists>s'. list_for_each_entry_safe_reverse mem body (Ptr head) s = Some (Inr s') \<and>
     list_for_each_prev_safe mem body (Ptr head) s = Some (Inr s') \<and>
     exec_all body (map Ptr (rev xs)) s = Inr s' \<and> is_list (mem s') head (filter (\<lambda>x. \<not> P x) xs) \<and>
     I s' (rev (filter (\<lambda>x. \<not> P x) xs))"
proof -
  obtain n where n: "list_prev_entry (mem s) (hd (map Ptr (rev xs) @ [Ptr head])) = Inr n"
      "rev xs \<noteq> [] \<longrightarrow> n = hd (map Ptr (tl (rev xs)) @ [Ptr head])"
    using backward.adv_hd [where I = I and mem = mem and ds = "[]" and xs = "rev xs"] assms by fastforce
  with backward.safe_loop_removes [OF assms(1), of s "[]" "rev xs" n] assms(2,3) list_ends(2) [OF assms(2)] show ?thesis
    by (auto simp: list_for_each_entry_safe_reverse_def list_for_each_prev_safe_def entry_defs rev_filter)
qed

lemma list_for_each_entry_safe_at_removes:
  assumes R: "removes (\<lambda>s xs. is_list (mem s) head xs \<and> I s xs) P body" and L: "is_list (mem s) head (ds @ e # xs)" "I s (ds @ e # xs)"
  shows "\<exists>s'. list_for_each_entry_safe_from mem body (Ptr e) (Ptr head) s = Some (Inr s') \<and>
     exec_all body (map Ptr (e # xs)) s = Inr s' \<and> is_list (mem s') head (ds @ filter (\<lambda>x. \<not> P x) (e # xs))"
    and "\<exists>s'. list_for_each_entry_safe_continue mem body (Ptr e) (Ptr head) s = Some (Inr s') \<and>
     exec_all body (map Ptr xs) s = Inr s' \<and> is_list (mem s') head (ds @ e # filter (\<lambda>x. \<not> P x) xs)"
proof -
  note e = forward_entry [OF L(1)]
  show "\<exists>s'. list_for_each_entry_safe_from mem body (Ptr e) (Ptr head) s = Some (Inr s') \<and>
     exec_all body (map Ptr (e # xs)) s = Inr s' \<and> is_list (mem s') head (ds @ filter (\<lambda>x. \<not> P x) (e # xs))"
    using forward.safe_loop_removes [OF R, of s ds "e # xs"] L e
    by (fastforce simp: list_for_each_entry_safe_from_def entry_defs)
  obtain n where n: "list_next_entry (mem s) (hd (map Ptr xs @ [Ptr head])) = Inr n"
      "xs \<noteq> [] \<longrightarrow> n = hd (map Ptr (tl xs) @ [Ptr head])"
    using forward.adv_hd [where I = I and mem = mem and ds = "ds @ [e]"] L by fastforce
  with forward.safe_loop_removes [OF R, of s "ds @ [e]" xs n] L e
  show "\<exists>s'. list_for_each_entry_safe_continue mem body (Ptr e) (Ptr head) s = Some (Inr s') \<and>
     exec_all body (map Ptr xs) s = Inr s' \<and> is_list (mem s') head (ds @ e # filter (\<lambda>x. \<not> P x) xs)"
    by (auto simp: list_for_each_entry_safe_continue_def entry_defs)
qed

text \<open>A body that looks at the entry and takes it off the list in some cases.\<close>

fun delete_if :: "('a \<Rightarrow> bool) \<Rightarrow> 'a ptr \<Rightarrow> 'a list_heap \<Rightarrow> 'a list_heap c_result" where
  "delete_if P (Ptr x) h = (if P x then list_del h (Ptr x) else Inr h)"
| "delete_if P p h = Inl Bad_Pointer"

lemma list_del_poisons: "list_del h (Ptr e) = Inr h' \<Longrightarrow> get_next h' (Ptr e) = Inr LIST_POISON1"
  by (auto simp: list_del_def c_bind_Inr_iff set_next_def set_prev_def get_next_def deref_def store_def
      split: option.splits)

lemma delete_if_without:
  assumes "is_list h head xs" "x \<in> set xs"
  shows "\<exists>h'. delete_if P (Ptr x) h = Inr h' \<and> is_list h' head (without P x xs) \<and> only_changes (set (head # xs)) h h'"
proof -
  obtain ds ys where xs: "xs = ds @ x # ys" using split_list [OF assms(2)] by blast
  have d: "distinct (ds @ x # ys)" using assms(1) xs by (simp add: is_list_def)
  show ?thesis using list_del_ok [of h head ds x ys] assms(1) without_split [OF d, of P]
    by (auto simp: xs)
qed

definition within :: "'a set \<Rightarrow> 'a list_heap \<Rightarrow> 'a list_heap \<Rightarrow> 'a list \<Rightarrow> bool" where
  "within A h h' xs \<longleftrightarrow> only_changes A h h' \<and> set xs \<subseteq> A"

lemma delete_if_removes:
  assumes "head \<in> A"
  shows "removes (\<lambda>h' xs. is_list (id h') head xs \<and> within A h h' xs) P (delete_if P)"
    and "removes (\<lambda>h' xs. is_list (id h') head (rev xs) \<and> within A h h' xs) P (delete_if P)"
proof -
  have *: "\<exists>h2. delete_if P (Ptr x) h1 = Inr h2 \<and> is_list h2 head (without P x xs) \<and> only_changes A h h2"
    if L: "is_list h1 head xs" "x \<in> set xs" and W: "only_changes A h h1" "set xs \<subseteq> A" for h1 xs x
    using delete_if_without [OF L, of P] only_changes_mono [of "set (head # xs)" h1 _ A] only_changes_trans [OF W(1)] W(2) assms
    by (metis insert_subset list.simps(15))
  have sub: "set (without P x xs) \<subseteq> set xs" and rv: "without P x (rev xs) = rev (without P x xs)" for x and xs :: "'a list"
    by (auto simp: without_def rev_filter)
  show "removes (\<lambda>h' xs. is_list (id h') head xs \<and> within A h h' xs) P (delete_if P)"
    using * sub unfolding removes_def within_def by (metis id_apply subset_trans)
  show "removes (\<lambda>h' xs. is_list (id h') head (rev xs) \<and> within A h h' xs) P (delete_if P)"
    using * sub rv unfolding removes_def within_def by (metis id_apply subset_trans set_rev)
qed

text \<open>Up to the first entry that is taken off the plain loop keeps the list; then it follows a poisoned pointer.\<close>

lemma for_loop_delete_if:
  assumes "is_list h head (ds @ xs @ e # ys)" "\<forall>x \<in> set xs. \<not> P x" "P e"
  shows "for_loop (\<lambda>p. p = Ptr head) (\<lambda>s. list_next_entry (id s)) (delete_if P) (Ptr (hd (xs @ [e]))) h = Some (Inl Bad_Pointer)"
  using assms(1,2)
proof (induction xs arbitrary: ds)
  case Nil
  obtain h' where h': "list_del h (Ptr e) = Inr h'" using list_del_ok [of h head ds e ys] Nil.prems by auto
  have "e \<noteq> head" using Nil.prems by (auto simp: is_list_def)
  moreover have "for_loop (\<lambda>p. p = Ptr head) (\<lambda>s. list_next_entry (id s)) (delete_if P) LIST_POISON1 h' = Some (Inl Bad_Pointer)"
    by (subst for_loop.simps) simp
  ultimately show ?case using h' assms(3) list_del_poisons [OF h'] by (subst for_loop.simps) (simp add: entry_defs)
next
  case (Cons x xs)
  have "x \<noteq> head" using Cons.prems by (auto simp: is_list_def)
  moreover have "get_next h (Ptr x) = Inr (Ptr (hd (xs @ [e])))"
    using forward_entry [of h head ds x "xs @ e # ys"] Cons.prems(1) by (cases xs) auto
  moreover note Cons.IH [of "ds @ [x]"]
  ultimately show ?case using Cons.prems by (subst for_loop.simps) (simp add: entry_defs)
qed

text \<open>C23: A safe traversal whose body takes entries off the list, forwards or backwards, visits every
  entry, ends, and leaves exactly the entries that the body keeps, in their order, with no cell
  outside the list touched; the plain traversal with the same body follows the poisoned pointer of
  the first entry taken off.\<close>

theorem safe_traversals_remove:
  assumes L: "is_list h head xs"
  shows "\<exists>h1 h2. list_for_each_entry_safe id (delete_if P) (Ptr head) h = Some (Inr h1) \<and>
     list_for_each_entry_safe_reverse id (delete_if P) (Ptr head) h = Some (Inr h2) \<and>
     (\<forall>h' \<in> {h1, h2}. is_list h' head (filter (\<lambda>x. \<not> P x) xs) \<and> only_changes (set (head # xs)) h h') \<and>
     list_for_each_entry id (delete_if P) (Ptr head) h =
       Some (if \<exists>x \<in> set xs. P x then Inl Bad_Pointer else Inr h)"
proof -
  let ?I = "within (set (head # xs)) h"
  have I: "?I h xs" "?I h (rev xs)" by (auto simp: within_def)
  have A: "head \<in> set (head # xs)" by simp
  note F = list_for_each_entry_safe_removes [where mem = id, OF delete_if_removes(1) [OF A] _ I(1), simplified, OF L]
  note B = list_for_each_entry_safe_reverse_removes [where mem = id, OF delete_if_removes(2) [OF A] _ I(2), simplified, OF L]
  have "list_for_each_entry id (delete_if P) (Ptr head) h = Some (if \<exists>x \<in> set xs. P x then Inl Bad_Pointer else Inr h)"
  proof (cases "\<exists>x \<in> set xs. P x")
    case True
    then obtain ys e zs where xs: "xs = ys @ e # zs" "P e" "\<forall>y \<in> set ys. \<not> P y" by (metis split_list_first_prop)
    have "hd (map Ptr xs @ [Ptr head]) = Ptr (hd (ys @ [e]))" using xs(1) by (cases ys) auto
    with True list_ends(1) [OF L] for_loop_delete_if [of h head "[]" ys e zs P] L xs show ?thesis
      by (simp add: list_for_each_entry_def)
  next
    case False
    then have keep: "exec_all (delete_if P) (map Ptr ys) h = Inr h" if "set ys \<subseteq> set xs" for ys
      using that by (induction ys) auto
    have "for_loop (\<lambda>p. p = Ptr head) (\<lambda>s. list_next_entry (id s)) (delete_if P) (hd (map Ptr xs @ [Ptr head])) h
       = Some (exec_all (delete_if P) (map Ptr xs) h)"
      by (rule forward.for_loop_visits [where ds = "[]" and I = "\<lambda>s _. s = h"]) (use L False in auto)
    then show ?thesis using False keep [of xs] list_ends(1) [OF L] by (simp add: list_for_each_entry_def)
  qed
  with F [of P] B [of P] show ?thesis by (auto simp: within_def)
qed

definition ring_of_three :: "nat list_heap" where
  "ring_of_three = [0 \<mapsto> \<lparr>lnext = Ptr 1, lprev = Ptr 3\<rparr>, 1 \<mapsto> \<lparr>lnext = Ptr 2, lprev = Ptr 0\<rparr>,
     2 \<mapsto> \<lparr>lnext = Ptr 3, lprev = Ptr 1\<rparr>, 3 \<mapsto> \<lparr>lnext = Ptr 0, lprev = Ptr 2\<rparr>]"

lemma ring_of_three: "is_list ring_of_three 0 [1, 2, 3]"
  by (simp add: is_list_def nx_def pv_def ring_of_three_def)

theorem safe_traversals_remove_witness:
  "is_list ring_of_three 0 [1, 2, 3] \<and>
   (\<exists>h. list_for_each_entry_safe id (delete_if odd) (Ptr 0) ring_of_three = Some (Inr h) \<and> is_list h 0 [2]) \<and>
   list_for_each_entry id (delete_if odd) (Ptr 0) ring_of_three = Some (Inl Bad_Pointer)"
  using safe_traversals_remove [OF ring_of_three, of odd] ring_of_three by auto

text \<open>The traversals whose body only reads visit what they say, in the order they say.\<close>

lemma traversals_visit:
  assumes "is_list (mem s) head (ds @ e # xs)" "reads_only mem body"
  shows "list_for_each_entry mem body (Ptr head) s = Some (exec_all body (map Ptr (ds @ e # xs)) s) \<and>
     list_for_each_entry_reverse mem body (Ptr head) s = Some (exec_all body (map Ptr (rev xs @ e # rev ds)) s) \<and>
     list_for_each_entry_from mem body (Ptr e) (Ptr head) s = Some (exec_all body (map Ptr (e # xs)) s) \<and>
     list_for_each_entry_continue mem body (Ptr e) (Ptr head) s = Some (exec_all body (map Ptr xs) s) \<and>
     list_for_each_entry_continue_reverse mem body (Ptr e) (Ptr head) s = Some (exec_all body (map Ptr (rev ds)) s)"
  using list_for_each_entry_ok [OF assms] list_for_each_entry_reverse_ok [OF assms] list_for_each_entry_at_ok [OF assms]
  by simp

section \<open>Traversals of hash lists visit and remove alike\<close>

lemma hashed_visits:
  assumes "chain (mem s) (First k) (ds @ xs)" "distinct (ds @ xs)" "reads_only mem body"
  shows "hlist_for_each_entry_from mem body (head_ptr xs) s = Some (exec_all body (map Ptr xs) s)"
proof -
  have "head_ptr xs = hd (map Ptr xs @ [NULL])" by (cases xs) simp_all
  moreover have "for_loop (\<lambda>p. p = NULL) (\<lambda>s p. c_bind (hlist_next (mem s) p) (\<lambda>n. Inr (hlist_entry_safe n))) body
     (hd (map Ptr xs @ [NULL])) s = Some (exec_all body (map Ptr xs) s)"
    by (rule hashed.for_loop_visits [where mem = mem and k = k and ds = ds])
      (use assms(1,2) reads_onlyD [OF assms(3)] in auto)
  ultimately show ?thesis by (simp add: hlist_for_each_entry_from_def)
qed

lemma hlist_traversals_visit:
  assumes "chain (mem s) (First k) (ds @ e # xs)" "distinct (ds @ e # xs)" "reads_only mem body"
  shows "hlist_for_each_entry mem body (Ptr k) s = Some (exec_all body (map Ptr (ds @ e # xs)) s)"
    and "hlist_for_each_entry_from mem body (Ptr e) s = Some (exec_all body (map Ptr (e # xs)) s)"
    and "hlist_for_each_entry_continue mem body (Ptr e) s = Some (exec_all body (map Ptr xs) s)"
proof -
  show "hlist_for_each_entry mem body (Ptr k) s = Some (exec_all body (map Ptr (ds @ e # xs)) s)"
    using hashed_visits [of mem s k "[]" "ds @ e # xs" body] assms chain_slot [OF assms(1)]
    by (simp add: hlist_for_each_entry_def)
  show "hlist_for_each_entry_from mem body (Ptr e) s = Some (exec_all body (map Ptr (e # xs)) s)"
    using hashed_visits [of mem s k ds "e # xs" body] assms by simp
  have "chain (mem s) (Next e) xs" using assms(1) by (simp add: chain_append)
  then show "hlist_for_each_entry_continue mem body (Ptr e) s = Some (exec_all body (map Ptr xs) s)"
    using hashed_visits [of mem s k "ds @ [e]" xs body] assms chain_slot
    by (fastforce simp: hlist_for_each_entry_continue_def hlist_next_def)
qed

text \<open>Nothing beyond the node that is removed is read again.\<close>

lemma hlist_safe_loop_removes:
  assumes "removes (\<lambda>s xs. chain (mem s) (First k) xs \<and> distinct xs) P body"
    and "chain (mem s) (First k) (ds @ xs)" "distinct (ds @ xs)"
  shows "\<exists>s'. hlist_safe_loop mem body (head_ptr xs) s = Some (Inr s') \<and> exec_all body (map Ptr xs) s = Inr s' \<and>
     chain (mem s') (First k) (ds @ filter (\<lambda>x. \<not> P x) xs)"
  using assms(2,3)
proof (induction xs arbitrary: s ds)
  case Nil
  then show ?case by (subst hlist_safe_loop.simps) simp
next
  case (Cons x xs)
  have "chain (mem s) (Next x) xs" using Cons.prems by (simp add: chain_append)
  then have n: "hlist_next (mem s) (Ptr x) = Inr (head_ptr xs)" using chain_slot by (fastforce simp: hlist_next_def)
  let ?ds = "ds @ (if P x then [] else [x])"
  have "x \<in> set (ds @ x # xs)" by simp
  with assms(1) Cons.prems obtain s1 where
    s1: "body (Ptr x) s = Inr s1" "chain (mem s1) (First k) (without P x (ds @ x # xs))"
    unfolding removes_def by blast
  have "chain (mem s1) (First k) (?ds @ xs)" "distinct (?ds @ xs)"
    using s1(2) without_split [OF Cons.prems(2), of P] Cons.prems(2) by auto
  from Cons.IH [OF this] n s1(1) show ?case by (subst hlist_safe_loop.simps) auto
qed

fun hdelete_if :: "('a \<Rightarrow> bool) \<Rightarrow> 'a ptr \<Rightarrow> 'a hmem \<Rightarrow> 'a hmem c_result" where
  "hdelete_if P (Ptr x) m = (if P x then hlist_del m (Ptr x) else Inr m)"
| "hdelete_if P p m = Inl Bad_Pointer"

lemma hlist_del_chain:
  assumes C: "chain m (First k) (ds @ e # xs)" and d: "distinct (ds @ e # xs)"
  shows "\<exists>m'. hlist_del m (Ptr e) = Inr m' \<and> chain m' (First k) (ds @ xs)"
proof -
  let ?m = "unlink (last_slot (First k) ds) (head_ptr xs) m"
  have U: "chain ?m (First k) (ds @ xs)" by (rule chain_unlink [OF C d]) auto
  have e: "Next e \<in> dom (slots m)" "e \<in> dom (pprevs m)" using chain_dom [OF C] by auto
  let ?r = "?m\<lparr>slots := (slots ?m)(Next e \<mapsto> LIST_POISON1), pprevs := (pprevs ?m)(e \<mapsto> LIST_POISON2)\<rparr>"
  have "Next e \<in> dom (slots ?m)" "e \<in> dom (pprevs ?m)" using e by (auto simp: unlink_def back_to_def split: ptr.splits)
  then have "hlist_del m (Ptr e) = Inr ?r" using hlist_del_unlink [OF C] by (simp add: hlist_del_def)
  moreover have "chain ?r (First k) (ds @ xs) = chain ?m (First k) (ds @ xs)"
    by (rule chain_cong) (use d in auto)
  ultimately show ?thesis using U by simp
qed

lemma hdelete_if_removes: "removes (\<lambda>m xs. chain (id m) (First k) xs \<and> distinct xs) P (hdelete_if P)"
  unfolding removes_def
proof (intro allI impI)
  fix m :: "'a hmem" and xs x assume C: "chain (id m) (First k) xs \<and> distinct xs" and x: "x \<in> set xs"
  obtain ds ys where xs: "xs = ds @ x # ys" using split_list [OF x] by blast
  show "\<exists>m'. hdelete_if P (Ptr x) m = Inr m' \<and> chain (id m') (First k) (without P x xs) \<and> distinct (without P x xs)"
    using hlist_del_chain [of m k ds x ys] C without_split [of ds x ys P] unfolding xs by auto
qed

lemma hlist_safe_traversal_removes:
  assumes "chain m (First k) xs" "distinct xs"
  shows "\<exists>m'. hlist_for_each_safe id (hdelete_if P) (Ptr k) m = Some (Inr m') \<and>
     hlist_for_each_entry_safe id (hdelete_if P) (Ptr k) m = Some (Inr m') \<and>
     hlist_for_each m' (Ptr k) = Some (Inr (map Ptr (filter (\<lambda>x. \<not> P x) xs)))"
  using hlist_safe_loop_removes [where mem = id and ds = "[]" and s = m, OF hdelete_if_removes [of k P]] assms
    chain_slot [OF assms(1)] hlist_queries(1)
  by (fastforce simp: hlist_for_each_safe_def hlist_for_each_entry_safe_def)

end
