(* ===== verification/Kernel_Modules.thy ===== *)
theory Kernel_Modules
  imports Kernel_Traversal
begin

text \<open>
  The loadable kernel modules: the list of birthdays (\<open>ch2/simple.c\<close>) and the two modules that
  walk over the processes (\<open>ch3/programming_projects\<close>), all of them clients of the kernel's
  doubly linked lists.
\<close>

section \<open>The list of birthdays\<close>

text \<open>
  \<open>struct birthday\<close> embeds a list head: the address \<open>Person a\<close> names the member \<open>list\<close> of the
  structure at \<open>a\<close>, so \<open>list_entry\<close> is the inverse of taking the member's address. The numbers
  and the list heads are kept apart.
\<close>

record birthday =
  day :: int
  month :: int
  year :: int

datatype birthday_addr = Birthday_List | Person nat

datatype printk = Loading | Birthday int int int | Removing | Freeing int int int | Done

record module_state =
  links :: "birthday_addr list_heap"
  persons :: "nat \<rightharpoonup> birthday"
  printed :: "printk list"

definition birthday_list :: module_state where
  "birthday_list = \<lparr>links = [Birthday_List \<mapsto> \<lparr>lnext = Ptr Birthday_List, lprev = Ptr Birthday_List\<rparr>],
     persons = Map.empty, printed = []\<rparr>"

definition printk :: "printk \<Rightarrow> module_state \<Rightarrow> module_state" where
  "printk l s = s\<lparr>printed := printed s @ [l]\<rparr>"

text \<open>
  \<open>kmalloc\<close> returns null or the address of a structure, whose contents are whatever the memory
  held; \<open>kfree\<close> takes the structure and with it the embedded list head out of the memory.
\<close>

definition kmalloc :: "nat option \<Rightarrow> birthday \<Rightarrow> birthday_addr list_head \<Rightarrow> module_state \<Rightarrow> module_state" where
  "kmalloc r b l s = (case r of None \<Rightarrow> s
   | Some a \<Rightarrow> s\<lparr>persons := (persons s)(a \<mapsto> b), links := (links s)(Person a \<mapsto> l)\<rparr>)"

definition kfree :: "nat \<Rightarrow> module_state \<Rightarrow> module_state c_result" where
  "kfree a s = (case persons s a of None \<Rightarrow> Inl Bad_Pointer
   | Some b \<Rightarrow> Inr (s\<lparr>persons := (persons s)(a := None), links := (links s)(Person a := None)\<rparr>))"

definition person_read :: "nat \<Rightarrow> module_state \<Rightarrow> birthday c_result" where
  "person_read a s = (case persons s a of None \<Rightarrow> Inl Bad_Pointer | Some b \<Rightarrow> Inr b)"

definition person_set :: "nat option \<Rightarrow> (birthday \<Rightarrow> birthday) \<Rightarrow> module_state \<Rightarrow> module_state c_result" where
  "person_set p f s = (case p of None \<Rightarrow> Inl Bad_Pointer
   | Some a \<Rightarrow> c_bind (person_read a s) (\<lambda>b. Inr (s\<lparr>persons := (persons s)(a \<mapsto> f b)\<rparr>)))"

definition list_member :: "nat option \<Rightarrow> birthday_addr ptr" where
  "list_member p = (case p of None \<Rightarrow> NULL | Some a \<Rightarrow> Ptr (Person a))"

definition entry_of :: "birthday_addr ptr \<Rightarrow> nat c_result" where
  "entry_of q = (case q of Ptr (Person a) \<Rightarrow> Inr a | _ \<Rightarrow> Inl Bad_Pointer)"

definition on_links ::
    "(birthday_addr list_heap \<Rightarrow> birthday_addr list_heap c_result) \<Rightarrow> module_state \<Rightarrow> module_state c_result" where
  "on_links f s = c_bind (f (links s)) (\<lambda>h. Inr (s\<lparr>links := h\<rparr>))"

text \<open>A person is made, filled in and added at the end; \<open>simple_init\<close> does this twice.\<close>

definition add_person :: "nat option \<Rightarrow> int \<Rightarrow> int \<Rightarrow> int \<Rightarrow> module_state \<Rightarrow> module_state c_result" where
  "add_person p d m y s =
     c_bind (person_set p (\<lambda>b. b\<lparr>day := d\<rparr>) s) (\<lambda>s.
     c_bind (person_set p (\<lambda>b. b\<lparr>month := m\<rparr>) s) (\<lambda>s.
     c_bind (person_set p (\<lambda>b. b\<lparr>year := y\<rparr>) s) (\<lambda>s.
     c_bind (on_links (\<lambda>h. INIT_LIST_HEAD h (list_member p)) s) (\<lambda>s.
     on_links (\<lambda>h. list_add_tail h (list_member p) (Ptr Birthday_List)) s))))"

definition show_person :: "birthday_addr ptr \<Rightarrow> module_state \<Rightarrow> module_state c_result" where
  "show_person q s =
     c_bind (entry_of q) (\<lambda>a. c_bind (person_read a s) (\<lambda>b.
     Inr (printk (Birthday (day b) (month b) (year b)) s)))"

definition simple_init ::
    "nat option \<Rightarrow> nat option \<Rightarrow> birthday \<Rightarrow> birthday_addr list_head \<Rightarrow> module_state \<Rightarrow> module_state c_result option" where
  "simple_init p1 p2 b l s =
     (case c_bind (add_person p1 15 2 1988 (kmalloc p1 b l (printk Loading s))) (\<lambda>s.
           add_person p2 20 5 1961 (kmalloc p2 b l s)) of
        Inl e \<Rightarrow> Some (Inl e)
      | Inr s \<Rightarrow> list_for_each_entry links show_person (Ptr Birthday_List) s)"

definition free_person :: "birthday_addr ptr \<Rightarrow> module_state \<Rightarrow> module_state c_result" where
  "free_person q s =
     c_bind (entry_of q) (\<lambda>a.
     c_bind (person_read a s) (\<lambda>b.
     c_bind (on_links (\<lambda>h. list_del h (Ptr (Person a))) (printk (Freeing (day b) (month b) (year b)) s)) (\<lambda>s.
     kfree a s)))"

definition simple_exit :: "module_state \<Rightarrow> module_state c_result option" where
  "simple_exit s =
     Option.bind (list_for_each_entry_safe links free_person (Ptr Birthday_List) (printk Removing s)) (\<lambda>r.
       Some (c_bind r (\<lambda>s. Inr (printk Done s))))"

section \<open>Walking over the processes\<close>

record task_struct =
  comm :: string
  task_state :: int
  task_pid :: int

text \<open>The list heads in a \<open>task_struct\<close> that the modules follow, and the memory they read.\<close>

datatype task_addr = Tasks nat | Children nat | Sibling nat

record task_mem =
  tasks :: "nat \<rightharpoonup> task_struct"
  tlinks :: "task_addr list_heap"

datatype task_line = Module_Loading | Entered | Process string int int

definition task_read :: "task_mem \<Rightarrow> nat \<Rightarrow> task_struct c_result" where
  "task_read s t = (case tasks s t of None \<Rightarrow> Inl Bad_Pointer | Some k \<Rightarrow> Inr k)"

definition process_line :: "task_struct \<Rightarrow> task_line" where
  "process_line k = Process (comm k) (task_state k) (task_pid k)"

definition entry_tasks :: "task_addr ptr \<Rightarrow> nat c_result" where
  "entry_tasks q = (case q of Ptr (Tasks t) \<Rightarrow> Inr t | _ \<Rightarrow> Inl Bad_Pointer)"

definition entry_sibling :: "task_addr ptr \<Rightarrow> nat c_result" where
  "entry_sibling q = (case q of Ptr (Sibling t) \<Rightarrow> Inr t | _ \<Rightarrow> Inl Bad_Pointer)"

definition next_task :: "task_mem \<Rightarrow> nat \<Rightarrow> nat c_result" where
  "next_task s p = c_bind (get_next (tlinks s) (Ptr (Tasks p))) entry_tasks"

partial_function (option) for_each_process :: "task_mem \<Rightarrow> nat \<Rightarrow> nat \<Rightarrow> task_line list c_result option" where
  "for_each_process s init_task p =
     (case next_task s p of
        Inl e \<Rightarrow> Some (Inl e)
      | Inr t \<Rightarrow> if t = init_task then Some (Inr []) else
          (case task_read s t of
             Inl e \<Rightarrow> Some (Inl e)
           | Inr k \<Rightarrow> Option.bind (for_each_process s init_task t) (\<lambda>r.
               Some (c_bind r (\<lambda>ls. Inr (process_line k # ls))))))"

definition linear_init :: "task_mem \<Rightarrow> nat \<Rightarrow> task_line list c_result option" where
  "linear_init s init_task = Option.bind (for_each_process s init_task init_task) (\<lambda>r.
     Some (c_bind r (\<lambda>ls. Inr (Module_Loading # ls))))"

text \<open>
  The recursion of \<open>dfs_task_iter\<close>: a call for a task, or its loop over the children at a
  position of the list.
\<close>

datatype dfs_call = Call "nat option" | Loop nat "task_addr ptr"

partial_function (option) dfs :: "task_mem \<Rightarrow> dfs_call \<Rightarrow> task_line list c_result option" where
  "dfs s c = (case c of
     Call None \<Rightarrow> Some (Inr [Entered])
   | Call (Some t) \<Rightarrow>
       (case task_read s t of
          Inl e \<Rightarrow> Some (Inl e)
        | Inr k \<Rightarrow> (case get_next (tlinks s) (Ptr (Children t)) of
              Inl e \<Rightarrow> Some (Inl e)
            | Inr p \<Rightarrow> Option.bind (dfs s (Loop t p)) (\<lambda>r.
                Some (c_bind r (\<lambda>ls. Inr (Entered # process_line k # ls))))))
   | Loop t p \<Rightarrow>
       if p = Ptr (Children t) then Some (Inr []) else
       (case entry_sibling p of
          Inl e \<Rightarrow> Some (Inl e)
        | Inr child \<Rightarrow> Option.bind (dfs s (Call (Some child))) (\<lambda>r.
            case r of
              Inl e \<Rightarrow> Some (Inl e)
            | Inr ls \<Rightarrow> (case get_next (tlinks s) p of
                  Inl e \<Rightarrow> Some (Inl e)
                | Inr q \<Rightarrow> Option.bind (dfs s (Loop t q)) (\<lambda>r.
                    Some (c_bind r (\<lambda>ms. Inr (ls @ ms))))))))"

definition dfs_task_iter :: "task_mem \<Rightarrow> nat option \<Rightarrow> (int \<times> task_line list) c_result option" where
  "dfs_task_iter s p = Option.bind (dfs s (Call p)) (\<lambda>r.
     Some (c_bind r (\<lambda>ls. Inr (if p = None then 1 else 0, ls))))"

definition dfs_init :: "task_mem \<Rightarrow> nat \<Rightarrow> task_line list c_result option" where
  "dfs_init s init_task = Option.bind (dfs_task_iter s (Some init_task)) (\<lambda>r.
     Some (c_bind r (\<lambda>(_, ls). Inr (Module_Loading # ls))))"

section \<open>The birthdays in memory\<close>

text \<open>The list holds the persons at the addresses \<open>as\<close>, and nothing else is allocated.\<close>

definition holds :: "nat list \<Rightarrow> birthday list \<Rightarrow> module_state \<Rightarrow> bool" where
  "holds as bs s \<longleftrightarrow> distinct as \<and> length bs = length as \<and> persons s = map_of (zip as bs) \<and>
     dom (links s) = insert Birthday_List (Person ` set as) \<and> is_list (links s) Birthday_List (map Person as)"

lemma holds_Nil: "holds [] [] s \<longleftrightarrow> s = birthday_list\<lparr>printed := printed s\<rparr>"
proof
  assume H: "holds [] [] s"
  then have L: "is_list (links s) Birthday_List []" and d: "dom (links s) = {Birthday_List}"
    by (simp_all add: holds_def)
  have "links s a = links birthday_list a" for a
  proof (cases "a = Birthday_List")
    case True
    have "is_list (links birthday_list) Birthday_List []"
      by (simp add: birthday_list_def is_list_def nx_def pv_def)
    from is_list_cell [OF this L] True show ?thesis by simp
  next
    case False
    with d have "links s a = None" by (metis domIff singletonD)
    with False show ?thesis by (simp add: birthday_list_def)
  qed
  then have "links s = links birthday_list" by blast
  moreover have "persons s = Map.empty" using H by (simp add: holds_def)
  ultimately show "s = birthday_list\<lparr>printed := printed s\<rparr>"
    by (auto simp: birthday_list_def intro!: module_state.equality)
next
  assume eq: "s = birthday_list\<lparr>printed := printed s\<rparr>"
  have "links s = links birthday_list" "persons s = persons birthday_list"
    using arg_cong [OF eq, of links] arg_cong [OF eq, of persons] by simp_all
  then show "holds [] [] s" by (simp add: holds_def birthday_list_def is_list_def nx_def pv_def)
qed

lemma add_person_ok:
  assumes H: "holds as bs s" and a: "a \<notin> set as"
  shows "\<exists>s'. add_person (Some a) d m y (kmalloc (Some a) b l s) = Inr s' \<and>
     holds (as @ [a]) (bs @ [\<lparr>day = d, month = m, year = y\<rparr>]) s' \<and> printed s' = printed s"
proof -
  let ?h = "(links s)(Person a \<mapsto> l)" and ?b = "\<lparr>day = d, month = m, year = y\<rparr>"
  have L: "is_list (links s) Birthday_List (map Person as)" and len: "length bs = length as"
    and d: "dom (links s) = insert Birthday_List (Person ` set as)" and p: "persons s = map_of (zip as bs)"
    and dist: "distinct as"
    using H by (auto simp: holds_def)
  have new: "Person a \<notin> set (Birthday_List # map Person as)" using a by auto
  have "is_list ?h Birthday_List (map Person as) = is_list (links s) Birthday_List (map Person as)"
    by (rule is_list_cong) (use new in auto)
  with L have "is_list ?h Birthday_List (map Person as)" by simp
  moreover obtain h1 where h1: "INIT_LIST_HEAD ?h (Ptr (Person a)) = Inr h1" "only_changes {Person a} ?h h1"
    using INIT_LIST_HEAD_ok [of "Person a" ?h] by auto
  ultimately have L1: "is_list h1 Birthday_List (map Person as)"
    using only_changes_list [OF h1(2)] new by auto
  have d1: "dom h1 = insert (Person a) (dom (links s))" using only_changes_dom [OF h1(2)] by simp
  obtain h2 where h2: "list_add_tail h1 (Ptr (Person a)) (Ptr Birthday_List) = Inr h2"
      "is_list h2 Birthday_List (map Person as @ [Person a])" "dom h2 = dom h1"
    using list_add_tail_ok [OF L1 _ new] d1 only_changes_dom by blast
  let ?s = "s\<lparr>persons := (persons s)(a \<mapsto> ?b), links := h2\<rparr>"
  have "add_person (Some a) d m y (kmalloc (Some a) b l s) = Inr ?s"
    using h1(1) h2(1) by (cases b) (simp add: add_person_def kmalloc_def person_set_def person_read_def list_member_def on_links_def)
  moreover have "persons ?s = map_of (zip (as @ [a]) (bs @ [?b]))"
  proof -
    have "a \<notin> dom (map_of (zip as bs))" using a len by simp
    then show ?thesis using p len
      by (simp add: map_add_upd_left)
  qed
  then have "holds (as @ [a]) (bs @ [?b]) ?s"
    using a len dist d d1 h2 by (auto simp: holds_def)
  ultimately show ?thesis by simp
qed

lemma person_read_ok: "holds (a # as) (b # bs) s \<Longrightarrow> person_read a s = Inr b"
  by (simp add: holds_def person_read_def)

lemma show_person_reads: "reads_only links show_person"
  by (auto simp: reads_only_def show_person_def c_bind_Inr_iff printk_def)

lemma show_persons_ok:
  "(\<And>a b. (a, b) \<in> set (zip as bs) \<Longrightarrow> persons s a = Some b) \<Longrightarrow> length bs = length as \<Longrightarrow>
     exec_all show_person (map (\<lambda>a. Ptr (Person a)) as) s =
       Inr (s\<lparr>printed := printed s @ map (\<lambda>b. Birthday (day b) (month b) (year b)) bs\<rparr>)"
proof (induction as arbitrary: bs s)
  case (Cons a as)
  then obtain b cs where bs: "bs = b # cs" by (cases bs) auto
  have "person_read a s = Inr b" using Cons.prems(1) [of a b] bs by (simp add: person_read_def)
  moreover have "exec_all show_person (map (\<lambda>a. Ptr (Person a)) as) (printk (Birthday (day b) (month b) (year b)) s) =
      Inr (s\<lparr>printed := printed s @ map (\<lambda>b. Birthday (day b) (month b) (year b)) bs\<rparr>)"
    by (subst Cons.IH [of cs]) (use Cons.prems bs in \<open>simp_all add: printk_def\<close>)
  ultimately show ?case by (simp add: entry_of_def show_person_def [of "Ptr (Person a)"])
qed simp

lemma free_person_ok:
  assumes H: "holds (a # as) (b # bs) s"
  shows "\<exists>s'. free_person (Ptr (Person a)) s = Inr s' \<and> holds as bs s'
     \<and> printed s' = printed s @ [Freeing (day b) (month b) (year b)]"
proof -
  have L: "is_list (links s) Birthday_List ([] @ Person a # map Person as)" and a: "a \<notin> set as"
    and p: "persons s = (map_of (zip as bs))(a \<mapsto> b)" and len: "length bs = length as"
    and d: "dom (links s) = insert Birthday_List (insert (Person a) (Person ` set as))" and dist: "distinct as"
    using H by (auto simp: holds_def)
  obtain h' where h': "list_del (links s) (Ptr (Person a)) = Inr h'" "is_list h' Birthday_List (map Person as)"
      "dom h' = dom (links s)"
    using list_del_ok [OF L] only_changes_dom by (metis append_Nil)
  let ?s = "s\<lparr>persons := (persons s)(a := None), links := h'(Person a := None),
     printed := printed s @ [Freeing (day b) (month b) (year b)]\<rparr>"
  have "free_person (Ptr (Person a)) s = Inr ?s"
    using h'(1) person_read_ok [OF H] p
    by (simp add: free_person_def entry_of_def on_links_def kfree_def printk_def)
  moreover have "is_list (h'(Person a := None)) Birthday_List (map Person as) = is_list h' Birthday_List (map Person as)"
    by (rule is_list_cong) (use a in auto)
  moreover have "map_of (zip as bs) a = None" using a len by simp
  ultimately show ?thesis
    using p len dist d a h'(2,3) by (auto simp: holds_def fun_upd_idem)
qed

lemma simple_exit_ok:
  assumes H: "holds as bs s"
  shows "simple_exit s = Some (Inr (birthday_list\<lparr>printed := printed s @ Removing #
     map (\<lambda>b. Freeing (day b) (month b) (year b)) bs @ [Done]\<rparr>))"
proof -
  define I where "I xs t \<longleftrightarrow> (\<exists>as' bs'. xs = map Person as' \<and> holds as' bs' t \<and>
      printed t @ map (\<lambda>b. Freeing (day b) (month b) (year b)) bs' =
      printed s @ Removing # map (\<lambda>b. Freeing (day b) (month b) (year b)) bs)" for xs t
  let ?s = "printk Removing s"
  have I0: "I (map Person as) ?s" and L: "is_list (links ?s) Birthday_List (map Person as)"
    using H unfolding I_def by (auto simp: printk_def holds_def)
  have "\<exists>t'. free_person (Ptr y) t = Inr t' \<and> is_list (links t') Birthday_List ys \<and> I ys t'"
    if "I (y # ys) t" for y ys t
  proof -
    from that obtain a as' bs' where a: "y = Person a" "ys = map Person as'" "holds (a # as') bs' t"
      and pr: "printed t @ map (\<lambda>b. Freeing (day b) (month b) (year b)) bs' =
        printed s @ Removing # map (\<lambda>b. Freeing (day b) (month b) (year b)) bs" unfolding I_def by auto
    then obtain b cs where bs': "bs' = b # cs" by (cases bs') (auto simp: holds_def)
    obtain t' where t': "free_person (Ptr (Person a)) t = Inr t'" "holds as' cs t'"
      "printed t' = printed t @ [Freeing (day b) (month b) (year b)]"
      using free_person_ok [OF a(3) [unfolded bs']] by blast
    have "is_list (links t') Birthday_List ys" using t'(2) a(2) by (simp add: holds_def)
    moreover have "I ys t'" unfolding I_def using a(2) t'(2,3) pr bs' by auto
    ultimately show ?thesis using t'(1) a(1) by blast
  qed
  from list_for_each_safe_ok [of links ?s Birthday_List "map Person as" I free_person, OF L I0 this]
  obtain t where t: "list_for_each_safe links free_person (Ptr Birthday_List) ?s = Some (Inr t)" "I [] t" by auto
  from t(2) obtain bs' where bs': "holds [] bs' t" "printed t @ map (\<lambda>b. Freeing (day b) (month b) (year b)) bs' =
      printed s @ Removing # map (\<lambda>b. Freeing (day b) (month b) (year b)) bs"
    unfolding I_def by auto
  then have "bs' = []" by (simp add: holds_def)
  with bs' have "t = birthday_list\<lparr>printed := printed s @ Removing # map (\<lambda>b. Freeing (day b) (month b) (year b)) bs\<rparr>"
    using holds_Nil [of t] by simp
  with t(1) show ?thesis by (simp add: simple_exit_def list_for_each_entry_safe_eq printk_def)
qed

lemma simple_init_ok:
  assumes "a \<noteq> c"
  shows "\<exists>s. simple_init (Some a) (Some c) b l birthday_list = Some (Inr s) \<and>
     holds [a, c] [\<lparr>day = 15, month = 2, year = 1988\<rparr>, \<lparr>day = 20, month = 5, year = 1961\<rparr>] s \<and>
     printed s = [Loading, Birthday 15 2 1988, Birthday 20 5 1961]"
proof -
  let ?b1 = "\<lparr>day = 15, month = 2, year = 1988\<rparr>" and ?b2 = "\<lparr>day = 20, month = 5, year = 1961\<rparr>"
  let ?s0 = "printk Loading birthday_list"
  have H0: "holds [] [] ?s0" by (simp add: holds_Nil printk_def birthday_list_def)
  obtain s1 where s1: "add_person (Some a) 15 2 1988 (kmalloc (Some a) b l ?s0) = Inr s1" "holds [a] [?b1] s1"
      "printed s1 = [Loading]"
    using add_person_ok [OF H0, of a 15 2 1988 b l] by (auto simp: printk_def birthday_list_def)
  obtain s2 where s2: "add_person (Some c) 20 5 1961 (kmalloc (Some c) b l s1) = Inr s2" "holds [a, c] [?b1, ?b2] s2"
      "printed s2 = [Loading]"
    using add_person_ok [OF s1(2), of c 20 5 1961 b l] assms s1(3) by auto
  have p: "persons s2 = [a \<mapsto> ?b1, c \<mapsto> ?b2]" and L: "is_list (links s2) Birthday_List [Person a, Person c]"
    using s2(2) assms by (auto simp: holds_def fun_upd_twist)
  have "exec_all show_person (map (\<lambda>a. Ptr (Person a)) [a, c]) s2 =
      Inr (s2\<lparr>printed := [Loading, Birthday 15 2 1988, Birthday 20 5 1961]\<rparr>)"
    by (subst show_persons_ok [of _ "[?b1, ?b2]"]) (use p assms s2(3) in auto)
  moreover note list_for_each_entry_ok [OF L show_person_reads]
  moreover have "holds [a, c] [?b1, ?b2] (s2\<lparr>printed := ps\<rparr>)" for ps
    using s2(2) by (simp add: holds_def)
  ultimately show ?thesis using s1(1) s2(1) by (simp add: simple_init_def)
qed

text \<open>C19: Loading the module with two successful allocations prints the two birthdays in the order
  in which they were added; unloading it then prints and frees both, never touches freed memory,
  and leaves the module's memory as it was before loading, the empty list and nothing allocated.\<close>

theorem birthday_module_roundtrip:
  assumes "a \<noteq> c"
  shows "\<exists>s. simple_init (Some a) (Some c) b l birthday_list = Some (Inr s) \<and>
     printed s = [Loading, Birthday 15 2 1988, Birthday 20 5 1961] \<and> dom (persons s) = {a, c} \<and>
     list_for_each (links s) (Ptr Birthday_List) = Some (Inr [Ptr (Person a), Ptr (Person c)]) \<and>
     simple_exit s = Some (Inr (birthday_list\<lparr>printed :=
       printed s @ [Removing, Freeing 15 2 1988, Freeing 20 5 1961, Done]\<rparr>))"
proof -
  obtain s where s: "simple_init (Some a) (Some c) b l birthday_list = Some (Inr s)"
     "holds [a, c] [\<lparr>day = 15, month = 2, year = 1988\<rparr>, \<lparr>day = 20, month = 5, year = 1961\<rparr>] s"
     "printed s = [Loading, Birthday 15 2 1988, Birthday 20 5 1961]"
    using simple_init_ok [OF assms] by blast
  from s(2) have "dom (persons s) = {a, c}" "is_list (links s) Birthday_List [Person a, Person c]"
    by (auto simp: holds_def)
  with s list_for_each_ok simple_exit_ok [OF s(2)] show ?thesis by fastforce
qed

theorem birthday_module_roundtrip_witness:
  "\<exists>s. simple_init (Some 4) (Some 7) \<lparr>day = 0, month = 0, year = 0\<rparr> \<lparr>lnext = NULL, lprev = NULL\<rparr> birthday_list
       = Some (Inr s) \<and>
     simple_exit s = Some (Inr (birthday_list\<lparr>printed := [Loading, Birthday 15 2 1988, Birthday 20 5 1961,
       Removing, Freeing 15 2 1988, Freeing 20 5 1961, Done]\<rparr>))"
  using birthday_module_roundtrip [of 4 7 "\<lparr>day = 0, month = 0, year = 0\<rparr>" "\<lparr>lnext = NULL, lprev = NULL\<rparr>"]
  by auto

text \<open>The result of \<open>kmalloc\<close> is used unchecked: if an allocation fails, loading faults.\<close>

lemma simple_init_out_of_memory:
  "simple_init None p b l s = Some (Inl Bad_Pointer)"
  "simple_init (Some a) None b l birthday_list = Some (Inl Bad_Pointer)"
proof -
  show "simple_init None p b l s = Some (Inl Bad_Pointer)"
    by (simp add: simple_init_def add_person_def person_set_def)
  have "holds [] [] (printk Loading birthday_list)" by (simp add: holds_Nil printk_def birthday_list_def)
  from add_person_ok [OF this, of a 15 2 1988 b l] show "simple_init (Some a) None b l birthday_list = Some (Inl Bad_Pointer)"
    by (auto simp: simple_init_def add_person_def [of None] person_set_def)
qed

section \<open>The walks over the processes\<close>

text \<open>The memory holds the tasks of a list, and the list of all of them starts at the first.\<close>

definition task_list :: "task_mem \<Rightarrow> nat \<Rightarrow> nat list \<Rightarrow> bool" where
  "task_list s t ts \<longleftrightarrow> set ts \<subseteq> dom (tasks s) \<and> is_list (tlinks s) (Tasks t) (map Tasks ts)"

definition task_line_of :: "task_mem \<Rightarrow> nat \<Rightarrow> task_line" where
  "task_line_of s t = process_line (the (tasks s t))"

lemma task_read_ok: "t \<in> dom (tasks s) \<Longrightarrow> \<exists>k. task_read s t = Inr k \<and> task_line_of s t = process_line k"
  by (auto simp: task_read_def task_line_of_def)

lemma for_each_process_from:
  "linked (tlinks s) (map Tasks (p # ts @ [t])) \<Longrightarrow> t \<notin> set ts \<Longrightarrow> set ts \<subseteq> dom (tasks s) \<Longrightarrow>
     for_each_process s t p = Some (Inr (map (task_line_of s) ts))"
proof (induction ts arbitrary: p)
  case Nil
  then show ?case
    by (subst for_each_process.simps) (simp add: next_task_def entry_tasks_def)
next
  case (Cons u us)
  then have "next_task s p = Inr u" by (simp add: next_task_def entry_tasks_def)
  moreover have "for_each_process s t u = Some (Inr (map (task_line_of s) us))"
    using Cons by simp
  moreover obtain k where "task_read s u = Inr k" "task_line_of s u = process_line k"
    using task_read_ok [of u s] Cons.prems(3) by auto
  ultimately show ?case using Cons.prems(2)
    by (subst for_each_process.simps) auto
qed

text \<open>A tree of tasks in memory: the list at a task's \<open>children\<close> links its children by their
  \<open>sibling\<close> members.\<close>

datatype task_tree = Task nat "task_tree list"

primrec root :: "task_tree \<Rightarrow> nat" where
  "root (Task t ts) = t"

fun preorder :: "task_tree \<Rightarrow> nat list" where
  "preorder (Task t ts) = t # concat (map preorder ts)"

fun tree_in :: "task_mem \<Rightarrow> task_tree \<Rightarrow> bool" where
  "tree_in s (Task t ts) \<longleftrightarrow> t \<in> dom (tasks s) \<and>
     is_list (tlinks s) (Children t) (map (\<lambda>c. Sibling (root c)) ts) \<and> (\<forall>c \<in> set ts. tree_in s c)"

definition visit_lines :: "task_mem \<Rightarrow> nat \<Rightarrow> task_line list" where
  "visit_lines s t = [Entered, task_line_of s t]"

lemma dfs_loop_ok:
  assumes "linked (tlinks s) (map (\<lambda>c. Sibling (root c)) cs @ [Children t])"
    and "\<And>c. c \<in> set cs \<Longrightarrow> dfs s (Call (Some (root c))) = Some (Inr (f c))"
  shows "dfs s (Loop t (Ptr (hd (map (\<lambda>c. Sibling (root c)) cs @ [Children t])))) = Some (Inr (concat (map f cs)))"
  using assms
proof (induction cs)
  case Nil
  show ?case by (subst dfs.simps) simp
next
  case (Cons c cs)
  from Cons.prems(1) have "linked (tlinks s) (map (\<lambda>c. Sibling (root c)) cs @ [Children t])"
    "nx (tlinks s) (Sibling (root c)) = Some (Ptr (hd (map (\<lambda>c. Sibling (root c)) cs @ [Children t])))"
    by (simp_all add: linked_Cons)
  with Cons.IH Cons.prems(2) show ?case
    by (subst dfs.simps) (simp add: entry_sibling_def)
qed

lemma dfs_call_ok:
  "tree_in s T \<Longrightarrow> dfs s (Call (Some (root T))) = Some (Inr (concat (map (visit_lines s) (preorder T))))"
proof (induction s T rule: tree_in.induct)
  case (1 s t ts)
  let ?g = "\<lambda>c. concat (map (visit_lines s) (preorder c))"
  have L: "is_list (tlinks s) (Children t) (map (\<lambda>c. Sibling (root c)) ts)" and t: "t \<in> dom (tasks s)"
    using "1.prems" by simp_all
  have "dfs s (Call (Some (root c))) = Some (Inr (?g c))" if "c \<in> set ts" for c
    using "1.IH" [OF that] "1.prems" that by simp
  with L have "dfs s (Loop t (Ptr (hd (map (\<lambda>c. Sibling (root c)) ts @ [Children t])))) = Some (Inr (concat (map ?g ts)))"
    by (intro dfs_loop_ok) (auto simp: is_list_def linked_Cons)
  moreover obtain k where "task_read s t = Inr k" "task_line_of s t = process_line k"
    using task_read_ok [OF t] by blast
  moreover have "concat (map ?g ts) = concat (map (visit_lines s) (concat (map preorder ts)))"
    by (induction ts) simp_all
  ultimately show ?case using is_list_first [OF L]
    by (subst dfs.simps) (simp add: visit_lines_def)
qed

text \<open>C25: On a process tree in memory the depth-first module ends, returns 0 and prints every task of
  the tree in preorder, each with its name, state and identifier.\<close>

theorem dfs_prints_preorder:
  assumes "tree_in s T" "root T = init_task"
  shows "dfs_task_iter s (Some init_task) = Some (Inr (0, concat (map (visit_lines s) (preorder T)))) \<and>
     dfs_init s init_task = Some (Inr (Module_Loading # concat (map (visit_lines s) (preorder T))))"
proof -
  have "dfs s (Call (Some init_task)) = Some (Inr (concat (map (visit_lines s) (preorder T))))"
    using dfs_call_ok [OF assms(1)] assms(2) by simp
  then show ?thesis by (simp add: dfs_init_def dfs_task_iter_def)
qed

definition sample_tasks :: task_mem where
  "sample_tasks = \<lparr>tasks = [0 \<mapsto> \<lparr>comm = ''swapper'', task_state = 0, task_pid = 0\<rparr>,
       1 \<mapsto> \<lparr>comm = ''init'', task_state = 1, task_pid = 1\<rparr>, 2 \<mapsto> \<lparr>comm = ''kthreadd'', task_state = 1, task_pid = 2\<rparr>],
     tlinks = [Children 0 \<mapsto> \<lparr>lnext = Ptr (Sibling 1), lprev = Ptr (Sibling 2)\<rparr>,
       Sibling 1 \<mapsto> \<lparr>lnext = Ptr (Sibling 2), lprev = Ptr (Children 0)\<rparr>,
       Sibling 2 \<mapsto> \<lparr>lnext = Ptr (Children 0), lprev = Ptr (Sibling 1)\<rparr>,
       Children 1 \<mapsto> \<lparr>lnext = Ptr (Children 1), lprev = Ptr (Children 1)\<rparr>,
       Children 2 \<mapsto> \<lparr>lnext = Ptr (Children 2), lprev = Ptr (Children 2)\<rparr>,
       Tasks 0 \<mapsto> \<lparr>lnext = Ptr (Tasks 1), lprev = Ptr (Tasks 2)\<rparr>,
       Tasks 1 \<mapsto> \<lparr>lnext = Ptr (Tasks 2), lprev = Ptr (Tasks 0)\<rparr>,
       Tasks 2 \<mapsto> \<lparr>lnext = Ptr (Tasks 0), lprev = Ptr (Tasks 1)\<rparr>]\<rparr>"

theorem dfs_prints_preorder_witness:
  "dfs_init sample_tasks 0 = Some (Inr [Module_Loading, Entered, Process ''swapper'' 0 0,
     Entered, Process ''init'' 1 1, Entered, Process ''kthreadd'' 1 2])"
proof -
  have "tree_in sample_tasks (Task 0 [Task 1 [], Task 2 []])"
    by (simp add: sample_tasks_def is_list_def nx_def pv_def)
  from dfs_prints_preorder [OF this, of 0] show ?thesis
    by (simp add: visit_lines_def task_line_of_def process_line_def sample_tasks_def)
qed

text \<open>The linear module ends and prints every task of the task list once, in the order of the
  list, except \<open>init_task\<close> itself, from which the walk starts.\<close>

theorem linear_prints_all:
  assumes "task_list s init_task ts"
  shows "linear_init s init_task = Some (Inr (Module_Loading # map (task_line_of s) ts)) \<and>
     distinct (init_task # ts)"
proof -
  have "linked (tlinks s) (map Tasks (init_task # ts @ [init_task]))" "distinct (init_task # ts)"
    using assms by (auto simp: task_list_def is_list_def distinct_map)
  with for_each_process_from [of s init_task ts init_task] assms show ?thesis
    by (simp add: linear_init_def task_list_def)
qed

theorem linear_prints_all_witness:
  "linear_init sample_tasks 0 = Some (Inr [Module_Loading, Process ''init'' 1 1, Process ''kthreadd'' 1 2])"
proof -
  have "task_list sample_tasks 0 [1, 2]"
    by (simp add: sample_tasks_def task_list_def is_list_def nx_def pv_def)
  from linear_prints_all [OF this] show ?thesis
    by (simp add: task_line_of_def process_line_def sample_tasks_def)
qed

end
