(* ===== verification/Processes.thy ===== *)
theory Processes
  imports OSC_Prelude
begin

text \<open>
  The programs of chapter 3 that create processes. A small kernel carries them: a table of
  processes, each with its own copy of the program's variables, and the calls \<open>fork\<close>, \<open>wait\<close>,
  \<open>exec\<close> and \<open>exit\<close> as POSIX documents them. A program is a function from a process's variables to
  its next call, one program point per statement; the kernel interleaves the processes.
\<close>

section \<open>The kernel\<close>

type_synonym pid = nat

text \<open>
  A process runs the program, or an image that \<open>exec\<close> has put in its place, or has ended and is
  not waited for yet. Identifiers are not used again during a run, so that \<open>pids\<close>, the
  processes in the order of their creation, has no duplicates.
\<close>

datatype 'm status = Running 'm | Foreign | Zombie

record ('m, 'o) kernel =
  pids :: "pid list"
  procs :: "pid \<rightharpoonup> pid \<times> 'm status"
  out :: "(pid \<times> 'o) list"

datatype ('m, 'o) action = Go 'm | Print 'o 'm | Fork "int \<Rightarrow> 'm" | Wait 'm | Exec 'm | Exit

datatype 'o kevent =
    Step pid | Fork_Ok pid pid | Reap pid pid | Fail pid | Foreign_Print pid 'o | Foreign_Exit pid

definition boot :: "pid \<Rightarrow> 'm \<Rightarrow> ('m, 'o) kernel" where
  "boot p m = \<lparr>pids = [p], procs = [p \<mapsto> (0, Running m)], out = []\<rparr>"

definition running :: "pid \<Rightarrow> ('m, 'o) kernel \<Rightarrow> 'm option" where
  "running p s = (case procs s p of Some (q, Running m) \<Rightarrow> Some m | _ \<Rightarrow> None)"

definition has_child :: "pid \<Rightarrow> ('m, 'o) kernel \<Rightarrow> bool" where
  "has_child p s \<longleftrightarrow> list_ex (\<lambda>c. case procs s c of Some (q, x) \<Rightarrow> q = p | None \<Rightarrow> False) (pids s)"

definition set_status :: "pid \<Rightarrow> 'm status \<Rightarrow> ('m, 'o) kernel \<Rightarrow> ('m, 'o) kernel" where
  "set_status p x s = s\<lparr>procs := (procs s)(p := map_option (\<lambda>(q, _). (q, x)) (procs s p))\<rparr>"

definition put :: "pid \<Rightarrow> 'm \<Rightarrow> ('m, 'o) kernel \<Rightarrow> ('m, 'o) kernel" where
  "put p m = set_status p (Running m)"

definition say :: "pid \<Rightarrow> 'o \<Rightarrow> ('m, 'o) kernel \<Rightarrow> ('m, 'o) kernel" where
  "say p x s = s\<lparr>out := out s @ [(p, x)]\<rparr>"

definition spawn :: "pid \<Rightarrow> pid \<Rightarrow> 'm \<Rightarrow> ('m, 'o) kernel \<Rightarrow> ('m, 'o) kernel" where
  "spawn p c m s = s\<lparr>pids := pids s @ [c], procs := (procs s)(c \<mapsto> (p, Running m))\<rparr>"

text \<open>
  \<open>fork\<close> copies the variables and returns the new identifier to the parent and 0 to the child, or
  \<open>-1\<close>; \<open>wait\<close> takes an ended child out of the table, blocks while children run and fails without
  children; \<open>exec\<close> returns only when it fails.
\<close>

fun kstep :: "(pid \<Rightarrow> 'm \<Rightarrow> ('m, 'o) action) \<Rightarrow> 'o kevent \<Rightarrow> ('m, 'o) kernel \<Rightarrow> ('m, 'o) kernel option" where
  "kstep prog (Step p) s = (case running p s of None \<Rightarrow> None | Some m \<Rightarrow>
     (case prog p m of
        Go m' \<Rightarrow> Some (put p m' s)
      | Print x m' \<Rightarrow> Some (say p x (put p m' s))
      | Exec m' \<Rightarrow> Some (set_status p Foreign s)
      | Exit \<Rightarrow> Some (set_status p Zombie s)
      | _ \<Rightarrow> None))"
| "kstep prog (Fork_Ok p c) s = (case running p s of None \<Rightarrow> None | Some m \<Rightarrow>
     (case prog p m of
        Fork k \<Rightarrow> if c = 0 \<or> c \<in> set (pids s) then None else Some (spawn p c (k 0) (put p (k (int c)) s))
      | _ \<Rightarrow> None))"
| "kstep prog (Reap p c) s = (case running p s of None \<Rightarrow> None | Some m \<Rightarrow>
     (case prog p m of
        Wait m' \<Rightarrow> if procs s c = Some (p, Zombie) then Some ((put p m' s)\<lparr>procs := (procs (put p m' s))(c := None)\<rparr>) else None
      | _ \<Rightarrow> None))"
| "kstep prog (Fail p) s = (case running p s of None \<Rightarrow> None | Some m \<Rightarrow>
     (case prog p m of
        Fork k \<Rightarrow> Some (put p (k (-1)) s)
      | Exec m' \<Rightarrow> Some (put p m' s)
      | Wait m' \<Rightarrow> if has_child p s then None else Some (put p m' s)
      | _ \<Rightarrow> None))"
| "kstep prog (Foreign_Print p x) s = (case procs s p of Some (q, Foreign) \<Rightarrow> Some (say p x s) | _ \<Rightarrow> None)"
| "kstep prog (Foreign_Exit p) s = (case procs s p of Some (q, Foreign) \<Rightarrow> Some (set_status p Zombie s) | _ \<Rightarrow> None)"

text \<open>The runs in which no call fails.\<close>

fun kstep_ok :: "(pid \<Rightarrow> 'm \<Rightarrow> ('m, 'o) action) \<Rightarrow> 'o kevent \<Rightarrow> ('m, 'o) kernel \<Rightarrow> ('m, 'o) kernel option" where
  "kstep_ok prog (Fail p) s = None"
| "kstep_ok prog e s = kstep prog e s"

section \<open>The programs\<close>

text \<open>\<open>fork-question-1.c\<close>: the global \<open>value\<close>, the local \<open>pid\<close> and the statement the process is at.\<close>

datatype q1_pc = Q1_fork | Q1_test | Q1_add | Q1_wait | Q1_print | Q1_return

record q1_vars =
  at :: q1_pc
  value_v :: int
  pid_v :: int

definition q1_start :: q1_vars where
  "q1_start = \<lparr>at = Q1_fork, value_v = 5, pid_v = 0\<rparr>"

definition fork_question_1 :: "pid \<Rightarrow> q1_vars \<Rightarrow> (q1_vars, int) action" where
  "fork_question_1 p m = (case at m of
     Q1_fork \<Rightarrow> Fork (\<lambda>r. m\<lparr>pid_v := r, at := Q1_test\<rparr>)
   | Q1_test \<Rightarrow> Go (m\<lparr>at := if pid_v m = 0 then Q1_add else if pid_v m > 0 then Q1_wait else Q1_return\<rparr>)
   | Q1_add \<Rightarrow> Go (m\<lparr>value_v := value_v m + 15, at := Q1_return\<rparr>)
   | Q1_wait \<Rightarrow> Wait (m\<lparr>at := Q1_print\<rparr>)
   | Q1_print \<Rightarrow> Print (value_v m) (m\<lparr>at := Q1_return\<rparr>)
   | Q1_return \<Rightarrow> Exit)"

text \<open>\<open>fork-question-2.c\<close>: four \<open>printf\<close> of \<open>getpid()\<close> with a \<open>fork\<close> between each two.\<close>

datatype q2_pc = Print1 | Fork1 | Print2 | Fork2 | Print3 | Fork3 | Print4 | Return

definition fork_question_2 :: "pid \<Rightarrow> q2_pc \<Rightarrow> (q2_pc, pid) action" where
  "fork_question_2 p m = (case m of
     Print1 \<Rightarrow> Print p Fork1
   | Fork1 \<Rightarrow> Fork (\<lambda>_. Print2)
   | Print2 \<Rightarrow> Print p Fork2
   | Fork2 \<Rightarrow> Fork (\<lambda>_. Print3)
   | Print3 \<Rightarrow> Print p Fork3
   | Fork3 \<Rightarrow> Fork (\<lambda>_. Print4)
   | Print4 \<Rightarrow> Print p Return
   | Return \<Rightarrow> Exit)"

text \<open>\<open>newproc-posix.c\<close>.\<close>

datatype np_line = Fork_Failed | I_am_the_child int | I_am_the_parent int | Child_Complete | Listing string

datatype np_pc = N_fork | N_test int | N_exec | N_wait | N_complete | N_return

definition newproc :: "pid \<Rightarrow> np_pc \<Rightarrow> (np_pc, np_line) action" where
  "newproc p m = (case m of
     N_fork \<Rightarrow> Fork N_test
   | N_test r \<Rightarrow> if r < 0 then Print Fork_Failed N_return
       else if r = 0 then Print (I_am_the_child r) N_exec
       else Print (I_am_the_parent r) N_wait
   | N_exec \<Rightarrow> Exec N_return
   | N_wait \<Rightarrow> Wait N_complete
   | N_complete \<Rightarrow> Print Child_Complete N_return
   | N_return \<Rightarrow> Exit)"

text \<open>\<open>pp3.19.c\<close>: the parent sleeps before it waits, so that the ended child stays a zombie.\<close>

datatype z_line = Hello | Calling_Fork | Fork_Error | Child_Line | Parent_Line int | Done_Sleeping

datatype z_pc = Z_hello | Z_calling | Z_fork | Z_test int | Z_sleep | Z_slept | Z_wait | Z_return

definition pp319 :: "pid \<Rightarrow> z_pc \<Rightarrow> (z_pc, z_line) action" where
  "pp319 p m = (case m of
     Z_hello \<Rightarrow> Print Hello Z_calling
   | Z_calling \<Rightarrow> Print Calling_Fork Z_fork
   | Z_fork \<Rightarrow> Fork Z_test
   | Z_test r \<Rightarrow> if r < 0 then Print Fork_Error Z_return
       else if r = 0 then Print Child_Line Z_return
       else Print (Parent_Line r) Z_sleep
   | Z_sleep \<Rightarrow> Go Z_slept
   | Z_slept \<Rightarrow> Print Done_Sleeping Z_wait
   | Z_wait \<Rightarrow> Wait Z_return
   | Z_return \<Rightarrow> Exit)"

section \<open>A parent and its child\<close>

text \<open>The tables of a program that forks once: before the fork, with the child, and after \<open>wait\<close>.\<close>

definition alone :: "pid \<Rightarrow> 'm status \<Rightarrow> (pid \<times> 'o) list \<Rightarrow> ('m, 'o) kernel" where
  "alone P x os = \<lparr>pids = [P], procs = [P \<mapsto> (0, x)], out = os\<rparr>"

definition couple :: "pid \<Rightarrow> 'm status \<Rightarrow> pid \<Rightarrow> 'm status \<Rightarrow> (pid \<times> 'o) list \<Rightarrow> ('m, 'o) kernel" where
  "couple P x c y os = \<lparr>pids = [P, c], procs = [P \<mapsto> (0, x), c \<mapsto> (P, y)], out = os\<rparr>"

definition bereft :: "pid \<Rightarrow> 'm status \<Rightarrow> pid \<Rightarrow> (pid \<times> 'o) list \<Rightarrow> ('m, 'o) kernel" where
  "bereft P x c os = \<lparr>pids = [P, c], procs = [P \<mapsto> (0, x)], out = os\<rparr>"

lemma boot_alone: "boot P m = alone P (Running m) []"
  by (simp add: boot_def alone_def)

lemma family_out [simp]: "out (alone P x os) = os" "out (couple P x c y os) = os" "out (bereft P x c os) = os"
  by (simp_all add: alone_def couple_def bereft_def)

lemma family_running:
  "running p (alone P x os) = (if p = P then case x of Running m \<Rightarrow> Some m | _ \<Rightarrow> None else None)"
  "P \<noteq> c \<Longrightarrow> running p (couple P x c y os) =
     (if p = c then case y of Running m \<Rightarrow> Some m | _ \<Rightarrow> None else if p = P then case x of Running m \<Rightarrow> Some m | _ \<Rightarrow> None else None)"
  "running p (bereft P x c os) = (if p = P then case x of Running m \<Rightarrow> Some m | _ \<Rightarrow> None else None)"
  by (simp_all add: running_def alone_def couple_def bereft_def split: status.split)

lemma family_status:
  "set_status P x' (alone P x os) = alone P x' os"
  "P \<noteq> c \<Longrightarrow> set_status P x' (couple P x c y os) = couple P x' c y os"
  "P \<noteq> c \<Longrightarrow> set_status c y' (couple P x c y os) = couple P x c y' os"
  "set_status P x' (bereft P x c os) = bereft P x' c os"
  by (auto simp: set_status_def alone_def couple_def bereft_def fun_eq_iff)

lemma family_say:
  "say p v (alone P x os) = alone P x (os @ [(p, v)])"
  "say p v (couple P x c y os) = couple P x c y (os @ [(p, v)])"
  "say p v (bereft P x c os) = bereft P x c (os @ [(p, v)])"
  by (simp_all add: say_def alone_def couple_def bereft_def)

lemma family_spawn: "spawn P c m (alone P x os) = couple P x c (Running m) os"
  by (simp add: spawn_def alone_def couple_def)

lemma family_reap:
  "P \<noteq> c \<Longrightarrow> (couple P x c y os)\<lparr>procs := (procs (couple P x c y os))(c := None)\<rparr> = bereft P x c os"
  by (auto simp: couple_def bereft_def fun_eq_iff)

lemma family_lookup:
  "procs (alone P x os) q = (if q = P then Some (0, x) else None)"
  "P \<noteq> c \<Longrightarrow> procs (couple P x c y os) q = (if q = c then Some (P, y) else if q = P then Some (0, x) else None)"
  "procs (bereft P x c os) q = (if q = P then Some (0, x) else None)"
  "pids (alone P x os) = [P]" "pids (couple P x c y os) = [P, c]" "pids (bereft P x c os) = [P, c]"
  by (simp_all add: alone_def couple_def bereft_def)

lemma family_children:
  "P \<noteq> 0 \<Longrightarrow> has_child P (alone P x os) = False" "P \<noteq> c \<Longrightarrow> has_child P (couple P x c y os) = True"
  by (auto simp: has_child_def family_lookup)

lemmas family = family_running family_status family_say family_spawn family_reap family_lookup family_children put_def

text \<open>What a process can do by itself: everything but a successful \<open>fork\<close> or \<open>wait\<close>.\<close>

inductive own_step :: "(pid \<Rightarrow> 'm \<Rightarrow> ('m, 'o) action) \<Rightarrow> pid \<Rightarrow> 'm status \<Rightarrow> (pid \<times> 'o) list \<Rightarrow>
    'm status \<Rightarrow> (pid \<times> 'o) list \<Rightarrow> bool" for prog p where
  own_go: "prog p m = Go m' \<Longrightarrow> own_step prog p (Running m) os (Running m') os"
| own_print: "prog p m = Print v m' \<Longrightarrow> own_step prog p (Running m) os (Running m') (os @ [(p, v)])"
| own_exec: "prog p m = Exec m' \<Longrightarrow> own_step prog p (Running m) os Foreign os"
| own_exec_fail: "prog p m = Exec m' \<Longrightarrow> own_step prog p (Running m) os (Running m') os"
| own_exit: "prog p m = Exit \<Longrightarrow> own_step prog p (Running m) os Zombie os"
| own_fork_fail: "prog p m = Fork k \<Longrightarrow> own_step prog p (Running m) os (Running (k (-1))) os"
| own_foreign: "own_step prog p Foreign os Foreign (os @ [(p, v)])"
| own_foreign_exit: "own_step prog p Foreign os Zombie os"

inductive_simps own_step_Running: "own_step prog p (Running m) os x os'"
inductive_simps own_step_Foreign: "own_step prog p Foreign os x os'"
inductive_simps own_step_Zombie: "own_step prog p Zombie os x os'"

lemmas own_steps = own_step_Running own_step_Foreign own_step_Zombie

definition forks :: "(pid \<Rightarrow> 'm \<Rightarrow> ('m, 'o) action) \<Rightarrow> pid \<Rightarrow> 'm status \<Rightarrow> (int \<Rightarrow> 'm) \<Rightarrow> bool" where
  "forks prog p x k \<longleftrightarrow> (\<exists>m. x = Running m \<and> prog p m = Fork k)"

definition waits :: "(pid \<Rightarrow> 'm \<Rightarrow> ('m, 'o) action) \<Rightarrow> pid \<Rightarrow> 'm status \<Rightarrow> 'm \<Rightarrow> bool" where
  "waits prog p x m' \<longleftrightarrow> (\<exists>m. x = Running m \<and> prog p m = Wait m')"

lemma family_inject [simp]:
  "alone P x os = alone P x' os' \<longleftrightarrow> x = x' \<and> os = os'"
  "P \<noteq> c \<Longrightarrow> couple P x c y os = couple P x' c y' os' \<longleftrightarrow> x = x' \<and> y = y' \<and> os = os'"
  "bereft P x c os = bereft P x' c os' \<longleftrightarrow> x = x' \<and> os = os'"
proof -
  show "alone P x os = alone P x' os' \<longleftrightarrow> x = x' \<and> os = os'" "bereft P x c os = bereft P x' c os' \<longleftrightarrow> x = x' \<and> os = os'"
    by (auto simp: alone_def bereft_def dest: fun_cong [of _ _ P])
  show "couple P x c y os = couple P x' c y' os' \<longleftrightarrow> x = x' \<and> y = y' \<and> os = os'" if "P \<noteq> c"
    using that by (auto simp: couple_def dest: fun_cong [of _ _ P] fun_cong [of _ _ c])
qed

lemma alone_step:
  assumes "kstep prog e (alone P x os) = Some s'" "P \<noteq> 0"
  shows "(\<exists>x' os'. own_step prog P x os x' os' \<and> s' = alone P x' os') \<or>
     (\<exists>k c. forks prog P x k \<and> c \<noteq> P \<and> c \<noteq> 0 \<and> s' = couple P (Running (k (int c))) c (Running (k 0)) os) \<or>
     (\<exists>m'. waits prog P x m' \<and> s' = alone P (Running m') os)"
  using assms
  by (cases e)
    (auto simp: family own_steps waits_def forks_def split: if_splits option.splits action.splits status.splits)

lemma couple_step:
  assumes "kstep prog e (couple P x c y os) = Some s'" "P \<noteq> c" "\<not> (\<exists>k. forks prog P x k)" "\<not> (\<exists>k. forks prog c y k)"
    "\<not> (\<exists>m. waits prog c y m)"
  shows "(\<exists>x' os'. own_step prog P x os x' os' \<and> s' = couple P x' c y os') \<or>
     (\<exists>y' os'. own_step prog c y os y' os' \<and> s' = couple P x c y' os') \<or>
     (\<exists>m'. waits prog P x m' \<and> y = Zombie \<and> s' = bereft P (Running m') c os)"
  using assms
  by (cases e)
    (auto simp: family own_steps waits_def forks_def split: if_splits option.splits action.splits status.splits)

lemma bereft_step:
  assumes "kstep prog e (bereft P x c os) = Some s'" "\<not> (\<exists>k. forks prog P x k)" "\<not> (\<exists>m. waits prog P x m)"
  shows "\<exists>x' os'. own_step prog P x os x' os' \<and> s' = bereft P x' c os'"
  using assms
  by (cases e)
    (auto simp: family own_steps waits_def forks_def split: if_splits option.splits action.splits status.splits)

section \<open>\<open>fork-question-1\<close>\<close>

definition q1_at :: "q1_pc \<Rightarrow> int \<Rightarrow> int \<Rightarrow> q1_vars status" where
  "q1_at l v r = Running \<lparr>at = l, value_v = v, pid_v = r\<rparr>"

inductive q1_inv :: "pid \<Rightarrow> (q1_vars, int) kernel \<Rightarrow> bool" for P where
  q1_alone: "x \<in> {q1_at Q1_fork 5 0, q1_at Q1_test 5 (-1), q1_at Q1_return 5 (-1), Zombie} \<Longrightarrow> q1_inv P (alone P x [])"
| q1_couple: "c \<noteq> P \<Longrightarrow> c \<noteq> 0 \<Longrightarrow> x \<in> {q1_at Q1_test 5 (int c), q1_at Q1_wait 5 (int c)} \<Longrightarrow>
     y \<in> {q1_at Q1_test 5 0, q1_at Q1_add 5 0, q1_at Q1_return 20 0, Zombie} \<Longrightarrow> q1_inv P (couple P x c y [])"
| q1_waited: "c \<noteq> P \<Longrightarrow> q1_inv P (bereft P (q1_at Q1_print 5 (int c)) c [])"
| q1_printed: "c \<noteq> P \<Longrightarrow> x \<in> {q1_at Q1_return 5 (int c), Zombie} \<Longrightarrow> q1_inv P (bereft P x c [(P, 5)])"

lemma q1_own [simp]:
  "own_step fork_question_1 p (q1_at l v r) os x os' \<longleftrightarrow> (case l of
     Q1_fork \<Rightarrow> x = q1_at Q1_test v (-1) \<and> os' = os
   | Q1_test \<Rightarrow> x = q1_at (if r = 0 then Q1_add else if r > 0 then Q1_wait else Q1_return) v r \<and> os' = os
   | Q1_add \<Rightarrow> x = q1_at Q1_return (v + 15) r \<and> os' = os
   | Q1_wait \<Rightarrow> False
   | Q1_print \<Rightarrow> x = q1_at Q1_return v r \<and> os' = os @ [(p, v)]
   | Q1_return \<Rightarrow> x = Zombie \<and> os' = os)"
  "\<not> own_step fork_question_1 p Zombie os x os'"
  "forks fork_question_1 p (q1_at l v r) k \<longleftrightarrow> l = Q1_fork \<and> k = (\<lambda>r'. \<lparr>at = Q1_test, value_v = v, pid_v = r'\<rparr>)"
  "\<not> forks fork_question_1 p Zombie k"
  "waits fork_question_1 p (q1_at l v r) m \<longleftrightarrow> l = Q1_wait \<and> m = \<lparr>at = Q1_print, value_v = v, pid_v = r\<rparr>"
  "\<not> waits fork_question_1 p Zombie m"
  by (auto simp: own_steps fork_question_1_def q1_at_def forks_def waits_def split: q1_pc.splits)

lemma q1_inv_step:
  assumes I: "q1_inv P s" and P: "P \<noteq> 0" and S: "kstep fork_question_1 e s = Some s'"
  shows "q1_inv P s'"
  using I
proof cases
  case (q1_alone x)
  with alone_step [OF S [unfolded q1_alone(1)] P] show ?thesis
    by (auto intro!: q1_inv.intros simp: q1_at_def [symmetric])
next
  case (q1_couple c x y)
  then have "\<not> (\<exists>k. forks fork_question_1 P x k)" "\<not> (\<exists>k. forks fork_question_1 c y k)"
    "\<not> (\<exists>m. waits fork_question_1 c y m)" by auto
  from couple_step [OF S [unfolded q1_couple(1)] _ this] q1_couple show ?thesis
    by (auto intro!: q1_inv.intros simp: q1_at_def [symmetric])
next
  case (q1_waited c)
  with bereft_step [OF S [unfolded q1_waited(1)]] show ?thesis
    by (auto intro!: q1_inv.intros)
next
  case (q1_printed c x)
  with bereft_step [OF S [unfolded q1_printed(1)]] show ?thesis
    by (auto intro!: q1_inv.intros)
qed

text \<open>Whatever a process can do by itself or by \<open>wait\<close> is an event of the kernel.\<close>

lemma alone_event: "own_step prog P x os x' os' \<Longrightarrow> \<exists>e s'. kstep prog e (alone P x os) = Some s'"
proof (induction rule: own_step.induct)
  case (own_fork_fail m k os)
  then show ?case by (intro exI [of _ "Fail P"]) (simp add: family)
next
  case (own_foreign os v)
  then show ?case by (intro exI [of _ "Foreign_Print P v"]) (simp add: family)
next
  case (own_foreign_exit os)
  then show ?case by (intro exI [of _ "Foreign_Exit P"]) (simp add: family)
qed (intro exI [of _ "Step P"], simp add: family)+

lemma couple_event:
  assumes "P \<noteq> c" "own_step prog P x os x' os' \<or> own_step prog c y os x' os' \<or> waits prog P x m \<and> y = Zombie"
  shows "\<exists>e s'. kstep prog e (couple P x c y os) = Some s'"
  using assms(2)
proof (elim disjE conjE)
  assume "own_step prog P x os x' os'"
  then show ?thesis
  proof cases
    case (own_fork_fail m k)
    with assms(1) show ?thesis by (intro exI [of _ "Fail P"]) (simp add: family)
  next
    case (own_foreign v)
    with assms(1) show ?thesis by (intro exI [of _ "Foreign_Print P v"]) (simp add: family)
  next
    case own_foreign_exit
    with assms(1) show ?thesis by (intro exI [of _ "Foreign_Exit P"]) (simp add: family)
  qed (use assms(1) in \<open>intro exI [of _ "Step P"], simp add: family\<close>)+
next
  assume "own_step prog c y os x' os'"
  then show ?thesis
  proof cases
    case (own_fork_fail m k)
    with assms(1) show ?thesis by (intro exI [of _ "Fail c"]) (simp add: family)
  next
    case (own_foreign v)
    with assms(1) show ?thesis by (intro exI [of _ "Foreign_Print c v"]) (simp add: family)
  next
    case own_foreign_exit
    with assms(1) show ?thesis by (intro exI [of _ "Foreign_Exit c"]) (simp add: family)
  qed (use assms(1) in \<open>intro exI [of _ "Step c"], simp add: family\<close>)+
next
  assume "waits prog P x m" "y = Zombie"
  then show ?thesis using assms(1)
    by (intro exI [of _ "Reap P c"]) (auto simp: family waits_def)
qed

lemma bereft_event: "own_step prog P x os x' os' \<Longrightarrow> \<exists>e s'. kstep prog e (bereft P x c os) = Some s'"
proof (induction rule: own_step.induct)
  case (own_fork_fail m k os)
  then show ?case by (intro exI [of _ "Fail P"]) (simp add: family)
next
  case (own_foreign os v)
  then show ?case by (intro exI [of _ "Foreign_Print P v"]) (simp add: family)
next
  case (own_foreign_exit os)
  then show ?case by (intro exI [of _ "Foreign_Exit P"]) (simp add: family)
qed (intro exI [of _ "Step P"], simp add: family)+

text \<open>The work left, summed over the table.\<close>

definition table_work :: "('m status \<Rightarrow> nat) \<Rightarrow> ('m, 'o) kernel \<Rightarrow> nat" where
  "table_work w s = (\<Sum>p \<leftarrow> pids s. case procs s p of None \<Rightarrow> 0 | Some (q, x) \<Rightarrow> w x)"

lemma family_work [simp]:
  "table_work w (alone P x os) = w x" "P \<noteq> c \<Longrightarrow> table_work w (couple P x c y os) = w x + w y"
  "P \<noteq> c \<Longrightarrow> table_work w (bereft P x c os) = w x"
  by (simp_all add: table_work_def family)

fun q1_rank :: "q1_vars status \<Rightarrow> nat" where
  "q1_rank (Running m) = (case at m of Q1_fork \<Rightarrow> 9 | Q1_test \<Rightarrow> 4 | Q1_add \<Rightarrow> 2 | Q1_wait \<Rightarrow> 3 | Q1_print \<Rightarrow> 2 | Q1_return \<Rightarrow> 1)"
| "q1_rank _ = 0"

lemma q1_rank_at [simp]: "q1_rank (q1_at l v r) =
   (case l of Q1_fork \<Rightarrow> 9 | Q1_test \<Rightarrow> 4 | Q1_add \<Rightarrow> 2 | Q1_wait \<Rightarrow> 3 | Q1_print \<Rightarrow> 2 | Q1_return \<Rightarrow> 1)"
  by (simp add: q1_at_def)

lemma q1_work_step:
  assumes I: "q1_inv P s" and P: "P \<noteq> 0" and S: "kstep fork_question_1 e s = Some s'"
  shows "table_work q1_rank s' < table_work q1_rank s"
  using I
proof cases
  case (q1_alone x)
  with alone_step [OF S [unfolded q1_alone(1)] P] show ?thesis
    by (auto simp: q1_at_def [symmetric])
next
  case (q1_couple c x y)
  then have "\<not> (\<exists>k. forks fork_question_1 P x k)" "\<not> (\<exists>k. forks fork_question_1 c y k)"
    "\<not> (\<exists>m. waits fork_question_1 c y m)" by auto
  from couple_step [OF S [unfolded q1_couple(1)] _ this] q1_couple show ?thesis
    by (auto simp: q1_at_def [symmetric])
next
  case (q1_waited c)
  with bereft_step [OF S [unfolded q1_waited(1)]] show ?thesis by auto
next
  case (q1_printed c x)
  with bereft_step [OF S [unfolded q1_printed(1)]] show ?thesis by auto
qed

lemma q1_end:
  assumes I: "q1_inv P s" and st: "stuck (kstep fork_question_1) s"
  shows "s = alone P Zombie [] \<or> (\<exists>c. c \<noteq> P \<and> s = bereft P Zombie c [(P, 5)])"
  using I
proof cases
  case (q1_alone x)
  with st alone_event [of fork_question_1 P x "[]"] show ?thesis by (auto simp: stuck_def)
next
  case (q1_couple c x y)
  with st couple_event [of P c fork_question_1 x "[]" _ _ y] show ?thesis by (fastforce simp: stuck_def)
next
  case (q1_waited c)
  with st bereft_event [of fork_question_1 P "q1_at Q1_print 5 (int c)" "[]" _ _ c] show ?thesis by (auto simp: stuck_def)
next
  case (q1_printed c x)
  with st bereft_event [of fork_question_1 P x "[(P, 5)]" _ _ c] show ?thesis by (auto simp: stuck_def)
qed

interpretation q1: terminating_system "kstep fork_question_1" "boot (Suc n) q1_start" "q1_inv (Suc n)" "table_work q1_rank" for n
proof
  show "q1_inv (Suc n) (boot (Suc n) q1_start)"
    unfolding boot_alone by (rule q1_alone) (simp add: q1_start_def q1_at_def)
qed (erule q1_inv_step q1_work_step, simp, assumption)+

section \<open>\<open>fork-question-2\<close>\<close>

definition st :: "('m, 'o) kernel \<Rightarrow> pid \<Rightarrow> 'm status" where
  "st s p = (case procs s p of Some (q, x) \<Rightarrow> x | None \<Rightarrow> Zombie)"

definition tot :: "('m status \<Rightarrow> nat) \<Rightarrow> ('m, 'o) kernel \<Rightarrow> nat" where
  "tot w s = (\<Sum>p \<in> set (pids s). w (st s p))"

text \<open>
  For each status: the processes that will have come from it, the lines they will still print,
  and the calls they will still make, when every \<open>fork\<close> succeeds.
\<close>

fun offspring :: "q2_pc status \<Rightarrow> nat" where
  "offspring (Running m) = (case m of Print1 \<Rightarrow> 8 | Fork1 \<Rightarrow> 8 | Print2 \<Rightarrow> 4 | Fork2 \<Rightarrow> 4 | Print3 \<Rightarrow> 2 | Fork3 \<Rightarrow> 2 | _ \<Rightarrow> 1)"
| "offspring _ = 1"

fun lines_left :: "q2_pc status \<Rightarrow> nat" where
  "lines_left (Running m) = (case m of Print1 \<Rightarrow> 15 | Fork1 \<Rightarrow> 14 | Print2 \<Rightarrow> 7 | Fork2 \<Rightarrow> 6 | Print3 \<Rightarrow> 3 | Fork3 \<Rightarrow> 2
     | Print4 \<Rightarrow> 1 | Return \<Rightarrow> 0)"
| "lines_left _ = 0"

fun calls_left :: "q2_pc status \<Rightarrow> nat" where
  "calls_left (Running m) = (case m of Print1 \<Rightarrow> 30 | Fork1 \<Rightarrow> 29 | Print2 \<Rightarrow> 14 | Fork2 \<Rightarrow> 13 | Print3 \<Rightarrow> 6 | Fork3 \<Rightarrow> 5
     | Print4 \<Rightarrow> 2 | Return \<Rightarrow> 1)"
| "calls_left _ = 0"

fun has_printed :: "q2_pc status \<Rightarrow> bool" where
  "has_printed (Running m) \<longleftrightarrow> m \<in> {Fork1, Fork2, Fork3, Return}"
| "has_printed _ \<longleftrightarrow> True"

text \<open>A step changes the status of one process, and a fork adds one.\<close>

inductive q2_moves :: "(q2_pc, pid) kernel \<Rightarrow> (q2_pc, pid) kernel \<Rightarrow> bool" for s where
  moves_print: "p \<in> set (pids s) \<Longrightarrow> st s p = Running m \<Longrightarrow> fork_question_2 p m = Print p m' \<Longrightarrow>
     pids s' = pids s \<Longrightarrow> st s' = (st s)(p := Running m') \<Longrightarrow> out s' = out s @ [(p, p)] \<Longrightarrow> q2_moves s s'"
| moves_exit: "p \<in> set (pids s) \<Longrightarrow> st s p = Running Return \<Longrightarrow>
     pids s' = pids s \<Longrightarrow> st s' = (st s)(p := Zombie) \<Longrightarrow> out s' = out s \<Longrightarrow> q2_moves s s'"
| moves_fork: "p \<in> set (pids s) \<Longrightarrow> st s p = Running m \<Longrightarrow> fork_question_2 p m = Fork (\<lambda>_. m') \<Longrightarrow> c \<notin> set (pids s) \<Longrightarrow>
     pids s' = pids s @ [c] \<Longrightarrow> st s' = (st s)(p := Running m', c := Running m') \<Longrightarrow> out s' = out s \<Longrightarrow> q2_moves s s'"

definition known :: "('m, 'o) kernel \<Rightarrow> bool" where
  "known s \<longleftrightarrow> dom (procs s) = set (pids s) \<and> distinct (pids s) \<and> (\<forall>p. st s p \<noteq> Foreign)"

lemma running_st: "running p s = Some m \<Longrightarrow> st s p = Running m \<and> p \<in> dom (procs s)"
  by (auto simp: running_def st_def split: option.splits status.splits)

lemma st_set_status: "p \<in> dom (procs s) \<Longrightarrow> st (set_status p x s) = (st s)(p := x)"
  by (auto simp: st_def set_status_def fun_eq_iff)

lemma dom_set_status: "dom (procs (set_status p x s)) = dom (procs s)"
  by (auto simp: set_status_def split: if_splits)

lemma st_spawn: "st (spawn p c m s) = (st s)(c := Running m)"
  by (auto simp: st_def spawn_def fun_eq_iff)

lemma set_status_same [simp]: "pids (set_status p x s) = pids s" "out (set_status p x s) = out s"
  by (simp_all add: set_status_def)

lemma say_same [simp]: "pids (say p x s) = pids s" "procs (say p x s) = procs s" "out (say p x s) = out s @ [(p, x)]"
  "st (say p x s) = st s"
  by (simp_all add: say_def st_def fun_eq_iff)

lemma spawn_same [simp]: "pids (spawn p c m s) = pids s @ [c]" "out (spawn p c m s) = out s"
  "dom (procs (spawn p c m s)) = insert c (dom (procs s))"
  by (simp_all add: spawn_def)

lemma tot_upd:
  assumes "p \<in> set (pids s)" "pids s' = pids s" "st s' = (st s)(p := x)"
  shows "tot w s' + w (st s p) = tot w s + w x"
proof -
  have "(\<Sum>q \<in> set (pids s) - {p}. w (st s' q)) = (\<Sum>q \<in> set (pids s) - {p}. w (st s q))"
    using assms(3) by (intro sum.cong) auto
  then show ?thesis
    using assms sum.remove [of "set (pids s)" p "\<lambda>q. w (st s q)"] sum.remove [of "set (pids s)" p "\<lambda>q. w (st s' q)"]
    by (simp add: tot_def)
qed

lemma tot_fork:
  assumes "p \<in> set (pids s)" "c \<notin> set (pids s)" "pids s' = pids s @ [c]" "st s' = (st s)(p := x, c := y)"
  shows "tot w s' + w (st s p) = tot w s + w x + w y"
proof -
  have "(\<Sum>q \<in> set (pids s) - {p}. w (st s' q)) = (\<Sum>q \<in> set (pids s) - {p}. w (st s q))"
    using assms by (intro sum.cong) auto
  moreover have "tot w s' = w y + (\<Sum>q \<in> set (pids s). w (st s' q))"
    using assms by (simp add: tot_def)
  moreover have "st s' p = x" using assms by auto
  ultimately show ?thesis
    using assms(1) sum.remove [of "set (pids s)" p "\<lambda>q. w (st s q)"] sum.remove [of "set (pids s)" p "\<lambda>q. w (st s' q)"]
    by (simp add: tot_def)
qed

lemma known_intros:
  "known s \<Longrightarrow> p \<in> dom (procs s) \<Longrightarrow> x \<noteq> Foreign \<Longrightarrow> known (set_status p x s)"
  "known s \<Longrightarrow> known (say p v s)"
  "known s \<Longrightarrow> c \<notin> set (pids s) \<Longrightarrow> known (spawn p c m s)"
  by (simp_all add: known_def st_set_status dom_set_status st_spawn)

lemma q2_step_moves:
  assumes K: "known s" and S: "kstep_ok fork_question_2 e s = Some s'"
  shows "known s' \<and> q2_moves s s'"
proof (cases e)
  case (Step p)
  with S obtain m where m: "running p s = Some m" by (auto split: option.splits)
  note r = running_st [OF m]
  have p: "p \<in> set (pids s)" using r K by (auto simp: known_def)
  note u = st_set_status [OF conjunct2 [OF r]]
  from S Step m r p K show ?thesis
    by (cases m)
      (auto simp: fork_question_2_def put_def u
        intro: moves_print [of p s] moves_exit [of p s] known_intros)
next
  case (Fork_Ok p c)
  with S obtain m where m: "running p s = Some m" by (auto split: option.splits)
  note r = running_st [OF m]
  have p: "p \<in> set (pids s)" using r K by (auto simp: known_def)
  note u = st_set_status [OF conjunct2 [OF r]]
  from S Fork_Ok m r p K show ?thesis
    by (cases m)
      (auto simp: fork_question_2_def put_def u st_spawn
        split: if_splits intro: moves_fork [of p s] intro!: known_intros)
next
  case (Reap p c)
  with S show ?thesis by (auto simp: fork_question_2_def split: option.splits q2_pc.splits)
next
  case (Foreign_Print p x)
  with S K show ?thesis by (auto simp: known_def st_def split: option.splits status.splits)
next
  case (Foreign_Exit p)
  with S K show ?thesis by (auto simp: known_def st_def split: option.splits status.splits)
qed (use S in simp)

definition q2_inv :: "(q2_pc, pid) kernel \<Rightarrow> bool" where
  "q2_inv s \<longleftrightarrow> known s \<and> tot offspring s = 8 \<and> length (out s) + tot lines_left s = 15 \<and>
     (\<forall>p \<in> set (pids s). has_printed (st s p) \<longrightarrow> p \<in> snd ` set (out s)) \<and> snd ` set (out s) \<subseteq> set (pids s)"

lemma q2_inv_step:
  assumes I: "q2_inv s" and S: "kstep_ok fork_question_2 e s = Some s'"
  shows "q2_inv s'" and "tot calls_left s' < tot calls_left s"
proof -
  have "known s" using I by (simp add: q2_inv_def)
  from q2_step_moves [OF this S] have K: "known s'" and M: "q2_moves s s'" by simp_all
  have "q2_inv s' \<and> tot calls_left s' < tot calls_left s" using M
  proof cases
    case (moves_print p m m')
    note t = tot_upd [OF moves_print(1,4,5)]
    show ?thesis
      using t [of offspring] t [of lines_left] t [of calls_left] I K moves_print
      by (cases m) (auto simp: q2_inv_def fork_question_2_def)
  next
    case (moves_exit p)
    note t = tot_upd [OF moves_exit(1,3,4)]
    show ?thesis
      using t [of offspring] t [of lines_left] t [of calls_left] I K moves_exit
      by (auto simp: q2_inv_def)
  next
    case (moves_fork p m m' c)
    note t = tot_fork [OF moves_fork(1,4,5,6)]
    show ?thesis
      using t [of offspring] t [of lines_left] t [of calls_left] I K moves_fork
      by (cases m) (auto simp: q2_inv_def fork_question_2_def fun_eq_iff)
  qed
  then show "q2_inv s'" "tot calls_left s' < tot calls_left s" by simp_all
qed

lemma q2_end:
  assumes I: "q2_inv s" and S: "stuck (kstep_ok fork_question_2) s"
  shows "\<forall>p \<in> set (pids s). st s p = Zombie"
proof (rule ballI, rule ccontr)
  fix p assume p: "p \<in> set (pids s)" "st s p \<noteq> Zombie"
  moreover have "st s p \<noteq> Foreign" using I by (simp add: q2_inv_def known_def)
  ultimately obtain m where m: "running p s = Some m"
    by (cases "st s p") (auto simp: st_def running_def split: option.splits)
  obtain c where c: "c \<noteq> 0" "c \<notin> set (pids s)"
    using ex_new_if_finite [of "insert 0 (set (pids s))"] by auto
  have "kstep_ok fork_question_2 (if m \<in> {Fork1, Fork2, Fork3} then Fork_Ok p c else Step p) s \<noteq> None"
    using m c by (cases m) (auto simp: fork_question_2_def)
  with S show False by (auto simp: stuck_def)
qed

interpretation q2: terminating_system "kstep_ok fork_question_2" "boot P Print1" q2_inv "tot calls_left" for P
proof
  show "q2_inv (boot P Print1)"
    by (auto simp: q2_inv_def known_def boot_def tot_def st_def)
qed (rule q2_inv_step, assumption+)+

section \<open>Properties\<close>

text \<open>C32: \<open>fork-question-2\<close> with successful forks: whatever the interleaving, the program makes at most
  30 calls; when nothing can run any more it has printed 15 lines, with exactly 8 different
  identifiers, those of all the processes created.\<close>

theorem fork_question_2_counts:
  assumes "run (kstep_ok fork_question_2) es (boot P Print1) = Some s"
  shows "length es \<le> 30 \<and> (stuck (kstep_ok fork_question_2) s \<longrightarrow>
     length (out s) = 15 \<and> card (snd ` set (out s)) = 8 \<and> snd ` set (out s) = set (pids s))"
proof -
  have I: "q2_inv s" by (rule q2.run_inv [OF assms])
  have "tot calls_left (boot P Print1 :: (q2_pc, pid) kernel) = 30" by (simp add: tot_def boot_def st_def)
  with q2.run_bounded [OF assms] have "length es \<le> 30" by simp
  moreover have "length (out s) = 15 \<and> card (snd ` set (out s)) = 8 \<and> snd ` set (out s) = set (pids s)"
    if "stuck (kstep_ok fork_question_2) s"
  proof -
    have Z: "st s p = Zombie" if "p \<in> set (pids s)" for p using q2_end [OF I \<open>stuck _ s\<close>] that by blast
    then have "tot lines_left s = 0" "tot offspring s = card (set (pids s))" by (simp_all add: tot_def)
    moreover have "snd ` set (out s) = set (pids s)" using I Z by (auto simp: q2_inv_def)
    ultimately show ?thesis using I by (simp add: q2_inv_def)
  qed
  ultimately show ?thesis by blast
qed

definition q2_schedule :: "pid kevent list" where
  "q2_schedule = [Step 1, Fork_Ok 1 2, Step 1, Step 2, Fork_Ok 1 3, Fork_Ok 2 4, Step 1, Step 2, Step 3, Step 4,
     Fork_Ok 1 5, Fork_Ok 2 6, Fork_Ok 3 7, Fork_Ok 4 8,
     Step 1, Step 2, Step 3, Step 4, Step 5, Step 6, Step 7, Step 8,
     Step 1, Step 2, Step 3, Step 4, Step 5, Step 6, Step 7, Step 8]"

theorem fork_question_2_counts_witness:
  "\<exists>s. run (kstep_ok fork_question_2) q2_schedule (boot 1 Print1) = Some s \<and> card (snd ` set (out s)) = 8"
proof -
  have "map_option (\<lambda>s. pids s) (run (kstep_ok fork_question_2) q2_schedule (boot 1 Print1)) =
     Some [1, 2, 3, 4, 5, 6, 7, 8]" by code_simp
  then obtain s where s: "run (kstep_ok fork_question_2) q2_schedule (boot 1 Print1) = Some s" by (auto simp del: run.simps)
  have "length q2_schedule = 30" by (simp add: q2_schedule_def)
  then have "stuck (kstep_ok fork_question_2) s"
    unfolding stuck_def
  proof (intro allI)
    fix e
    show "kstep_ok fork_question_2 e s = None"
    proof (rule ccontr)
      assume "kstep_ok fork_question_2 e s \<noteq> None"
      then obtain s' where "run (kstep_ok fork_question_2) (q2_schedule @ [e]) (boot 1 Print1) = Some s'"
        using s by (auto simp: run_append)
      with fork_question_2_counts [OF this] \<open>length q2_schedule = 30\<close> show False by simp
    qed
  qed
  with fork_question_2_counts [OF s] s show ?thesis by blast
qed

text \<open>\<open>fork-question-1\<close>: every run ends; the child's assignment does not reach the parent, which prints
  5 after the child has ended (the child's own copy is 20 by then); only if the fork fails is nothing printed.\<close>

theorem fork_question_1_prints:
  assumes "run (kstep fork_question_1) es (boot P q1_start) = Some s" "P \<noteq> 0"
  shows "length es \<le> 9 \<and> (out s = [] \<or> out s = [(P, 5)] \<and> dom (procs s) = {P}) \<and>
     (\<forall>c m. c \<noteq> P \<longrightarrow> running c s = Some m \<longrightarrow> at m = Q1_return \<longrightarrow> value_v m = 20) \<and>
     (stuck (kstep fork_question_1) s \<longrightarrow> out s = (if pids s = [P] then [] else [(P, 5)]))"
proof -
  obtain n where n: "P = Suc n" using assms(2) by (cases P) auto
  note R = assms(1) [unfolded n]
  have I: "q1_inv P s" using q1.run_inv [OF R] n by simp
  have "table_work q1_rank (boot P q1_start :: (q1_vars, int) kernel) = 9" by (simp add: boot_alone q1_start_def)
  with q1.run_bounded [OF R] n have "length es \<le> 9" by simp
  moreover have "out s = [] \<or> out s = [(P, 5)] \<and> dom (procs s) = {P}"
    using I by cases (auto simp: bereft_def)
  moreover have "value_v m = 20" if "c \<noteq> P" "running c s = Some m" "at m = Q1_return" for c m
    using I that by cases (auto simp: family q1_at_def split: if_splits)
  moreover have "out s = (if pids s = [P] then [] else [(P, 5)])" if "stuck (kstep fork_question_1) s"
    using q1_end [OF I that] by (auto simp: family)
  ultimately show ?thesis by blast
qed

theorem fork_question_1_prints_witness:
  "\<exists>s. run (kstep fork_question_1) [Fork_Ok 1 2, Step 2, Step 1, Step 2, Step 2, Reap 1 2, Step 1, Step 1] (boot 1 q1_start) = Some s \<and>
     out s = [(1, 5)]"
proof -
  let ?es = "[Fork_Ok 1 2, Step 2, Step 1, Step 2, Step 2, Reap 1 2, Step 1, Step 1] :: int kevent list"
  have "map_option (\<lambda>s. out s \<noteq> []) (run (kstep fork_question_1) ?es (boot 1 q1_start)) = Some True" by code_simp
  then obtain s where s: "run (kstep fork_question_1) ?es (boot 1 q1_start) = Some s" "out s \<noteq> []"
    by (auto simp del: run.simps)
  from fork_question_1_prints [OF s(1)] s show ?thesis by (auto simp del: run.simps)
qed

inductive np_inv :: "pid \<Rightarrow> (np_pc, np_line) kernel \<Rightarrow> bool" for P where
  np_alone: "(x, os) \<in> {(Running N_fork, []), (Running (N_test (-1)), []), (Running N_return, [(P, Fork_Failed)]),
     (Zombie, [(P, Fork_Failed)])} \<Longrightarrow> np_inv P (alone P x os)"
| np_couple: "c \<noteq> P \<Longrightarrow> c \<noteq> 0 \<Longrightarrow> x \<in> {Running (N_test (int c)), Running N_wait} \<Longrightarrow>
     y \<in> {Running (N_test 0), Running N_exec, Running N_return, Foreign, Zombie} \<Longrightarrow>
     (P, Child_Complete) \<notin> set os \<Longrightarrow> np_inv P (couple P x c y os)"
| np_waited: "c \<noteq> P \<Longrightarrow> (P, Child_Complete) \<notin> set os \<Longrightarrow> np_inv P (bereft P (Running N_complete) c os)"
| np_done: "c \<noteq> P \<Longrightarrow> x \<in> {Running N_return, Zombie} \<Longrightarrow> (P, Child_Complete) \<notin> set os \<Longrightarrow>
     np_inv P (bereft P x c (os @ [(P, Child_Complete)]))"

lemma np_inv_step:
  assumes I: "np_inv P s" and P: "P \<noteq> 0" and S: "kstep newproc e s = Some s'"
  shows "np_inv P s'"
  using I
proof cases
  case (np_alone x os)
  with alone_step [OF S [unfolded np_alone(1)] P] show ?thesis
    by (auto intro!: np_inv.intros simp: own_steps newproc_def forks_def waits_def)
next
  case (np_couple c x y os)
  then have "\<not> (\<exists>k. forks newproc P x k)" "\<not> (\<exists>k. forks newproc c y k)" "\<not> (\<exists>m. waits newproc c y m)"
    by (auto simp: forks_def waits_def newproc_def)
  from couple_step [OF S [unfolded np_couple(1)] _ this] np_couple show ?thesis
    by (auto intro!: np_inv.intros simp: own_steps newproc_def waits_def)
next
  case (np_waited c os)
  with bereft_step [OF S [unfolded np_waited(1)]] show ?thesis
    by (auto intro!: np_inv.intros simp: own_steps newproc_def waits_def forks_def)
next
  case (np_done c x os)
  with bereft_step [OF S [unfolded np_done(1)]] show ?thesis
    by (auto intro!: np_inv.intros simp: own_steps newproc_def waits_def forks_def)
qed

lemma np_end:
  assumes I: "np_inv P s" and S: "stuck (kstep newproc) s"
  shows "out s = [(P, Fork_Failed)] \<or> (P, Child_Complete) \<in> set (out s)"
  using I
proof cases
  case (np_alone x os)
  with S alone_event [of newproc P x os] show ?thesis by (auto simp: stuck_def own_steps newproc_def)
next
  case (np_couple c x y os)
  with S couple_event [of P c newproc x os _ _ y] show ?thesis
    by (fastforce simp: stuck_def own_steps newproc_def waits_def)
next
  case (np_waited c os)
  with S bereft_event [of newproc P "Running N_complete" os _ _ c] show ?thesis by (fastforce simp: stuck_def own_steps newproc_def)
qed simp

interpretation np: invariant_system "kstep newproc" "boot (Suc n) N_fork" "np_inv (Suc n)" for n
proof
  show "np_inv (Suc n) (boot (Suc n) N_fork)" unfolding boot_alone by (rule np_alone) simp
qed (erule np_inv_step, simp, assumption)

text \<open>\<open>newproc-posix\<close>: the parent prints \<open>Child Complete\<close> only when the child, whatever program it has
  become, has ended and has been waited for, and it is the last line of all; every run that ends has printed
  it, unless the fork failed and the error message was printed.\<close>

theorem newproc_waits_for_child:
  assumes "reachable (kstep newproc) (boot P N_fork) s" "P \<noteq> 0"
  shows "((P, Child_Complete) \<in> set (out s) \<longrightarrow> (\<exists>os c. out s = os @ [(P, Child_Complete)] \<and>
       (P, Child_Complete) \<notin> set os \<and> pids s = [P, c] \<and> dom (procs s) = {P})) \<and>
     (stuck (kstep newproc) s \<longrightarrow> out s = [(P, Fork_Failed)] \<or> (P, Child_Complete) \<in> set (out s))"
proof -
  obtain n where n: "P = Suc n" using assms(2) by (cases P) auto
  have I: "np_inv P s" using np.reachable_inv [OF assms(1) [unfolded n]] n by simp
  then have "(P, Child_Complete) \<in> set (out s) \<longrightarrow> (\<exists>os c. out s = os @ [(P, Child_Complete)] \<and>
       (P, Child_Complete) \<notin> set os \<and> pids s = [P, c] \<and> dom (procs s) = {P})"
    by cases (auto simp: bereft_def)
  with np_end [OF I] show ?thesis by blast
qed

theorem newproc_waits_for_child_witness:
  "\<exists>s os. reachable (kstep newproc) (boot 7 N_fork) s \<and> out s = os @ [(7, Child_Complete)] \<and> (8, Listing ''file1'') \<in> set os"
proof -
  let ?es = "[Fork_Ok 7 8, Step 7, Step 8, Step 8, Foreign_Print 8 (Listing ''file1''), Foreign_Exit 8, Reap 7 8, Step 7]"
  have "map_option out (run (kstep newproc) ?es (boot 7 N_fork)) =
     Some [(7, I_am_the_parent 8), (8, I_am_the_child 0), (8, Listing ''file1''), (7, Child_Complete)]" by code_simp
  then obtain s where s: "run (kstep newproc) ?es (boot 7 N_fork) = Some s"
      "out s = [(7, I_am_the_parent 8), (8, I_am_the_child 0), (8, Listing ''file1''), (7, Child_Complete)]"
    by (auto simp del: run.simps)
  have r: "reachable (kstep newproc) (boot 7 N_fork) s" by (rule run_reachable [OF reachable.start s(1)])
  from newproc_waits_for_child [OF r] s(2) r show ?thesis by auto
qed

inductive z_inv :: "pid \<Rightarrow> (z_pc, z_line) kernel \<Rightarrow> bool" for P where
  z_start: "z_inv P (alone P (Running Z_hello) [])"
| z_said: "z_inv P (alone P (Running Z_calling) [(P, Hello)])"
| z_forking: "m \<in> {Z_fork, Z_test (-1)} \<Longrightarrow> z_inv P (alone P (Running m) [(P, Hello), (P, Calling_Fork)])"
| z_failed: "x \<in> {Running Z_return, Zombie} \<Longrightarrow> z_inv P (alone P x [(P, Hello), (P, Calling_Fork), (P, Fork_Error)])"
| z_couple: "c \<noteq> P \<Longrightarrow> c \<noteq> 0 \<Longrightarrow> x \<in> {Running (Z_test (int c)), Running Z_sleep, Running Z_slept, Running Z_wait} \<Longrightarrow>
     y \<in> {Running (Z_test 0), Running Z_return, Zombie} \<Longrightarrow>
     (P, Done_Sleeping) \<in> set os \<longleftrightarrow> x = Running Z_wait \<Longrightarrow> z_inv P (couple P x c y os)"
| z_waited: "c \<noteq> P \<Longrightarrow> x \<in> {Running Z_return, Zombie} \<Longrightarrow> (P, Done_Sleeping) \<in> set os \<Longrightarrow> z_inv P (bereft P x c os)"

lemma z_own [simp]:
  "own_step pp319 p (Running m) os x os' \<longleftrightarrow> (case m of
     Z_hello \<Rightarrow> x = Running Z_calling \<and> os' = os @ [(p, Hello)]
   | Z_calling \<Rightarrow> x = Running Z_fork \<and> os' = os @ [(p, Calling_Fork)]
   | Z_fork \<Rightarrow> x = Running (Z_test (-1)) \<and> os' = os
   | Z_test r \<Rightarrow> if r < 0 then x = Running Z_return \<and> os' = os @ [(p, Fork_Error)]
       else if r = 0 then x = Running Z_return \<and> os' = os @ [(p, Child_Line)]
       else x = Running Z_sleep \<and> os' = os @ [(p, Parent_Line r)]
   | Z_sleep \<Rightarrow> x = Running Z_slept \<and> os' = os
   | Z_slept \<Rightarrow> x = Running Z_wait \<and> os' = os @ [(p, Done_Sleeping)]
   | Z_wait \<Rightarrow> False
   | Z_return \<Rightarrow> x = Zombie \<and> os' = os)"
  "\<not> own_step pp319 p Zombie os x os'"
  "forks pp319 p (Running m) k \<longleftrightarrow> m = Z_fork \<and> k = Z_test" "\<not> forks pp319 p Zombie k"
  "waits pp319 p (Running m) m' \<longleftrightarrow> m = Z_wait \<and> m' = Z_return" "\<not> waits pp319 p Zombie m'"
  by (auto simp: own_steps pp319_def forks_def waits_def split: z_pc.splits)

lemma z_inv_step:
  assumes I: "z_inv P s" and P: "P \<noteq> 0" and S: "kstep pp319 e s = Some s'"
  shows "z_inv P s'"
  using I
proof cases
  case z_start
  with alone_step [OF S [unfolded z_start] P] show ?thesis by (auto intro: z_inv.intros)
next
  case z_said
  with alone_step [OF S [unfolded z_said] P] show ?thesis by (auto intro!: z_forking)
next
  case (z_forking m)
  with alone_step [OF S [unfolded z_forking(1)] P] show ?thesis by (auto intro!: z_inv.intros)
next
  case (z_failed x)
  with alone_step [OF S [unfolded z_failed(1)] P] show ?thesis by (auto intro!: z_inv.z_failed)
next
  case (z_couple c x y os)
  then have "\<not> (\<exists>k. forks pp319 P x k)" "\<not> (\<exists>k. forks pp319 c y k)" "\<not> (\<exists>m. waits pp319 c y m)"
    by auto
  from couple_step [OF S [unfolded z_couple(1)] _ this] z_couple show ?thesis
    by (auto intro!: z_inv.intros)
next
  case (z_waited c x os)
  with bereft_step [OF S [unfolded z_waited(1)]] show ?thesis
    by (auto intro!: z_inv.intros)
qed

interpretation zp: invariant_system "kstep pp319" "boot (Suc n) Z_hello" "z_inv (Suc n)" for n
proof
  show "z_inv (Suc n) (boot (Suc n) Z_hello)" unfolding boot_alone by (rule z_start)
qed (erule z_inv_step, simp, assumption)

text \<open>In \<open>pp3.19\<close> the ended child stays in the table until the parent has slept and waits for it.\<close>

lemma pp319_zombie:
  assumes "reachable (kstep pp319) (boot P Z_hello) s" "P \<noteq> 0" "c \<in> set (pids s)" "procs s c = None"
  shows "(P, Done_Sleeping) \<in> set (out s)"
proof -
  obtain n where n: "P = Suc n" using assms(2) by (cases P) auto
  have "z_inv P s" using zp.reachable_inv [OF assms(1) [unfolded n]] n by simp
  then show ?thesis using assms(3,4) by cases (auto simp: family split: if_splits)
qed

lemma pp319_zombie_while_sleeping:
  "\<exists>s. reachable (kstep pp319) (boot 1 Z_hello) s \<and> running 1 s = Some Z_sleep \<and> procs s 2 = Some (1, Zombie)"
proof -
  let ?es = "[Step 1, Step 1, Fork_Ok 1 2, Step 1, Step 2, Step 2] :: z_line kevent list"
  have "map_option (\<lambda>s. (running 1 s, procs s 2)) (run (kstep pp319) ?es (boot 1 Z_hello)) =
     Some (Some Z_sleep, Some (1, Zombie))" by code_simp
  then obtain s where s: "run (kstep pp319) ?es (boot 1 Z_hello) = Some s" "running 1 s = Some Z_sleep" "procs s 2 = Some (1, Zombie)"
    by (auto simp del: run.simps)
  have "reachable (kstep pp319) (boot 1 Z_hello) s" by (rule run_reachable [OF reachable.start s(1)])
  with s(2,3) show ?thesis by blast
qed

end
