(* ===== verification/Unix_Pipe.thy ===== *)
theory Unix_Pipe
  imports OSC_Prelude
begin

text \<open>
  \<open>ch3/unix_pipe.c\<close>: a parent sends a greeting to its child through a pipe. A pipe is the bytes
  that have been written and not read; which of its ends each process has open decides whether a
  read waits, ends the file or a write is fatal. The calls of \<open>read\<close> and \<open>write\<close> can fail by an event of
  their own; closing an open descriptor does not fail.
\<close>

section \<open>The program\<close>

definition BUFFER_SIZE :: nat where
  "BUFFER_SIZE = 25"

text \<open>The least capacity POSIX gives a pipe; shorter writes are not split.\<close>

definition PIPE_BUF :: nat where
  "PIPE_BUF = 512"

definition write_msg :: string where
  "write_msg = ''Greetings'' @ replicate (BUFFER_SIZE - 9) NUL"

datatype pipe_line = Pipe_Failed | Fork_Failed | Child_Read string

datatype pipe_pc = U_pipe | U_fork | P_close_r | P_write | P_close_w
  | C_close_w | C_read | C_print | C_close_r | U_return int

record pipe_state =
  buf :: string
  par :: pipe_pc
  par_r :: bool
  par_w :: bool
  chi :: "pipe_pc option"
  chi_r :: bool
  chi_w :: bool
  read_msg :: string
  out :: "pipe_line list"
  sigpipe :: bool
  failed :: "c_abort option"

text \<open>The array \<open>read_msg\<close> is not initialised: its bytes are a parameter.\<close>

definition pipe_init :: "string \<Rightarrow> pipe_state" where
  "pipe_init junk = \<lparr>buf = [], par = U_pipe, par_r = False, par_w = False, chi = None, chi_r = False, chi_w = False,
     read_msg = junk, out = [], sigpipe = False, failed = None\<rparr>"

text \<open>The \<open>bool\<close> says that the call returns -1 without transferring anything; the program does not look at it.\<close>

definition pipe_write :: "bool \<Rightarrow> string \<Rightarrow> pipe_state \<Rightarrow> pipe_state option" where
  "pipe_write err bs s =
     (if err then Some (s\<lparr>par := P_close_w\<rparr>)
      else if \<not> par_r s \<and> \<not> chi_r s then Some (s\<lparr>sigpipe := True\<rparr>)
      else if length (buf s) + length bs \<le> PIPE_BUF then Some (s\<lparr>buf := buf s @ bs, par := P_close_w\<rparr>)
      else None)"

definition pipe_read :: "bool \<Rightarrow> nat \<Rightarrow> pipe_state \<Rightarrow> pipe_state option" where
  "pipe_read err n s =
     (if err then Some (s\<lparr>chi := Some C_print\<rparr>)
      else if buf s \<noteq> [] then Some (let k = min n (length (buf s)) in
        s\<lparr>buf := drop k (buf s), read_msg := take k (buf s) @ drop k (read_msg s), chi := Some C_print\<rparr>)
      else if par_w s \<or> chi_w s then None
      else Some (s\<lparr>chi := Some C_print\<rparr>))"

definition parent_main :: "bool \<Rightarrow> pipe_state \<Rightarrow> pipe_state option" where
  "parent_main ok s = (case par s of
     U_pipe \<Rightarrow> Some (if ok then s\<lparr>par_r := True, par_w := True, par := U_fork\<rparr>
       else s\<lparr>out := out s @ [Pipe_Failed], par := U_return 1\<rparr>)
   | U_fork \<Rightarrow> Some (if ok then s\<lparr>chi := Some C_close_w, chi_r := par_r s, chi_w := par_w s, par := P_close_r\<rparr>
       else s\<lparr>out := out s @ [Fork_Failed], par := U_return 1\<rparr>)
   | P_close_r \<Rightarrow> Some (s\<lparr>par_r := False, par := P_write\<rparr>)
   | P_write \<Rightarrow> pipe_write False (take (strlen write_msg + 1) write_msg) s
   | P_close_w \<Rightarrow> Some (s\<lparr>par_w := False, par := U_return 0\<rparr>)
   | _ \<Rightarrow> None)"

definition child_main :: "pipe_state \<Rightarrow> pipe_state option" where
  "child_main s = (case chi s of
     Some C_close_w \<Rightarrow> Some (s\<lparr>chi_w := False, chi := Some C_read\<rparr>)
   | Some C_read \<Rightarrow> pipe_read False BUFFER_SIZE s
   | Some C_print \<Rightarrow> Some (case c_string (read_msg s) of
       Inl e \<Rightarrow> s\<lparr>failed := Some e\<rparr>
     | Inr x \<Rightarrow> s\<lparr>out := out s @ [Child_Read x], chi := Some C_close_r\<rparr>)
   | Some C_close_r \<Rightarrow> Some (s\<lparr>chi_r := False, chi := Some (U_return 0)\<rparr>)
   | _ \<Rightarrow> None)"

datatype pipe_event = Parent bool | Child | Write_Error | Read_Error

fun pipe_step :: "pipe_event \<Rightarrow> pipe_state \<Rightarrow> pipe_state option" where
  "pipe_step (Parent ok) s = (if sigpipe s \<or> failed s \<noteq> None then None else parent_main ok s)"
| "pipe_step Child s = (if failed s \<noteq> None then None else child_main s)"
| "pipe_step Write_Error s = (if sigpipe s \<or> failed s \<noteq> None \<or> par s \<noteq> P_write then None
     else pipe_write True (take (strlen write_msg + 1) write_msg) s)"
| "pipe_step Read_Error s = (if failed s \<noteq> None \<or> chi s \<noteq> Some C_read then None else pipe_read True BUFFER_SIZE s)"

section \<open>Runs without errors of read and write\<close>

definition io_step :: "pipe_event \<Rightarrow> pipe_state \<Rightarrow> pipe_state option" where
  "io_step e s = (if e \<in> {Write_Error, Read_Error} then None else pipe_step e s)"

lemma io_run: "Write_Error \<notin> set es \<Longrightarrow> Read_Error \<notin> set es \<Longrightarrow> run io_step es s = run pipe_step es s"
  by (induction es arbitrary: s) (auto simp: io_step_def split: option.split)

definition message :: string where
  "message = ''Greetings'' @ [NUL]"

lemma message_sent: "take (Suc (strlen write_msg)) write_msg = message"
  by code_simp

lemma message_facts [simp]: "length message = 10" "message \<noteq> []" "NUL \<in> set message"
  by (simp_all add: message_def)

lemma message_read: "c_string (message @ bs) = Inr ''Greetings''"
  by (simp add: c_string_def message_def NUL_def)

definition reader_done :: "pipe_pc \<Rightarrow> bool" where
  "reader_done q \<longleftrightarrow> q \<in> {C_print, C_close_r, U_return 0}"

inductive pipe_inv :: "string \<Rightarrow> pipe_state \<Rightarrow> bool" for junk where
  inv_start: "pipe_inv junk (pipe_init junk)"
| inv_no_pipe: "pipe_inv junk ((pipe_init junk)\<lparr>out := [Pipe_Failed], par := U_return 1\<rparr>)"
| inv_pipe: "pipe_inv junk ((pipe_init junk)\<lparr>par_r := True, par_w := True, par := U_fork\<rparr>)"
| inv_no_fork: "pipe_inv junk ((pipe_init junk)\<lparr>par_r := True, par_w := True, out := [Fork_Failed], par := U_return 1\<rparr>)"
| inv_two: "p \<in> {P_close_r, P_write, P_close_w, U_return 0} \<Longrightarrow> q \<in> {C_close_w, C_read, C_print, C_close_r, U_return 0} \<Longrightarrow>
     (reader_done q \<Longrightarrow> p \<in> {P_close_w, U_return 0}) \<Longrightarrow>
     pipe_inv junk \<lparr>buf = (if p \<in> {P_close_r, P_write} \<or> reader_done q then [] else message),
       par = p, par_r = (p = P_close_r), par_w = (p \<noteq> U_return 0), chi = Some q, chi_r = (q \<noteq> U_return 0), chi_w = (q = C_close_w),
       read_msg = (if reader_done q then message @ drop 10 junk else junk),
       out = (if q \<in> {C_close_r, U_return 0} then [Child_Read ''Greetings''] else []), sigpipe = False, failed = None\<rparr>"

definition pc_rank :: "pipe_pc \<Rightarrow> nat" where
  "pc_rank p = (case p of U_pipe \<Rightarrow> 9 | U_fork \<Rightarrow> 8 | P_close_r \<Rightarrow> 3 | P_write \<Rightarrow> 2 | P_close_w \<Rightarrow> 1
     | C_close_w \<Rightarrow> 4 | C_read \<Rightarrow> 3 | C_print \<Rightarrow> 2 | C_close_r \<Rightarrow> 1 | U_return r \<Rightarrow> 0)"

text \<open>The work left; a process that was ended by a signal has none.\<close>

definition pipe_work :: "pipe_state \<Rightarrow> nat" where
  "pipe_work s = (if failed s \<noteq> None then 0 else
     (if sigpipe s then 0 else pc_rank (par s)) + (case chi s of None \<Rightarrow> 0 | Some q \<Rightarrow> pc_rank q))"

lemmas pipe_defs = parent_main_def child_main_def pipe_write_def pipe_read_def message_sent message_read
  reader_done_def pipe_init_def io_step_def BUFFER_SIZE_def PIPE_BUF_def Let_def pipe_work_def pc_rank_def

lemma inv_two_eq:
  assumes "p \<in> {P_close_r, P_write, P_close_w, U_return 0}" "q \<in> {C_close_w, C_read, C_print, C_close_r, U_return 0}"
    "reader_done q \<Longrightarrow> p \<in> {P_close_w, U_return 0}"
    "buf s = (if p \<in> {P_close_r, P_write} \<or> reader_done q then [] else message)"
    "par s = p" "par_r s = (p = P_close_r)" "par_w s = (p \<noteq> U_return 0)" "chi s = Some q" "chi_r s = (q \<noteq> U_return 0)"
    "chi_w s = (q = C_close_w)" "read_msg s = (if reader_done q then message @ drop 10 junk else junk)"
    "out s = (if q \<in> {C_close_r, U_return 0} then [Child_Read ''Greetings''] else [])" "\<not> sigpipe s" "failed s = None"
  shows "pipe_inv junk s"
proof -
  have "s = \<lparr>buf = (if p \<in> {P_close_r, P_write} \<or> reader_done q then [] else message),
       par = p, par_r = (p = P_close_r), par_w = (p \<noteq> U_return 0), chi = Some q, chi_r = (q \<noteq> U_return 0), chi_w = (q = C_close_w),
       read_msg = (if reader_done q then message @ drop 10 junk else junk),
       out = (if q \<in> {C_close_r, U_return 0} then [Child_Read ''Greetings''] else []), sigpipe = False, failed = None\<rparr>"
    by (rule pipe_state.equality) (use assms in simp_all)
  with inv_two [OF assms(1-3)] show ?thesis by metis
qed

lemma pipe_inv_step:
  assumes I: "pipe_inv junk s" and S: "io_step e s = Some s'"
  shows "pipe_inv junk s' \<and> pipe_work s' < pipe_work s"
  using I
proof cases
  case inv_start
  with S show ?thesis
    by (cases e) (auto simp: pipe_defs split: if_splits
        intro: inv_pipe [unfolded pipe_init_def, simplified] inv_no_pipe [unfolded pipe_init_def, simplified])
next
  case inv_no_pipe
  with S show ?thesis by (cases e) (simp_all add: pipe_defs)
next
  case inv_pipe
  show ?thesis
  proof (cases "e = Parent True")
    case True
    with S inv_pipe show ?thesis by (auto simp: pipe_defs intro!: inv_two_eq [of P_close_r C_close_w])
  next
    case False
    with S inv_pipe show ?thesis
      by (cases e) (auto simp: pipe_defs intro: inv_no_fork [unfolded pipe_init_def, simplified] split: if_splits)
  qed
next
  case inv_no_fork
  with S show ?thesis by (cases e) (simp_all add: pipe_defs)
next
  case (inv_two p q)
  note S' = S [unfolded inv_two(1)]
  show ?thesis
  proof (cases e)
    case (Parent ok)
    consider "p = P_close_r" | "p = P_write" | "p = P_close_w" | "p = U_return 0" using inv_two(2) by blast
    then show ?thesis
    proof cases
      case 1
      with S' Parent inv_two show ?thesis by (auto simp: pipe_defs intro!: inv_two_eq [of P_write q])
    next
      case 2
      with S' Parent inv_two show ?thesis by (auto simp: pipe_defs intro!: inv_two_eq [of P_close_w q])
    next
      case 3
      with S' Parent inv_two show ?thesis by (auto simp: pipe_defs intro!: inv_two_eq [of "U_return 0" q])
    qed (use S' Parent in \<open>simp add: pipe_defs\<close>)
  next
    case Child
    consider "q = C_close_w" | "q = C_read" | "q = C_print" | "q = C_close_r" | "q = U_return 0" using inv_two(3) by blast
    then show ?thesis
    proof cases
      case 1
      with S' Child inv_two show ?thesis by (auto simp: pipe_defs intro!: inv_two_eq [of p C_read])
    next
      case 2
      with S' Child inv_two show ?thesis
        by (auto simp: pipe_defs intro!: inv_two_eq [of p C_print] split: if_splits)
    next
      case 3
      with S' Child inv_two show ?thesis by (auto simp: pipe_defs intro!: inv_two_eq [of p C_close_r])
    next
      case 4
      with S' Child inv_two show ?thesis by (auto simp: pipe_defs intro!: inv_two_eq [of p "U_return 0"])
    qed (use S' Child in \<open>simp add: pipe_defs\<close>)
  qed (use S in \<open>simp_all add: io_step_def\<close>)
qed

interpretation pipe: invariant_system io_step "pipe_init junk" "pipe_inv junk" for junk
  by unfold_locales (auto intro: inv_start dest: pipe_inv_step)

lemma pipe_end:
  assumes I: "pipe_inv junk s" and S: "pipe_step (Parent True) s = None" "pipe_step Child s = None"
  shows "out s = [Pipe_Failed] \<or> out s = [Fork_Failed] \<or>
     out s = [Child_Read ''Greetings''] \<and> buf s = [] \<and> \<not> (par_r s \<or> par_w s \<or> chi_r s \<or> chi_w s)"
proof -
  have P: "parent_main True s = None" if "\<not> sigpipe s" "failed s = None" using S(1) that by simp
  have C: "child_main s = None" if "failed s = None" using S(2) that by simp
  from I show ?thesis
  proof cases
    case (inv_two p q)
    with P C show ?thesis by (auto simp: pipe_defs split: if_splits)
  qed (use P C in \<open>auto simp: pipe_defs\<close>)
qed

section \<open>All runs\<close>

text \<open>What holds even if a read or a write has failed: the child has the message or what was in its buffer before.\<close>

definition child_text :: "string \<Rightarrow> string \<Rightarrow> bool" where
  "child_text junk bs \<longleftrightarrow> bs = junk \<or> (\<exists>cs. bs = message @ cs)"

definition texts_ok :: "string \<Rightarrow> string \<Rightarrow> pipe_line list \<Rightarrow> c_abort option \<Rightarrow> bool" where
  "texts_ok junk r os f \<longleftrightarrow> child_text junk r \<and> (\<forall>x. Child_Read x \<in> set os \<longrightarrow> x = ''Greetings'' \<or> c_string junk = Inr x) \<and>
     (f = None \<or> c_string junk = Inl (the f))"

definition shape :: "pipe_pc \<Rightarrow> pipe_pc option \<Rightarrow> string \<Rightarrow> bool" where
  "shape p c bs \<longleftrightarrow> (case c of None \<Rightarrow> p \<in> {U_pipe, U_fork, U_return 1}
     | Some q \<Rightarrow> p \<in> {P_close_r, P_write, P_close_w, U_return 0} \<and> q \<in> {C_close_w, C_read, C_print, C_close_r, U_return 0}) \<and>
     (bs = [] \<or> bs = message \<and> p \<in> {P_close_w, U_return 0})"

definition pipe_any :: "string \<Rightarrow> pipe_state \<Rightarrow> bool" where
  "pipe_any junk s \<longleftrightarrow> shape (par s) (chi s) (buf s) \<and> texts_ok junk (read_msg s) (out s) (failed s)"

lemma texts_upd [simp]:
  "texts_ok junk r (os @ [Pipe_Failed]) f = texts_ok junk r os f" "texts_ok junk r (os @ [Fork_Failed]) f = texts_ok junk r os f"
  by (simp_all add: texts_ok_def)

lemma child_text_c_string: "child_text junk bs \<Longrightarrow> c_string bs = c_string junk \<or> c_string bs = Inr ''Greetings''"
  by (auto simp: child_text_def message_read)

lemma texts_print:
  assumes "texts_ok junk r os f"
  shows "c_string r = Inr x \<Longrightarrow> texts_ok junk r (os @ [Child_Read x]) f" "c_string r = Inl e \<Longrightarrow> texts_ok junk r os (Some e)"
  using assms child_text_c_string [of junk r] by (auto simp: texts_ok_def)

lemma texts_message: "texts_ok junk r os f \<Longrightarrow> texts_ok junk (message @ bs) os f"
  by (auto simp: texts_ok_def child_text_def)

lemma pipe_any_parent:
  assumes I: "pipe_any junk s" and F: "\<not> sigpipe s" "failed s = None" and S: "parent_main ok s = Some s'"
  shows "pipe_any junk s' \<and> pipe_work s' < pipe_work s"
proof (cases "chi s")
  case None
  then have "par s = U_pipe \<or> par s = U_fork" "buf s = []" using I S by (auto simp: pipe_any_def shape_def parent_main_def)
  then show ?thesis using I F S None
    by (elim disjE; cases ok) (auto simp: pipe_any_def shape_def parent_main_def pipe_work_def pc_rank_def)
next
  case (Some q)
  then have sh: "shape (par s) (Some q) (buf s)" and tx: "texts_ok junk (read_msg s) (out s) (failed s)"
    using I by (simp_all add: pipe_any_def)
  consider "par s = P_close_r" | "par s = P_write" | "par s = P_close_w" using sh S by (auto simp: shape_def parent_main_def)
  then show ?thesis
  proof cases
    case 2
    then have "s' = s\<lparr>sigpipe := True\<rparr> \<or> s' = s\<lparr>buf := message, par := P_close_w\<rparr>"
      using S sh by (auto simp: parent_main_def pipe_write_def message_sent PIPE_BUF_def shape_def split: if_splits)
    then show ?thesis using F sh tx Some 2 by (elim disjE) (simp_all add: pipe_any_def shape_def pipe_work_def pc_rank_def)
  qed (use S F sh tx Some in \<open>auto simp: parent_main_def pipe_any_def shape_def pipe_work_def pc_rank_def\<close>)
qed

lemma pipe_any_child:
  assumes I: "pipe_any junk s" and F: "failed s = None" and S: "child_main s = Some s'"
  shows "pipe_any junk s' \<and> pipe_work s' < pipe_work s"
proof -
  obtain q where q: "chi s = Some q" using S by (cases "chi s") (auto simp: child_main_def)
  have sh: "shape (par s) (Some q) (buf s)" and tx: "texts_ok junk (read_msg s) (out s) (failed s)"
    using I q by (simp_all add: pipe_any_def)
  have sh': "shape (par s) (Some C_read) (buf s)" "shape (par s) (Some C_print) (buf s)" "shape (par s) (Some C_close_r) (buf s)"
    "shape (par s) (Some (U_return 0)) (buf s)" "shape (par s) (Some C_print) []"
    using sh by (simp_all add: shape_def)
  consider "q = C_close_w" | "q = C_close_r" | "q = C_read" | "q = C_print" using sh S q by (auto simp: shape_def child_main_def)
  then show ?thesis
  proof cases
    case 3
    have "buf s = [] \<or> buf s = message" using sh by (auto simp: shape_def)
    then have "s' = s\<lparr>buf := [], read_msg := message @ drop 10 (read_msg s), chi := Some C_print\<rparr> \<or> s' = s\<lparr>chi := Some C_print\<rparr>"
      using S q 3 by (auto simp: child_main_def pipe_read_def BUFFER_SIZE_def Let_def split: if_splits)
    then show ?thesis using F q 3 sh' tx texts_message [OF tx]
      by (elim disjE) (simp_all add: pipe_any_def pipe_work_def pc_rank_def)
  next
    case 4
    show ?thesis
    proof (cases "c_string (read_msg s)")
      case (Inl e)
      then have "s' = s\<lparr>failed := Some e\<rparr>" using S q 4 by (simp add: child_main_def)
      then show ?thesis using F q 4 sh texts_print(2) [OF tx Inl] by (simp add: pipe_any_def pipe_work_def pc_rank_def)
    next
      case (Inr x)
      then have "s' = s\<lparr>out := out s @ [Child_Read x], chi := Some C_close_r\<rparr>" using S q 4 by (simp add: child_main_def)
      then show ?thesis using F q 4 sh' texts_print(1) [OF tx Inr] by (simp add: pipe_any_def pipe_work_def pc_rank_def)
    qed
  next
    case 1
    then have "s' = s\<lparr>chi_w := False, chi := Some C_read\<rparr>" using S q by (simp add: child_main_def)
    then show ?thesis using F q 1 sh' tx by (simp add: pipe_any_def pipe_work_def pc_rank_def)
  next
    case 2
    then have "s' = s\<lparr>chi_r := False, chi := Some (U_return 0)\<rparr>" using S q by (simp add: child_main_def)
    then show ?thesis using F q 2 sh' tx by (simp add: pipe_any_def pipe_work_def pc_rank_def)
  qed
qed

lemma pipe_any_step:
  assumes I: "pipe_any junk s" and S: "pipe_step e s = Some s'"
  shows "pipe_any junk s' \<and> pipe_work s' < pipe_work s"
proof (cases e)
  case Write_Error
  then have "s' = s\<lparr>par := P_close_w\<rparr>" "par s = P_write" "\<not> sigpipe s" "failed s = None"
    using S by (auto simp: pipe_write_def split: if_splits)
  then show ?thesis using I by (cases "chi s") (simp_all add: pipe_any_def shape_def pipe_work_def pc_rank_def)
next
  case Read_Error
  then have "s' = s\<lparr>chi := Some C_print\<rparr>" "chi s = Some C_read" "failed s = None"
    using S by (auto simp: pipe_read_def split: if_splits)
  then show ?thesis using I by (simp add: pipe_any_def shape_def pipe_work_def pc_rank_def)
next
  case (Parent ok)
  then have "\<not> sigpipe s" "failed s = None" "parent_main ok s = Some s'" using S by (simp_all split: if_splits)
  then show ?thesis by (rule pipe_any_parent [OF I])
next
  case Child
  then have "failed s = None" "child_main s = Some s'" using S by (simp_all split: if_splits)
  then show ?thesis by (rule pipe_any_child [OF I])
qed

interpretation pipe_all: terminating_system pipe_step "pipe_init junk" "pipe_any junk" pipe_work for junk
proof
  show "pipe_any junk (pipe_init junk)" by (simp add: pipe_any_def pipe_init_def child_text_def shape_def texts_ok_def)
qed (use pipe_any_step in blast)+

section \<open>Property\<close>

text \<open>C33: Whatever the interleaving of parent and child and the contents of the uninitialised buffer: the
  program makes at most 9 calls. As long as neither \<open>read\<close> nor \<open>write\<close>, whose results it does not look at, returns an error, it never
  writes to a pipe without readers, never prints anything but the parent's message, and where it cannot go on the child has
  printed it and every end of the pipe is closed, unless creating the pipe or the process failed and was reported. After an
  error of one of them the child prints the message or the string that happened to be in its buffer, or runs past the end of the buffer
  if there is none.\<close>

theorem pipe_delivers:
  assumes "run pipe_step es (pipe_init junk) = Some s"
  shows "length es \<le> 9 \<and>
     (Write_Error \<notin> set es \<and> Read_Error \<notin> set es \<longrightarrow>
       \<not> sigpipe s \<and> failed s = None \<and> (\<forall>x. Child_Read x \<in> set (out s) \<longrightarrow> x = ''Greetings'') \<and>
       (pipe_step (Parent True) s = None \<and> pipe_step Child s = None \<longrightarrow> out s = [Pipe_Failed] \<or> out s = [Fork_Failed] \<or>
         out s = [Child_Read ''Greetings''] \<and> buf s = [] \<and> \<not> (par_r s \<or> par_w s \<or> chi_r s \<or> chi_w s))) \<and>
     (\<forall>x. Child_Read x \<in> set (out s) \<longrightarrow> x = ''Greetings'' \<or> c_string junk = Inr x) \<and>
     (failed s \<noteq> None \<longrightarrow> c_string junk = Inl (the (failed s)))"
proof -
  have A: "pipe_any junk s" by (rule pipe_all.run_inv [OF assms])
  have "length es \<le> 9" using pipe_all.run_bounded [OF assms] by (simp add: pipe_work_def pc_rank_def pipe_init_def)
  moreover have "\<not> sigpipe s \<and> failed s = None \<and> (\<forall>x. Child_Read x \<in> set (out s) \<longrightarrow> x = ''Greetings'') \<and> pipe_inv junk s"
    if "Write_Error \<notin> set es \<and> Read_Error \<notin> set es"
  proof -
    have "run io_step es (pipe_init junk) = Some s" using that assms by (simp add: io_run)
    then have I: "pipe_inv junk s" by (rule pipe.run_inv)
    then have "\<not> sigpipe s \<and> failed s = None \<and> (\<forall>x. Child_Read x \<in> set (out s) \<longrightarrow> x = ''Greetings'')"
      by cases (auto simp: pipe_init_def split: if_splits)
    with I show ?thesis by blast
  qed
  moreover have "(\<forall>x. Child_Read x \<in> set (out s) \<longrightarrow> x = ''Greetings'' \<or> c_string junk = Inr x) \<and>
     (failed s \<noteq> None \<longrightarrow> c_string junk = Inl (the (failed s)))" using A by (auto simp: pipe_any_def texts_ok_def)
  ultimately show ?thesis using pipe_end by blast
qed

theorem pipe_delivers_witness:
  "\<exists>s. run pipe_step [Parent True, Parent True, Child, Parent True, Parent True, Child, Child, Child, Parent True]
       (pipe_init (replicate 25 CHR ''x'')) = Some s \<and> out s = [Child_Read ''Greetings'']"
proof -
  let ?es = "[Parent True, Parent True, Child, Parent True, Parent True, Child, Child, Child, Parent True]"
  obtain s where s: "run pipe_step ?es (pipe_init (replicate 25 CHR ''x'')) = Some s" "out s \<noteq> []" "hd (out s) \<in> range Child_Read" "length (out s) = 1"
    by (simp add: pipe_defs)
  from pipe_delivers [OF s(1)] s show ?thesis by (cases "out s") (auto simp del: run.simps replicate.simps)
qed

end
