(* ===== verification/Windows_Pipe.thy ===== *)
theory Windows_Pipe
  imports OSC_Prelude
begin

text \<open>
  \<open>ch3/win32-pipe-parent.c\<close> and \<open>ch3/win32-pipe-child.c\<close>: the parent creates a pipe, starts the child
  with the read end as its standard input, writes a greeting and waits for the child to exit. Whether
  a call of the Windows API succeeds is part of the event, unchecked calls included: a handle that
  could not be closed stays open until the process ends, and a failing wait returns at once. A read
  waits while the pipe is empty and a write end is open, and fails once there is none. Further \<open>ch3/newproc-win32.c\<close>, which only starts a
  process and waits for it.
\<close>

section \<open>The programs\<close>

definition BUFFER_SIZE :: nat where
  "BUFFER_SIZE = 25"

definition message :: string where
  "message = ''Greetings'' @ replicate (BUFFER_SIZE - 9) NUL"

datatype wp_line = Create_Pipe_Failed | Process_Creation_Failed | Error_Writing | Child_Says string | Child_Error

datatype wp_parent = W_pipe | W_inherit | W_process | W_close_read | W_write | W_close_write | W_wait | W_close | W_return int

datatype wp_child = C_read | C_print | C_exit

text \<open>\<open>inherit\<close>: the write handle would be inherited by a child. The ends that each process has open.\<close>

record wp_state =
  bytes :: string
  parent :: wp_parent
  parent_r :: bool
  parent_w :: bool
  inherit :: bool
  child :: "wp_child option"
  child_r :: bool
  child_w :: bool
  buffer :: string
  out :: "wp_line list"
  failed :: "c_abort option"

definition wp_init :: "string \<Rightarrow> wp_state" where
  "wp_init junk = \<lparr>bytes = [], parent = W_pipe, parent_r = False, parent_w = False, inherit = True, child = None,
     child_r = False, child_w = False, buffer = junk, out = [], failed = None\<rparr>"

definition parent_main :: "bool \<Rightarrow> wp_state \<Rightarrow> wp_state option" where
  "parent_main ok s = (case parent s of
     W_pipe \<Rightarrow> Some (if ok then s\<lparr>parent_r := True, parent_w := True, parent := W_inherit\<rparr>
       else s\<lparr>out := out s @ [Create_Pipe_Failed], parent := W_return 1\<rparr>)
   | W_inherit \<Rightarrow> Some (s\<lparr>inherit := \<not> ok, parent := W_process\<rparr>)
   | W_process \<Rightarrow> Some (if ok
       then s\<lparr>child := Some C_read, child_r := parent_r s, child_w := inherit s \<and> parent_w s, parent := W_close_read\<rparr>
       else s\<lparr>out := out s @ [Process_Creation_Failed], parent_r := False, parent_w := False, parent := W_return (-1)\<rparr>)
   | W_close_read \<Rightarrow> Some (s\<lparr>parent_r := parent_r s \<and> \<not> ok, parent := W_write\<rparr>)
   | W_write \<Rightarrow> Some (if ok \<and> (parent_r s \<or> child_r s)
       then s\<lparr>bytes := bytes s @ take BUFFER_SIZE message, parent := W_close_write\<rparr>
       else s\<lparr>out := out s @ [Error_Writing], parent := W_close_write\<rparr>)
   | W_close_write \<Rightarrow> Some (s\<lparr>parent_w := parent_w s \<and> \<not> ok, parent := W_wait\<rparr>)
   | W_wait \<Rightarrow> (if \<not> ok \<or> child s = Some C_exit then Some (s\<lparr>parent := W_close\<rparr>) else None)
   | W_close \<Rightarrow> Some (s\<lparr>parent_r := False, parent_w := False, parent := W_return 0\<rparr>)
   | W_return r \<Rightarrow> None)"

definition child_main :: "bool \<Rightarrow> wp_state \<Rightarrow> wp_state option" where
  "child_main ok s = (case child s of
     Some C_read \<Rightarrow>
       (if \<not> ok then Some (s\<lparr>out := out s @ [Child_Error], child := Some C_exit, child_r := False, child_w := False\<rparr>)
        else if bytes s \<noteq> [] then Some (let k = min BUFFER_SIZE (length (bytes s)) in
          s\<lparr>bytes := drop k (bytes s), buffer := take k (bytes s) @ drop k (buffer s), child := Some C_print\<rparr>)
        else if parent_w s \<or> child_w s then None
        else Some (s\<lparr>out := out s @ [Child_Error], child := Some C_exit, child_r := False, child_w := False\<rparr>))
   | Some C_print \<Rightarrow> Some (case c_string (buffer s) of
       Inl e \<Rightarrow> s\<lparr>failed := Some e\<rparr>
     | Inr x \<Rightarrow> s\<lparr>out := out s @ [Child_Says x], child := Some C_exit, child_r := False, child_w := False\<rparr>)
   | _ \<Rightarrow> None)"

datatype wp_event = Parent bool | Child bool

fun wp_step :: "wp_event \<Rightarrow> wp_state \<Rightarrow> wp_state option" where
  "wp_step (Parent ok) s = (if failed s \<noteq> None then None else parent_main ok s)"
| "wp_step (Child ok) s = (if failed s \<noteq> None then None else child_main ok s)"

section \<open>Invariant\<close>

text \<open>
  Both processes: what is in the pipe, what the child has got and what was reported. \<open>sent\<close>: the parent
  has tried to write.
\<close>

definition delivery :: "string \<Rightarrow> bool \<Rightarrow> string \<Rightarrow> wp_child option \<Rightarrow> string \<Rightarrow> wp_line list \<Rightarrow> bool" where
  "delivery junk sent bs q buf os \<longleftrightarrow>
     q = Some C_read \<and> buf = junk \<and> (bs = [] \<and> os = (if sent then [Error_Writing] else []) \<or> sent \<and> bs = message \<and> os = []) \<or>
     q = Some C_print \<and> sent \<and> bs = [] \<and> buf = message @ drop 25 junk \<and> os = [] \<or>
     q = Some C_exit \<and> (if sent then os \<in> {[Child_Says ''Greetings''], [Child_Error], [Error_Writing, Child_Error], [Child_Error, Error_Writing]}
       else bs = [] \<and> os = [Child_Error])"

definition wp_two :: "string \<Rightarrow> wp_state \<Rightarrow> bool" where
  "wp_two junk s \<longleftrightarrow> delivery junk (parent s \<notin> {W_close_read, W_write}) (bytes s) (child s) (buffer s) (out s) \<and>
     child_r s = (child s \<noteq> Some C_exit) \<and> child_w s = (inherit s \<and> child s \<noteq> Some C_exit) \<and>
     (parent s \<in> {W_close_read, W_write, W_close_write} \<longrightarrow> parent_w s) \<and> (parent s = W_return 0 \<longrightarrow> \<not> parent_w s)"

text \<open>\<open>b\<close>: a call has failed. Only then is there anything but the message to report.\<close>

definition wp_inv :: "string \<Rightarrow> bool \<Rightarrow> wp_state \<Rightarrow> bool" where
  "wp_inv junk b s \<longleftrightarrow> failed s = None \<and> (out s \<notin> {[], [Child_Says ''Greetings'']} \<longrightarrow> b) \<and>
     (case parent s of
        W_pipe \<Rightarrow> s = wp_init junk
      | W_return r \<Rightarrow> r = 0 \<and> wp_two junk s \<or> r \<noteq> 0 \<and> child s = None \<and> out s \<in> {[Create_Pipe_Failed], [Process_Creation_Failed]}
      | p \<Rightarrow> if p \<in> {W_inherit, W_process} then child s = None \<and> out s = [] \<and> bytes s = [] \<and> buffer s = junk \<and> parent_r s \<and> parent_w s
          else wp_two junk s)"

definition parent_rank :: "wp_parent \<Rightarrow> nat" where
  "parent_rank p = (case p of W_pipe \<Rightarrow> 10 | W_inherit \<Rightarrow> 9 | W_process \<Rightarrow> 8 | W_close_read \<Rightarrow> 5 | W_write \<Rightarrow> 4 | W_close_write \<Rightarrow> 3
     | W_wait \<Rightarrow> 2 | W_close \<Rightarrow> 1 | W_return r \<Rightarrow> 0)"

definition child_rank :: "wp_child option \<Rightarrow> nat" where
  "child_rank c = (case c of Some C_read \<Rightarrow> 2 | Some C_print \<Rightarrow> 1 | _ \<Rightarrow> 0)"

definition wp_work :: "wp_state \<Rightarrow> nat" where
  "wp_work s = parent_rank (parent s) + child_rank (child s)"

lemma pipe_message_facts: "length message = 25" "message \<noteq> []" "[] \<noteq> message" "take 25 message = message"
  by (simp_all add: message_def BUFFER_SIZE_def)

lemma message_string: "c_string (message @ bs) = Inr ''Greetings''"
  by (simp add: c_string_def message_def BUFFER_SIZE_def NUL_def numeral_eq_Suc)

lemmas wp_defs = parent_main_def child_main_def wp_init_def wp_work_def parent_rank_def child_rank_def Let_def

lemma wp_two_parent:
  assumes two: "wp_two junk s" and b: "out s \<notin> {[], [Child_Says ''Greetings'']} \<longrightarrow> b"
    and S: "parent_main ok s = Some s'" and p: "parent s \<in> {W_close_read, W_write, W_close_write, W_wait, W_close}"
  shows "wp_two junk s' \<and> parent s' \<in> {W_write, W_close_write, W_wait, W_close, W_return 0} \<and> failed s' = failed s \<and>
    (out s' \<notin> {[], [Child_Says ''Greetings'']} \<longrightarrow> b \<or> \<not> ok)"
proof (cases "parent s")
  case W_write
  have d: "delivery junk False (bytes s) (child s) (buffer s) (out s)" "child_r s = (child s \<noteq> Some C_exit)"
    using two W_write by (simp_all add: wp_two_def)
  have t: "bytes s = []" using d(1) by (auto simp: delivery_def)
  show ?thesis
  proof (cases "ok \<and> (parent_r s \<or> child_r s)")
    case True
    then have "s' = s\<lparr>bytes := message, parent := W_close_write\<rparr>"
      using S W_write t by (simp add: parent_main_def BUFFER_SIZE_def pipe_message_facts)
    moreover have "delivery junk True message (child s) (buffer s) (out s)" using d(1) by (auto simp: delivery_def)
    ultimately show ?thesis using two b W_write by (simp add: wp_two_def)
  next
    case False
    then have "s' = s\<lparr>out := out s @ [Error_Writing], parent := W_close_write\<rparr>"
      using S W_write by (simp add: parent_main_def split: if_splits)
    moreover have "delivery junk True (bytes s) (child s) (buffer s) (out s @ [Error_Writing])" using d(1) by (auto simp: delivery_def)
    moreover have "b \<or> \<not> ok" using False d b by (auto simp: delivery_def)
    ultimately show ?thesis using two W_write by (simp add: wp_two_def)
  qed
next
  case W_close_read
  then have "s' = s\<lparr>parent_r := parent_r s \<and> \<not> ok, parent := W_write\<rparr>" using S by (simp add: parent_main_def)
  then show ?thesis using two b W_close_read by (simp add: wp_two_def)
next
  case W_close_write
  then have "s' = s\<lparr>parent_w := parent_w s \<and> \<not> ok, parent := W_wait\<rparr>" using S by (simp add: parent_main_def)
  then show ?thesis using two b W_close_write by (simp add: wp_two_def)
next
  case W_wait
  then have "s' = s\<lparr>parent := W_close\<rparr>" using S by (simp add: parent_main_def split: if_splits)
  then show ?thesis using two b W_wait by (simp add: wp_two_def)
next
  case W_close
  then have "s' = s\<lparr>parent_r := False, parent_w := False, parent := W_return 0\<rparr>" using S by (simp add: parent_main_def)
  then show ?thesis using two b W_close by (simp add: wp_two_def)
qed (use p in simp_all)

lemma wp_two_child:
  assumes two: "wp_two junk s" and b: "out s \<notin> {[], [Child_Says ''Greetings'']} \<longrightarrow> b" and F: "failed s = None"
    and S: "child_main ok s = Some s'"
  shows "wp_two junk s' \<and> parent s' = parent s \<and> failed s' = None \<and>
    (out s' \<notin> {[], [Child_Says ''Greetings'']} \<longrightarrow> b \<or> \<not> ok) \<and> child_rank (child s') < child_rank (child s)"
proof (cases "child s")
  case (Some q)
  have d: "delivery junk (parent s \<notin> {W_close_read, W_write}) (bytes s) (child s) (buffer s) (out s)"
    and w: "parent s \<in> {W_close_read, W_write, W_close_write} \<longrightarrow> parent_w s" using two by (simp_all add: wp_two_def)
  show ?thesis
  proof (cases "q = C_read \<and> ok \<and> bytes s \<noteq> []")
    case True
    then have m: "bytes s = message" "out s = []" "buffer s = junk" "parent s \<notin> {W_close_read, W_write}"
      using d Some by (auto simp: delivery_def)
    have "s' = s\<lparr>bytes := [], buffer := message @ drop 25 junk, child := Some C_print\<rparr>"
      using S Some True m by (simp add: child_main_def BUFFER_SIZE_def pipe_message_facts)
    then show ?thesis using two Some True m F by (simp add: wp_two_def delivery_def child_rank_def)
  next
    case False
    show ?thesis
    proof (cases q)
      case C_read
      then have s': "s' = s\<lparr>out := out s @ [Child_Error], child := Some C_exit, child_r := False, child_w := False\<rparr>"
          and o: "ok \<longrightarrow> \<not> parent_w s"
        using S Some False by (auto simp: child_main_def split: if_splits)
      have "delivery junk (parent s \<notin> {W_close_read, W_write}) (bytes s) (Some C_exit) (buffer s) (out s @ [Child_Error])"
        using d Some C_read by (auto simp: delivery_def split: if_splits)
      moreover have "ok \<longrightarrow> out s = [Error_Writing]" using d Some C_read o w False by (auto simp: delivery_def pipe_message_facts split: if_splits)
      ultimately show ?thesis using two Some C_read s' b F w by (auto simp: wp_two_def child_rank_def)
    next
      case C_print
      have s': "s' = s\<lparr>out := out s @ [Child_Says ''Greetings''], child := Some C_exit, child_r := False, child_w := False\<rparr>"
        using S Some C_print d by (auto simp: child_main_def delivery_def message_string)
      have "parent s \<notin> {W_close_read, W_write} \<and> out s = []" using d Some C_print by (auto simp: delivery_def)
      then show ?thesis using two Some C_print s' F by (simp add: wp_two_def delivery_def child_rank_def)
    next
      case C_exit
      then show ?thesis using S Some by (simp add: child_main_def)
    qed
  qed
qed (use S in \<open>simp add: child_main_def\<close>)

fun call_fails :: "wp_event \<Rightarrow> bool" where
  "call_fails (Parent ok) = (\<not> ok)"
| "call_fails (Child ok) = (\<not> ok)"

lemma wp_inv_step:
  assumes I: "wp_inv junk b s" and S: "wp_step e s = Some s'"
  shows "wp_inv junk (b \<or> call_fails e) s' \<and> wp_work s' < wp_work s"
proof -
  have F: "failed s = None" and b: "out s \<notin> {[], [Child_Says ''Greetings'']} \<longrightarrow> b" using I by (simp_all add: wp_inv_def)
  show ?thesis
  proof (cases "parent s \<in> {W_close_read, W_write, W_close_write, W_wait, W_close, W_return 0}")
    case True
    then have two: "wp_two junk s" using I by (auto simp: wp_inv_def)
    show ?thesis
    proof (cases e)
      case (Parent ok)
      then have st: "parent_main ok s = Some s'" using S F by simp
      then have p: "parent s \<in> {W_close_read, W_write, W_close_write, W_wait, W_close}" using True by (auto simp: parent_main_def)
      have "wp_work s' < wp_work s" using st p by (auto simp: wp_defs split: if_splits)
      then show ?thesis using wp_two_parent [OF two b st p] Parent F by (auto simp: wp_inv_def)
    next
      case (Child ok)
      then have st: "child_main ok s = Some s'" using S F by simp
      from wp_two_child [OF two b F st] Child True show ?thesis by (auto simp: wp_inv_def wp_work_def)
    qed
  next
    case False
    then have c: "child s = None" using I by (cases "parent s") (auto simp: wp_inv_def wp_init_def)
    then obtain ok where e: "e = Parent ok" "parent_main ok s = Some s'"
      using S F by (cases e) (auto simp: child_main_def)
    show ?thesis using I False c e
      by (cases "parent s") (auto simp: wp_inv_def wp_two_def delivery_def wp_defs split: if_splits)
  qed
qed

lemma wp_inv_run:
  "wp_inv junk b s \<Longrightarrow> run wp_step es s = Some s' \<Longrightarrow> wp_inv junk (b \<or> (\<exists>e \<in> set es. call_fails e)) s'"
proof (induction es arbitrary: s b)
  case (Cons e es)
  then obtain s1 where s1: "wp_step e s = Some s1" "run wp_step es s1 = Some s'" by (auto split: option.splits)
  from Cons.IH [OF _ s1(2)] wp_inv_step [OF Cons.prems(1) s1(1)]
  have "wp_inv junk ((b \<or> call_fails e) \<or> (\<exists>e \<in> set es. call_fails e)) s'" by blast
  then show ?case by (simp add: disj_assoc)
qed simp

lemma wp_inv_init: "wp_inv junk b (wp_init junk)"
  by (simp add: wp_inv_def wp_init_def)

interpretation wp: terminating_system wp_step "wp_init junk" "\<lambda>s. \<exists>b. wp_inv junk b s" wp_work for junk
  by unfold_locales (use wp_inv_init wp_inv_step in blast)+

text \<open>Where both processes stand when neither can go on without a call that fails.\<close>

lemma wp_end:
  assumes I: "wp_inv junk b s" and st: "wp_step (Parent True) s = None" "wp_step (Child True) s = None"
  shows "out s \<in> {[Create_Pipe_Failed], [Process_Creation_Failed]} \<or>
    parent s = W_return 0 \<and> child s = Some C_exit \<and>
      out s \<in> {[Child_Says ''Greetings''], [Child_Error], [Error_Writing, Child_Error], [Child_Error, Error_Writing]} \<or>
    child s = Some C_read \<and> out s = [Error_Writing] \<and>
      (parent s = W_wait \<and> (inherit s \<or> parent_w s) \<or> parent s = W_return 0 \<and> inherit s)"
proof -
  have F: "failed s = None" using I by (simp add: wp_inv_def)
  have P: "parent_main True s = None" and C: "child_main True s = None" using st F by simp_all
  consider "parent s = W_wait" "child s \<noteq> Some C_exit" | r where "parent s = W_return r"
    using P by (cases "parent s") (auto simp: parent_main_def split: if_splits)
  then show ?thesis
  proof cases
    case 1
    then show ?thesis using C I
      by (auto simp: wp_inv_def wp_two_def delivery_def child_main_def pipe_message_facts split: if_splits sum.splits)
  next
    case 2
    then show ?thesis using C I
      by (auto simp: wp_inv_def wp_two_def delivery_def child_main_def pipe_message_facts split: if_splits sum.splits)
  qed
qed

section \<open>\<open>newproc-win32.c\<close>\<close>

datatype np_pc = N_create | N_wait | N_close | N_return int

text \<open>Where main is, whether the child runs, and whether main has complained.\<close>

record np_state =
  np_at :: np_pc
  np_child :: "bool option"
  complained :: bool

definition newproc_main :: "bool \<Rightarrow> np_state \<Rightarrow> np_state option" where
  "newproc_main ok s = (case np_at s of
     N_create \<Rightarrow> Some (if ok then s\<lparr>np_child := Some True, np_at := N_wait\<rparr> else s\<lparr>complained := True, np_at := N_return (-1)\<rparr>)
   | N_wait \<Rightarrow> (if np_child s = Some False then Some (s\<lparr>np_at := N_close\<rparr>) else None)
   | N_close \<Rightarrow> Some (s\<lparr>np_at := N_return 0\<rparr>)
   | N_return r \<Rightarrow> None)"

datatype np_event = Newproc bool | Paint_Exits

fun np_step :: "np_event \<Rightarrow> np_state \<Rightarrow> np_state option" where
  "np_step (Newproc ok) s = newproc_main ok s"
| "np_step Paint_Exits s = (if np_child s = Some True then Some (s\<lparr>np_child := Some False\<rparr>) else None)"

definition np_init :: np_state where
  "np_init = \<lparr>np_at = N_create, np_child = None, complained = False\<rparr>"

definition np_inv :: "np_state \<Rightarrow> bool" where
  "np_inv s \<longleftrightarrow> (np_at s = N_create \<longrightarrow> np_child s = None \<and> \<not> complained s) \<and> (np_at s = N_wait \<longrightarrow> np_child s \<noteq> None \<and> \<not> complained s) \<and>
     (np_at s \<in> {N_close, N_return 0} \<longrightarrow> np_child s = Some False \<and> \<not> complained s) \<and>
     (np_at s \<notin> {N_create, N_wait, N_close, N_return 0} \<longrightarrow> np_at s = N_return (-1) \<and> np_child s = None \<and> complained s)"

interpretation np: invariant_system np_step np_init np_inv
proof
  show "np_inv np_init" by (simp add: np_inv_def np_init_def)
  show "np_inv s'" if "np_inv s" "np_step e s = Some s'" for s e s'
    using that by (cases e; cases "np_at s") (auto simp: np_inv_def newproc_main_def split: if_splits)
qed

text \<open>Main returns 0 exactly after the process it started has ended, and -1 with its message when there is none.\<close>

lemma newproc_win32_waits:
  assumes "reachable np_step np_init s"
  shows "np_at s = N_return 0 \<Longrightarrow> np_child s = Some False \<and> \<not> complained s"
    and "np_at s = N_return r \<Longrightarrow> r \<noteq> 0 \<Longrightarrow> r = -1 \<and> np_child s = None \<and> complained s"
  using np.reachable_inv [OF assms] by (auto simp: np_inv_def)

section \<open>Property\<close>

text \<open>C37: Whatever the interleaving of the two programs, the calls that fail (checked or not, \<open>ReadFile\<close> and \<open>WaitForSingleObject\<close> also while
  they wait) and the contents of the child's buffer: there are at most 10 calls, the child never prints anything but the parent's
  message and never reads past its buffer. Where neither process can go on unless a waiting call fails, either a failed creation
  was reported; or both have ended and the child has printed the message, or it has reported an error, with or without an error of the
  parent before or after it; or the write failed and the child waits for ever because a write end is still open: its own, which it
  inherited because \<open>SetHandleInformation\<close> failed unnoticed, or the one of the waiting parent whose \<open>CloseHandle\<close> failed
  unnoticed. If no call has failed, both have ended and the message, and nothing else, was printed.\<close>

theorem win_pipe_delivers:
  assumes "run wp_step es (wp_init junk) = Some s"
  shows "length es \<le> 10 \<and> failed s = None \<and> (\<forall>x. Child_Says x \<in> set (out s) \<longrightarrow> x = ''Greetings'') \<and>
    (wp_step (Parent True) s = None \<and> wp_step (Child True) s = None \<longrightarrow>
      (out s \<in> {[Create_Pipe_Failed], [Process_Creation_Failed]} \<or>
       parent s = W_return 0 \<and> child s = Some C_exit \<and>
         out s \<in> {[Child_Says ''Greetings''], [Child_Error], [Error_Writing, Child_Error], [Child_Error, Error_Writing]} \<or>
       child s = Some C_read \<and> out s = [Error_Writing] \<and>
         (parent s = W_wait \<and> (inherit s \<or> parent_w s) \<or> parent s = W_return 0 \<and> inherit s)) \<and>
      ((\<forall>e \<in> set es. \<not> call_fails e) \<longrightarrow> parent s = W_return 0 \<and> child s = Some C_exit \<and> out s = [Child_Says ''Greetings'']))"
proof -
  have I: "wp_inv junk (\<exists>e \<in> set es. call_fails e) s" using wp_inv_run [OF wp_inv_init assms, of False] by simp
  have "length es \<le> 10" using wp.run_bounded [OF assms] by (simp add: wp_work_def parent_rank_def child_rank_def wp_init_def)
  moreover have "failed s = None" using I by (simp add: wp_inv_def)
  moreover have "\<forall>x. Child_Says x \<in> set (out s) \<longrightarrow> x = ''Greetings''"
    using I by (cases "parent s") (auto simp: wp_inv_def wp_two_def delivery_def wp_init_def split: if_splits)
  moreover have "(\<forall>e \<in> set es. \<not> call_fails e) \<longrightarrow> out s \<in> {[], [Child_Says ''Greetings'']}" using I by (auto simp: wp_inv_def)
  ultimately show ?thesis using wp_end [OF I] by auto
qed

text \<open>\<open>SetHandleInformation\<close> and \<open>WriteFile\<close> fail: the child and the parent wait for ever.\<close>

theorem win_pipe_delivers_witness:
  "\<exists>s. run wp_step [Parent True, Parent False, Parent True, Parent True, Parent False, Parent True] (wp_init (replicate 25 CHR ''x'')) = Some s \<and>
     child s = Some C_read \<and> parent s = W_wait \<and> inherit s \<and> out s = [Error_Writing]"
proof -
  let ?es = "[Parent True, Parent False, Parent True, Parent True, Parent False, Parent True]"
  obtain s where s: "run wp_step ?es (wp_init (replicate 25 CHR ''x'')) = Some s"
    "parent s = W_wait" "child s = Some C_read" "out s = [Error_Writing]" "bytes s = []" "child_w s" "\<not> parent_w s"
    by (simp add: wp_defs)
  have "wp_step (Parent True) s = None \<and> wp_step (Child True) s = None" using s(2-) by (simp add: parent_main_def child_main_def)
  with win_pipe_delivers [OF s(1)] s show ?thesis by auto
qed

end
