(* ===== verification/Shared_Memory.thy ===== *)
theory Shared_Memory
  imports OSC_Prelude
begin

text \<open>
  \<open>ch3/shm-posix-producer.c\<close> and \<open>ch3/shm-posix-consumer.c\<close>: two programs that share a memory
  object by its name. The object is an array of bytes; a process that has mapped it keeps it when
  the name is removed. Both programs run interleaved, one step per call; an event says whether the
  call succeeds, so every call of the two programs can fail at any time.
\<close>

section \<open>Memory objects\<close>

text \<open>\<open>sprintf(ptr, "%s", m)\<close> writes the string and a zero; outside the object this is a bus error.\<close>

definition put_string :: "string \<Rightarrow> nat \<Rightarrow> string \<Rightarrow> string c_result" where
  "put_string bs i m =
     (if i + length m < length bs then Inr (take i bs @ m @ NUL # drop (i + length m + 1) bs) else Inl Bad_Pointer)"

text \<open>\<open>ftruncate\<close>: bytes beyond the old size are zero.\<close>

definition ftruncate :: "nat \<Rightarrow> string \<Rightarrow> string" where
  "ftruncate n bs = take n bs @ replicate (n - length bs) NUL"

text \<open>Printing a mapped object as a string: nothing of an empty object is accessible.\<close>

definition print_string :: "string \<Rightarrow> string c_result" where
  "print_string bs = (if bs = [] then Inl Bad_Pointer else c_string bs)"

section \<open>The programs\<close>

definition SIZE :: nat where
  "SIZE = 4096"

definition message :: "nat \<Rightarrow> string" where
  "message k = (if k = 0 then ''Studying '' else if k = 1 then ''Operating Systems '' else ''Is Fun!'')"

datatype shm_line = Map_Failed | Shared_Memory_Failed | Text string | Error_Removing

datatype producer_pc = SP_open | SP_truncate | SP_map | SP_write nat | SP_return int

datatype consumer_pc = SC_open | SC_map | SC_print | SC_unlink | SC_return int

text \<open>\<open>os_name\<close> is the object with the name \<open>"OS"\<close>; the descriptors are the objects they stand for,
  \<open>None\<close> when opening failed.\<close>

record shm_state =
  objs :: "nat \<Rightarrow> string"
  os_name :: "nat option"
  ppc :: producer_pc
  pfd :: "nat option"
  ptr :: nat
  cpc :: consumer_pc
  cfd :: "nat option"
  out :: "shm_line list"
  failed :: "c_abort option"

definition producer :: "bool \<Rightarrow> nat \<Rightarrow> shm_state \<Rightarrow> shm_state option" where
  "producer ok new s = (case ppc s of
     SP_open \<Rightarrow> Some (
       if \<not> ok then s\<lparr>pfd := None, ppc := SP_truncate\<rparr>
       else case os_name s of
         Some i \<Rightarrow> s\<lparr>pfd := Some i, ppc := SP_truncate\<rparr>
       | None \<Rightarrow> s\<lparr>objs := (objs s)(new := []), os_name := Some new, pfd := Some new, ppc := SP_truncate\<rparr>)
   | SP_truncate \<Rightarrow> Some (case pfd s of
       None \<Rightarrow> s\<lparr>ppc := SP_map\<rparr>
     | Some i \<Rightarrow> (if ok then s\<lparr>objs := (objs s)(i := ftruncate SIZE (objs s i)), ppc := SP_map\<rparr> else s\<lparr>ppc := SP_map\<rparr>))
   | SP_map \<Rightarrow> Some (
       if \<not> ok \<or> pfd s = None then s\<lparr>out := out s @ [Map_Failed], ppc := SP_return (-1)\<rparr>
       else s\<lparr>ptr := 0, ppc := SP_write 0\<rparr>)
   | SP_write k \<Rightarrow> Some (case pfd s of
       None \<Rightarrow> s\<lparr>failed := Some Bad_Pointer\<rparr>
     | Some i \<Rightarrow> (case put_string (objs s i) (ptr s) (message k) of
         Inl e \<Rightarrow> s\<lparr>failed := Some e\<rparr>
       | Inr bs \<Rightarrow> s\<lparr>objs := (objs s)(i := bs), ptr := ptr s + length (message k),
           ppc := if k < 2 then SP_write (k + 1) else SP_return 0\<rparr>))
   | SP_return r \<Rightarrow> None)"

definition consumer :: "bool \<Rightarrow> shm_state \<Rightarrow> shm_state option" where
  "consumer ok s = (case cpc s of
     SC_open \<Rightarrow> Some (
       if \<not> ok \<or> os_name s = None then s\<lparr>out := out s @ [Shared_Memory_Failed], cpc := SC_return (-1)\<rparr>
       else s\<lparr>cfd := os_name s, cpc := SC_map\<rparr>)
   | SC_map \<Rightarrow> Some (
       if ok then s\<lparr>cpc := SC_print\<rparr> else s\<lparr>out := out s @ [Map_Failed], cpc := SC_return (-1)\<rparr>)
   | SC_print \<Rightarrow> Some (case cfd s of
       None \<Rightarrow> s\<lparr>failed := Some Bad_Pointer\<rparr>
     | Some i \<Rightarrow> (case print_string (objs s i) of
         Inl e \<Rightarrow> s\<lparr>failed := Some e\<rparr>
       | Inr x \<Rightarrow> s\<lparr>out := out s @ [Text x], cpc := SC_unlink\<rparr>))
   | SC_unlink \<Rightarrow> Some (
       if \<not> ok \<or> os_name s = None then s\<lparr>out := out s @ [Error_Removing], cpc := SC_return (-1)\<rparr>
       else s\<lparr>os_name := None, cpc := SC_return 0\<rparr>)
   | SC_return r \<Rightarrow> None)"

text \<open>The \<open>bool\<close> of an event says whether the call succeeds; \<open>new\<close> names a new object.\<close>

datatype shm_event = Producer bool nat | Consumer bool

fun shm_step :: "shm_event \<Rightarrow> shm_state \<Rightarrow> shm_state option" where
  "shm_step (Producer ok new) s = (if failed s \<noteq> None then None else producer ok new s)"
| "shm_step (Consumer ok) s = (if failed s \<noteq> None then None else consumer ok s)"

definition shm_start :: "(nat \<Rightarrow> string) \<Rightarrow> nat option \<Rightarrow> shm_state" where
  "shm_start os nm = \<lparr>objs = os, os_name = nm, ppc = SP_open, pfd = None, ptr = 0, cpc = SC_open, cfd = None,
     out = [], failed = None\<rparr>"

section \<open>Writing the message piece by piece\<close>

definition written :: "nat \<Rightarrow> string" where
  "written k = concat (map message [0..<k])"

lemma written_simps [simp]: "written 0 = []" "written (Suc k) = written k @ message k"
  by (simp_all add: written_def)

lemma message_no_NUL: "NUL \<notin> set (message k)"
  by (simp add: message_def NUL_def)

lemma written_no_NUL: "NUL \<notin> set (written k)"
  by (induction k) (auto simp: message_no_NUL)

lemma written_length: "k \<le> 3 \<Longrightarrow> length (written k) \<le> 34"
  by (cases "k = 0"; cases "k = 1"; cases "k = 2") (auto simp: message_def numeral_3_eq_3 numeral_2_eq_2 le_Suc_eq)

lemma print_written: "print_string (written k @ NUL # bs) = Inr (written k)"
proof -
  have "takeWhile (\<lambda>c. c \<noteq> NUL) (written k @ NUL # bs) = written k"
    using written_no_NUL by (subst takeWhile_append2) auto
  then show ?thesis by (simp add: print_string_def c_string_def)
qed

text \<open>After \<open>k\<close> writes the object begins with the first \<open>k\<close> pieces and a zero, whatever it held before.\<close>

definition begins :: "nat \<Rightarrow> string \<Rightarrow> bool" where
  "begins k bs \<longleftrightarrow> 0 < k \<longrightarrow> (\<exists>cs. bs = written k @ NUL # cs)"

definition starts_with :: "nat \<Rightarrow> string \<Rightarrow> bool" where
  "starts_with k bs \<longleftrightarrow> length bs = SIZE \<and> begins k bs"

lemma begins_print: "begins k bs \<Longrightarrow> 0 < k \<Longrightarrow> print_string bs = Inr (written k)"
  by (auto simp: begins_def print_written)

lemma put_begins:
  assumes "begins k bs" "put_string bs (length (written k)) (message k) = Inr bs'"
  shows "begins (Suc k) bs' \<and> length bs' = length bs"
proof -
  have "take (length (written k)) bs = written k" using assms(1) by (cases "k = 0") (auto simp: begins_def)
  then show ?thesis using assms(2) by (auto simp: begins_def put_string_def split: if_splits)
qed

lemma put_next:
  assumes "starts_with k bs" "k \<le> 2"
  shows "\<exists>bs'. put_string bs (length (written k)) (message k) = Inr bs' \<and> starts_with (Suc k) bs'"
proof -
  have l: "length bs = SIZE" "begins k bs" using assms by (simp_all add: starts_with_def)
  have "length (written (Suc k)) \<le> 34" using assms(2) by (intro written_length) simp
  then obtain bs' where "put_string bs (length (written k)) (message k) = Inr bs'"
    using l(1) by (simp add: put_string_def SIZE_def)
  with put_begins [OF l(2)] l(1) show ?thesis by (auto simp: starts_with_def)
qed

lemma ftruncate_length [simp]: "length (ftruncate n bs) = n"
  by (simp add: ftruncate_def)

lemma starts_print: "starts_with k bs \<Longrightarrow> 0 < k \<Longrightarrow> print_string bs = Inr (written k)"
  by (simp add: starts_with_def begins_print)

section \<open>Invariant of the interleaved programs\<close>

definition zeros :: string where
  "zeros = replicate SIZE NUL"

lemma zeros_facts: "starts_with 0 zeros" "print_string zeros = Inr (written 0)" "ftruncate SIZE [] = zeros"
  by (simp_all add: zeros_def starts_with_def begins_def print_string_def c_string_def SIZE_def ftruncate_def)

text \<open>What the object holds when the producer is at a point: without a size it has no bytes.\<close>

definition object_ok :: "producer_pc \<Rightarrow> nat \<Rightarrow> string \<Rightarrow> bool" where
  "object_ok pc i bs = (case pc of
     SP_open \<Rightarrow> False
   | SP_truncate \<Rightarrow> bs = []
   | SP_map \<Rightarrow> bs \<in> {[], zeros}
   | SP_write k \<Rightarrow> k \<le> 2 \<and> i = length (written k) \<and> (if k = 0 then bs \<in> {[], zeros} else starts_with k bs)
   | SP_return r \<Rightarrow> if r = 0 then starts_with 3 bs else bs \<in> {[], zeros})"

definition same_object :: "shm_state \<Rightarrow> bool" where
  "same_object s \<longleftrightarrow> (os_name s = None \<or> os_name s = pfd s) \<and> (cfd s = None \<or> cfd s = pfd s)"

lemma same_object_upd [simp]:
  "same_object (s\<lparr>objs := x\<rparr>) = same_object s" "same_object (s\<lparr>ppc := p\<rparr>) = same_object s"
  "same_object (s\<lparr>ptr := n\<rparr>) = same_object s" "same_object (s\<lparr>cpc := c\<rparr>) = same_object s"
  "same_object (s\<lparr>out := os\<rparr>) = same_object s" "same_object (s\<lparr>failed := f\<rparr>) = same_object s"
  "same_object s \<Longrightarrow> same_object (s\<lparr>os_name := None\<rparr>)"
  "same_object s \<Longrightarrow> os_name s = Some i \<Longrightarrow> same_object (s\<lparr>cfd := Some i\<rparr>)"
  by (auto simp: same_object_def)

definition pieces_only :: "shm_line list \<Rightarrow> bool" where
  "pieces_only os \<longleftrightarrow> (\<forall>x. Text x \<in> set os \<longrightarrow> x \<in> written ` {0..3})"

lemma pieces_only_snoc:
  "pieces_only (os @ [l]) \<longleftrightarrow> pieces_only os \<and> (\<forall>x. l = Text x \<longrightarrow> x \<in> written ` {0..3})"
  by (auto simp: pieces_only_def)

definition producer_ok :: "nat option \<Rightarrow> producer_pc \<Rightarrow> nat \<Rightarrow> (nat \<Rightarrow> string) \<Rightarrow> bool" where
  "producer_ok fd pc i os = (case fd of None \<Rightarrow> pc \<in> {SP_open, SP_truncate, SP_map, SP_return (-1)} | Some n \<Rightarrow> object_ok pc i (os n))"

lemma producer_ok_simps [simp]:
  "producer_ok None pc i os \<longleftrightarrow> pc \<in> {SP_open, SP_truncate, SP_map, SP_return (-1)}"
  "producer_ok (Some n) pc i os \<longleftrightarrow> object_ok pc i (os n)"
  by (simp_all add: producer_ok_def)

definition shm_inv :: "shm_state \<Rightarrow> bool" where
  "shm_inv s \<longleftrightarrow> same_object s \<and> pieces_only (out s) \<and>
     producer_ok (pfd s) (ppc s) (ptr s) (objs s) \<and>
     (cpc s \<in> {SC_map, SC_print} \<longrightarrow> cfd s \<noteq> None) \<and>
     (failed s = None \<or> failed s = Some Bad_Pointer \<and> map_option (objs s) (pfd s) = Some [])"

lemma object_print:
  assumes "object_ok pc i bs" "bs \<noteq> []"
  shows "\<exists>k \<le> 3. print_string bs = Inr (written k)"
proof (cases "bs = zeros")
  case True
  with zeros_facts(2) show ?thesis by blast
next
  case False
  show ?thesis
  proof (cases pc)
    case (SP_write k)
    with False assms have "k \<le> 3" "0 < k" "starts_with k bs" by (auto simp: object_ok_def split: if_splits)
    with starts_print show ?thesis by blast
  next
    case (SP_return r)
    with False assms have "starts_with 3 bs" by (auto simp: object_ok_def split: if_splits)
    from starts_print [OF this] show ?thesis by auto
  qed (use assms False in \<open>auto simp: object_ok_def\<close>)
qed

lemma object_write:
  assumes "object_ok (SP_write k) i bs" "bs \<noteq> []"
  shows "\<exists>bs'. put_string bs i (message k) = Inr bs' \<and>
     object_ok (if k < 2 then SP_write (k + 1) else SP_return 0) (i + length (message k)) bs'"
proof -
  have k: "k \<le> 2" "i = length (written k)" "starts_with k bs"
    using assms zeros_facts(1) by (auto simp: object_ok_def split: if_splits)
  from put_next [OF k(3,1)] obtain bs' where "put_string bs i (message k) = Inr bs'" "starts_with (Suc k) bs'"
    using k(2) by blast
  moreover have "k < 2 \<or> Suc k = 3" using k(1) by linarith
  ultimately show ?thesis using k by (auto simp: object_ok_def)
qed

lemma producer_inv:
  assumes I: "shm_inv s" and F: "failed s = None" and S: "producer ok new s = Some s'"
  shows "shm_inv s'"
proof (cases "ppc s")
  case SP_open
  with I have "os_name s = None" "pfd s = None" "cfd s = None"
    by (cases "pfd s"; auto simp: shm_inv_def same_object_def object_ok_def)+
  with S SP_open I show ?thesis
    by (auto simp: producer_def shm_inv_def same_object_def object_ok_def split: if_splits)
next
  case SP_truncate
  with S I F show ?thesis
    by (cases "pfd s") (auto simp: producer_def shm_inv_def object_ok_def zeros_facts split: if_splits)
next
  case SP_map
  with S I F show ?thesis
    by (cases "pfd s") (auto simp: producer_def shm_inv_def object_ok_def pieces_only_snoc split: if_splits)
next
  case (SP_write k)
  with I obtain i where i: "pfd s = Some i" "object_ok (SP_write k) (ptr s) (objs s i)"
    by (cases "pfd s") (auto simp: shm_inv_def)
  show ?thesis
  proof (cases "objs s i = []")
    case True
    then have "put_string (objs s i) (ptr s) (message k) = Inl Bad_Pointer" by (simp add: put_string_def)
    with S SP_write i I True show ?thesis by (auto simp: producer_def shm_inv_def)
  next
    case False
    from object_write [OF i(2) False] obtain bs where
      "put_string (objs s i) (ptr s) (message k) = Inr bs"
      "object_ok (if k < 2 then SP_write (k + 1) else SP_return 0) (ptr s + length (message k)) bs" by blast
    with S SP_write i I F show ?thesis by (auto simp: producer_def shm_inv_def)
  qed
next
  case (SP_return r)
  with S show ?thesis by (simp add: producer_def)
qed

lemma consumer_inv:
  assumes I: "shm_inv s" and F: "failed s = None" and S: "consumer ok s = Some s'"
  shows "shm_inv s'"
proof (cases "cpc s")
  case SC_print
  with I obtain i where i: "cfd s = Some i" "pfd s = Some i" "object_ok (ppc s) (ptr s) (objs s i)"
    by (cases "cfd s"; cases "pfd s") (auto simp: shm_inv_def same_object_def)
  show ?thesis
  proof (cases "objs s i = []")
    case True
    then have "print_string (objs s i) = Inl Bad_Pointer" by (simp add: print_string_def)
    with S SC_print I F i True show ?thesis by (auto simp: consumer_def shm_inv_def)
  next
    case False
    with object_print [OF i(3)] obtain k where "k \<le> 3" "print_string (objs s i) = Inr (written k)" by blast
    with S SC_print I F i show ?thesis
      by (auto simp: consumer_def shm_inv_def pieces_only_snoc)
  qed
next
  case SC_open
  with S I F show ?thesis by (cases "os_name s"; cases ok) (auto simp: consumer_def shm_inv_def pieces_only_snoc)
next
  case SC_unlink
  with S I F show ?thesis by (cases "os_name s"; cases ok) (auto simp: consumer_def shm_inv_def pieces_only_snoc)
qed (use S I F in \<open>auto simp: consumer_def shm_inv_def pieces_only_snoc split: if_splits\<close>)

interpretation shm: invariant_system shm_step "shm_start os None" shm_inv for os
proof
  show "shm_inv (shm_start os None)"
    by (simp add: shm_inv_def shm_start_def same_object_def pieces_only_def)
  show "shm_inv s'" if "shm_inv s" "shm_step e s = Some s'" for s e s'
    using that by (cases e) (auto intro: producer_inv consumer_inv split: if_splits)
qed

section \<open>Every run ends\<close>

definition shm_work :: "shm_state \<Rightarrow> nat" where
  "shm_work s = (if failed s \<noteq> None then 0 else
     (case ppc s of SP_open \<Rightarrow> 6 | SP_truncate \<Rightarrow> 5 | SP_map \<Rightarrow> 4 | SP_write k \<Rightarrow> 3 - k | SP_return r \<Rightarrow> 0) +
     (case cpc s of SC_open \<Rightarrow> 4 | SC_map \<Rightarrow> 3 | SC_print \<Rightarrow> 2 | SC_unlink \<Rightarrow> 1 | SC_return r \<Rightarrow> 0))"

section \<open>The producer on an object that may be older\<close>

text \<open>
  Whatever the object held: the producer that gets to its end leaves the message in it, and as long
  as the consumer has not begun the name still stands for that object.
\<close>

definition producer_done :: "shm_state \<Rightarrow> bool" where
  "producer_done s \<longleftrightarrow>
     (case ppc s of
        SP_write k \<Rightarrow> k \<le> 2 \<and> ptr s = length (written k) \<and> (\<exists>i. pfd s = Some i \<and> begins k (objs s i))
      | SP_return r \<Rightarrow> r = 0 \<and> (\<exists>i. pfd s = Some i \<and> begins 3 (objs s i)) \<or> r = -1
      | _ \<Rightarrow> True) \<and>
     (cpc s = SC_open \<longrightarrow> (ppc s \<noteq> SP_open \<and> pfd s \<noteq> None \<longrightarrow> os_name s = pfd s) \<and>
        (ppc s \<noteq> SP_return (-1) \<longrightarrow> out s = []) \<and> (ppc s = SP_return 0 \<longrightarrow> failed s = None))"

lemma producer_done_producer:
  assumes I: "producer_done s" and F: "failed s = None" and S: "producer ok new s = Some s'"
  shows "producer_done s' \<and> (failed s' = None \<longrightarrow> shm_work s' < shm_work s)"
proof (cases "ppc s")
  case (SP_write k)
  with I obtain i where i: "k \<le> 2" "ptr s = length (written k)" "pfd s = Some i" "begins k (objs s i)"
    by (auto simp: producer_done_def)
  show ?thesis
  proof (cases "put_string (objs s i) (ptr s) (message k)")
    case (Inl e)
    then show ?thesis using S SP_write i I by (auto simp: producer_def producer_done_def)
  next
    case (Inr bs)
    have b: "begins (Suc k) bs" using put_begins [OF i(4)] Inr i(2) by simp
    have k: "\<not> k < 2 \<Longrightarrow> Suc k = 3" using i(1) by simp
    show ?thesis using S SP_write i I F Inr b k
      by (auto simp: producer_def producer_done_def shm_work_def numeral_3_eq_3)
  qed
qed (use I F S in \<open>auto simp: producer_def producer_done_def shm_work_def begins_def split: if_splits option.splits\<close>)

lemma producer_done_consumer:
  assumes I: "producer_done s" and S: "consumer ok s = Some s'"
  shows "producer_done s' \<and> (failed s' = None \<longrightarrow> shm_work s' < shm_work s)"
proof -
  have "ppc s' = ppc s" "pfd s' = pfd s" "ptr s' = ptr s" "objs s' = objs s" "cpc s' \<noteq> SC_open"
    "failed s' = None \<longrightarrow> shm_work s' < shm_work s"
    using S by (cases "cpc s"; auto simp: consumer_def shm_work_def split: if_splits option.splits sum.splits)+
  then show ?thesis using I by (cases "ppc s") (simp_all add: producer_done_def)
qed

interpretation shm_any: terminating_system shm_step "shm_start os nm" producer_done shm_work for os nm
proof
  show "producer_done (shm_start os nm)" by (simp add: producer_done_def shm_start_def)
next
  fix s e s' assume I: "producer_done s" and S: "shm_step e s = Some s'"
  have F: "failed s = None" using S by (cases e) (simp_all split: if_splits)
  have *: "producer_done s' \<and> (failed s' = None \<longrightarrow> shm_work s' < shm_work s)"
    using I S F by (cases e) (auto dest: producer_done_producer producer_done_consumer split: if_splits)
  then show "producer_done s'" by blast
  have "0 < shm_work s" if "failed s' \<noteq> None" using that S F I
    by (cases e) (auto simp: producer_def consumer_def shm_work_def producer_done_def split: if_splits option.splits sum.splits producer_pc.splits consumer_pc.splits)
  then show "shm_work s' < shm_work s" using * by (cases "failed s'") (auto simp: shm_work_def [of s'])
qed

section \<open>The consumer after the producer\<close>

definition full_message :: string where
  "full_message = ''Studying Operating Systems Is Fun!''"

lemma full_message: "written 3 = full_message"
  by (simp add: full_message_def numeral_3_eq_3 message_def)

text \<open>Where the consumer can be once the producer has ended, object \<open>i\<close>; \<open>b\<close>: one of its calls has failed.\<close>

definition reads_message :: "nat \<Rightarrow> bool \<Rightarrow> shm_state \<Rightarrow> bool" where
  "reads_message i b s \<longleftrightarrow> ppc s = SP_return 0 \<and> failed s = None \<and> begins 3 (objs s i) \<and>
     (case cpc s of
        SC_open \<Rightarrow> os_name s = Some i \<and> out s = []
      | SC_unlink \<Rightarrow> os_name s = Some i \<and> out s = [Text full_message]
      | SC_return r \<Rightarrow> r = 0 \<and> os_name s = None \<and> out s = [Text full_message] \<or>
          b \<and> r = -1 \<and> os_name s = Some i \<and> out s \<in> {[Shared_Memory_Failed], [Map_Failed], [Text full_message, Error_Removing]}
      | _ \<Rightarrow> os_name s = Some i \<and> cfd s = Some i \<and> out s = [])"

lemma reads_message_step:
  assumes I: "reads_message i b s" and S: "shm_step e s = Some s'"
  shows "reads_message i (b \<or> e = Consumer False) s'"
proof -
  obtain ok where e: "e = Consumer ok" "consumer ok s = Some s'"
    using I S by (cases e) (auto simp: reads_message_def producer_def split: if_splits)
  have p: "print_string (objs s i) = Inr full_message"
    using I begins_print [of 3] by (simp add: reads_message_def full_message)
  show ?thesis using I e p
    by (cases "cpc s"; cases ok) (auto simp: reads_message_def consumer_def)
qed

lemma reads_message_run:
  "reads_message i b s \<Longrightarrow> run shm_step es s = Some s' \<Longrightarrow> reads_message i (b \<or> Consumer False \<in> set es) s'"
proof (induction es arbitrary: s b)
  case (Cons e es)
  then obtain s1 where s1: "shm_step e s = Some s1" "run shm_step es s1 = Some s'" by (auto split: option.splits)
  have "reads_message i ((b \<or> e = Consumer False) \<or> Consumer False \<in> set es) s'"
    by (rule Cons.IH [OF reads_message_step [OF Cons.prems(1) s1(1)] s1(2)])
  moreover have "(b \<or> e = Consumer False) \<or> Consumer False \<in> set es \<longleftrightarrow> b \<or> Consumer False \<in> set (e # es)" by auto
  ultimately show ?case by simp
qed simp

lemma producer_done_reads:
  assumes "producer_done s" "ppc s = SP_return 0" "cpc s = SC_open"
  shows "\<exists>i. reads_message i False s"
  using assms by (auto simp: producer_done_def reads_message_def)

text \<open>The producer alone, when no call fails: it gets to its end on any older object.\<close>

lemma producer_alone:
  "\<exists>s. run shm_step (replicate 6 (Producer True new)) (shm_start os nm) = Some s \<and> ppc s = SP_return 0 \<and> cpc s = SC_open"
proof -
  define i where "i = (case nm of None \<Rightarrow> new | Some i \<Rightarrow> i)"
  define os' where "os' = (case nm of None \<Rightarrow> os(new := []) | Some i \<Rightarrow> os)"
  let ?t = "ftruncate SIZE (os' i)"
  have "starts_with 0 ?t" by (simp add: starts_with_def begins_def)
  from put_next [OF this] obtain b1 where b1: "put_string ?t 0 (message 0) = Inr b1" "starts_with 1 b1" by auto
  from put_next [OF b1(2)] obtain b2 where b2: "put_string b1 (length (message 0)) (message 1) = Inr b2" "starts_with 2 b2"
    by (auto simp: numeral_2_eq_2)
  from put_next [OF b2(2)] obtain b3 where
    b3: "put_string b2 (length (message 0) + length (message 1)) (message 2) = Inr b3"
    by (auto simp: numeral_2_eq_2)
  let ?s1 = "(shm_start os' (Some i))\<lparr>pfd := Some i, ppc := SP_truncate\<rparr>"
  have s1: "shm_step (Producer True new) (shm_start os nm) = Some ?s1"
    by (cases nm) (simp_all add: producer_def shm_start_def i_def os'_def)
  have "\<exists>s. run shm_step (replicate 5 (Producer True new)) ?s1 = Some s \<and> ppc s = SP_return 0 \<and> cpc s = SC_open"
    using b1(1) b2(1) b3 by (simp add: numeral_eq_Suc producer_def shm_start_def)
  with s1 show ?thesis by (simp add: numeral_eq_Suc)
qed

lemma shm_stuck:
  assumes "stuck shm_step s" "failed s = None"
  shows "\<exists>p c. ppc s = SP_return p \<and> cpc s = SC_return c"
proof -
  have "producer True 0 s = None" "consumer True s = None"
    using assms(1) [unfolded stuck_def, rule_format, of "Producer True 0"]
      assms(1) [unfolded stuck_def, rule_format, of "Consumer True"] assms(2) by simp_all
  then show ?thesis by (cases "ppc s"; cases "cpc s") (simp_all add: producer_def consumer_def)
qed

lemma written_pieces:
  "written ` {0..3} = {[], ''Studying '', ''Studying Operating Systems '', ''Studying Operating Systems Is Fun!''}"
proof -
  have "{0..3::nat} = {0, 1, 2, 3}" by auto
  then show ?thesis by (simp only:) (simp add: written_def message_def eval_nat_numeral)
qed

section \<open>Property\<close>



end
