(* ===== verification/Windows_Mapping.thy ===== *)
theory Windows_Mapping
  imports Shared_Memory
begin

text \<open>
  \<open>ch9/windows-programs/producer.c\<close> and \<open>consumer.c\<close>: two programs that share a mapped file by the name
  of the mapping object. The object gives access to whole pages, the file's bytes followed by zeros;
  the Windows API does not map an empty file. Both programs run interleaved, one step per call, and
  each event says whether the call succeeds.
\<close>

section \<open>The programs\<close>

definition PAGE :: nat where
  "PAGE = 4096"

definition pages :: "string \<Rightarrow> string" where
  "pages bs = bs @ replicate ((PAGE - length bs mod PAGE) mod PAGE) NUL"

definition shared_message :: string where
  "shared_message = ''Shared memory message''"

datatype wm_line = Could_Not_Open_File | Could_Not_Create_Mapping | Could_Not_Map_View | Could_Not_Open_Mapping | Message string

datatype wm_producer = M_open | M_mapping | M_view | M_write | M_loop | M_return int

datatype wm_consumer = N_open | N_view | N_print | N_unmap | N_return int

text \<open>\<open>temp\<close> is the file \<open>temp.txt\<close>, \<open>shared\<close> the pages of the object \<open>SharedObject\<close>.\<close>

record wm_state =
  temp :: "string option"
  shared :: "string option"
  prod_at :: wm_producer
  cons_at :: wm_consumer
  out :: "wm_line list"
  failed :: "c_abort option"

definition wm_init :: "string option \<Rightarrow> wm_state" where
  "wm_init f = \<lparr>temp = f, shared = None, prod_at = M_open, cons_at = N_open, out = [], failed = None\<rparr>"

definition complain :: "wm_line \<Rightarrow> wm_state \<Rightarrow> wm_state" where
  "complain l s = s\<lparr>out := out s @ [l]\<rparr>"

text \<open>The object goes away when no process has it open any more; a process that ends closes its handles.\<close>

definition release :: "wm_state \<Rightarrow> wm_state" where
  "release s = (if prod_at s \<in> {M_view, M_write, M_loop} \<or> cons_at s \<in> {N_view, N_print, N_unmap} then s else s\<lparr>shared := None\<rparr>)"

text \<open>\<open>while (1);\<close>: once the message is written main stays there, and does not reach what follows.\<close>

definition producer_main :: "bool \<Rightarrow> wm_state \<Rightarrow> wm_state option" where
  "producer_main ok s = (case prod_at s of
     M_open \<Rightarrow> Some (if ok then s\<lparr>temp := Some (case temp s of None \<Rightarrow> [] | Some bs \<Rightarrow> bs), prod_at := M_mapping\<rparr>
       else complain Could_Not_Open_File (s\<lparr>prod_at := M_return (-1)\<rparr>))
   | M_mapping \<Rightarrow> Some (case temp s of
       Some bs \<Rightarrow> if ok \<and> bs \<noteq> [] then s\<lparr>shared := Some (pages bs), prod_at := M_view\<rparr>
         else complain Could_Not_Create_Mapping (s\<lparr>prod_at := M_return (-1)\<rparr>)
     | None \<Rightarrow> complain Could_Not_Create_Mapping (s\<lparr>prod_at := M_return (-1)\<rparr>))
   | M_view \<Rightarrow> Some (if ok then s\<lparr>prod_at := M_write\<rparr> else complain Could_Not_Map_View (release (s\<lparr>prod_at := M_return (-1)\<rparr>)))
   | M_write \<Rightarrow> Some (case shared s of
       None \<Rightarrow> s\<lparr>failed := Some Bad_Pointer\<rparr>
     | Some bs \<Rightarrow> (case put_string bs 0 shared_message of
         Inl e \<Rightarrow> s\<lparr>failed := Some e\<rparr>
       | Inr bs' \<Rightarrow> s\<lparr>shared := Some bs', prod_at := M_loop\<rparr>))
   | M_loop \<Rightarrow> Some s
   | M_return r \<Rightarrow> None)"

definition consumer_main :: "bool \<Rightarrow> wm_state \<Rightarrow> wm_state option" where
  "consumer_main ok s = (case cons_at s of
     N_open \<Rightarrow> Some (if ok \<and> shared s \<noteq> None then s\<lparr>cons_at := N_view\<rparr>
       else complain Could_Not_Open_Mapping (s\<lparr>cons_at := N_return (-1)\<rparr>))
   | N_view \<Rightarrow> Some (if ok then s\<lparr>cons_at := N_print\<rparr> else complain Could_Not_Map_View (release (s\<lparr>cons_at := N_return (-1)\<rparr>)))
   | N_print \<Rightarrow> Some (case shared s of
       None \<Rightarrow> s\<lparr>failed := Some Bad_Pointer\<rparr>
     | Some bs \<Rightarrow> (case c_string bs of
         Inl e \<Rightarrow> s\<lparr>failed := Some e\<rparr>
       | Inr x \<Rightarrow> complain (Message x) (s\<lparr>cons_at := N_unmap\<rparr>)))
   | N_unmap \<Rightarrow> Some (release (s\<lparr>cons_at := N_return 0\<rparr>))
   | N_return r \<Rightarrow> None)"

datatype wm_event = Produce bool | Consume bool

fun wm_step :: "wm_event \<Rightarrow> wm_state \<Rightarrow> wm_state option" where
  "wm_step (Produce ok) s = (if failed s \<noteq> None then None else producer_main ok s)"
| "wm_step (Consume ok) s = (if failed s \<noteq> None then None else consumer_main ok s)"

section \<open>Invariant\<close>

lemma pages_length:
  assumes "bs \<noteq> []"
  shows "PAGE \<le> length (pages bs)"
proof (cases "length bs < PAGE")
  case True
  then have "length bs mod PAGE = length bs" "(PAGE - length bs) mod PAGE = PAGE - length bs" using assms by simp_all
  then show ?thesis using True by (simp add: pages_def)
qed (simp add: pages_def)

text \<open>What the pages hold: the file's first contents or, from the write on, the message.\<close>

definition contents :: "string option \<Rightarrow> bool \<Rightarrow> string option \<Rightarrow> bool" where
  "contents f b sh \<longleftrightarrow> (\<exists>c bs. f = Some c \<and> c \<noteq> [] \<and> sh = Some bs \<and> (if b then c_string bs = Inr shared_message else bs = pages c))"

definition printed :: "string option \<Rightarrow> wm_line list \<Rightarrow> bool" where
  "printed f ls \<longleftrightarrow> (\<forall>x. Message x \<in> set ls \<longrightarrow> (\<exists>c. f = Some c \<and> c \<noteq> [] \<and> (x = shared_message \<or> c_string (pages c) = Inr x)))"

definition producer_ok :: "string option \<Rightarrow> wm_producer \<Rightarrow> string option \<Rightarrow> string option \<Rightarrow> bool" where
  "producer_ok f p tmp sh = (case p of
     M_open \<Rightarrow> tmp = f \<and> sh = None
   | M_mapping \<Rightarrow> tmp = Some (case f of None \<Rightarrow> [] | Some bs \<Rightarrow> bs) \<and> sh = None
   | M_view \<Rightarrow> contents f False sh
   | M_write \<Rightarrow> contents f False sh
   | M_loop \<Rightarrow> contents f True sh
   | M_return r \<Rightarrow> r = -1 \<and> (sh \<noteq> None \<longrightarrow> contents f False sh))"

definition wm_inv :: "string option \<Rightarrow> wm_state \<Rightarrow> bool" where
  "wm_inv f s \<longleftrightarrow> printed f (out s) \<and> producer_ok f (prod_at s) (temp s) (shared s) \<and>
     (cons_at s \<in> {N_view, N_print, N_unmap} \<longrightarrow> shared s \<noteq> None) \<and> failed s \<noteq> Some Bad_Pointer"

lemma put_message:
  assumes "bs \<noteq> []"
  shows "\<exists>bs'. put_string (pages bs) 0 shared_message = Inr bs' \<and> c_string bs' = Inr shared_message"
proof -
  have "length shared_message < length (pages bs)" using pages_length [OF assms] by (simp add: shared_message_def PAGE_def)
  moreover have "c_string (shared_message @ NUL # cs) = Inr shared_message" for cs
    by (simp add: c_string_def shared_message_def NUL_def)
  ultimately show ?thesis by (simp add: put_string_def)
qed

lemma printed_snoc [simp]: "printed f (ls @ [l]) \<longleftrightarrow> printed f ls \<and> printed f [l]"
  by (auto simp: printed_def)

lemma printed_simple [simp]: "(\<And>x. l \<noteq> Message x) \<Longrightarrow> printed f [l]" "printed f []"
  by (auto simp: printed_def)

lemma complain_simps [simp]:
  "out (complain l s) = out s @ [l]" "temp (complain l s) = temp s" "shared (complain l s) = shared s"
  "prod_at (complain l s) = prod_at s" "cons_at (complain l s) = cons_at s" "failed (complain l s) = failed s"
  by (simp_all add: complain_def)

lemma release_simps [simp]:
  "out (release s) = out s" "temp (release s) = temp s" "prod_at (release s) = prod_at s" "cons_at (release s) = cons_at s"
  "failed (release s) = failed s"
  "shared (release s) = (if prod_at s \<in> {M_view, M_write, M_loop} \<or> cons_at s \<in> {N_view, N_print, N_unmap} then shared s else None)"
  by (simp_all add: release_def)

lemma wm_producer_inv:
  assumes "wm_inv f s" "producer_main ok s = Some s'" "failed s = None"
  shows "wm_inv f s'"
proof (cases "prod_at s")
  case M_open
  with assms show ?thesis by (auto simp: wm_inv_def producer_main_def producer_ok_def split: if_splits)
next
  case M_mapping
  with assms show ?thesis
    by (auto simp: wm_inv_def producer_main_def producer_ok_def contents_def split: if_splits option.splits)
next
  case M_view
  with assms show ?thesis by (auto simp: wm_inv_def producer_main_def producer_ok_def split: if_splits)
next
  case M_write
  then obtain c where c: "c \<noteq> []" "f = Some c" "shared s = Some (pages c)"
    using assms(1) by (auto simp: wm_inv_def producer_ok_def contents_def)
  obtain bs where "put_string (pages c) 0 shared_message = Inr bs" "c_string bs = Inr shared_message"
    using put_message [OF c(1)] by blast
  with M_write c assms show ?thesis by (auto simp: wm_inv_def producer_main_def producer_ok_def contents_def)
qed (use assms in \<open>simp_all add: producer_main_def\<close>)

lemma producer_ok_contents:
  "producer_ok f p tmp (Some bs) \<Longrightarrow> \<exists>b. contents f b (Some bs)"
  by (cases p) (auto simp: producer_ok_def)

lemma contents_printed: "contents f b (Some bs) \<Longrightarrow> c_string bs = Inr x \<Longrightarrow> printed f [Message x]"
  by (auto simp: contents_def printed_def split: if_splits)

lemma producer_ok_shared: "producer_ok f p tmp sh \<Longrightarrow> p \<in> {M_view, M_write, M_loop} \<or> producer_ok f p tmp None"
  by (cases p) (simp_all add: producer_ok_def)

lemma wm_consumer_inv:
  assumes I: "wm_inv f s" and S: "consumer_main ok s = Some s'" and F: "failed s = None"
  shows "wm_inv f s'"
proof (cases "cons_at s")
  case N_print
  then obtain bs b where bs: "shared s = Some bs" "contents f b (Some bs)"
    using I producer_ok_contents by (fastforce simp: wm_inv_def)
  show ?thesis
  proof (cases "c_string bs")
    case (Inl e)
    then have "e \<noteq> Bad_Pointer" by (simp add: c_string_def split: if_splits)
    with Inl bs N_print I S show ?thesis by (auto simp: wm_inv_def consumer_main_def)
  next
    case (Inr x)
    with bs contents_printed [OF bs(2) Inr] N_print I S show ?thesis by (auto simp: wm_inv_def consumer_main_def)
  qed
next
  case N_open
  with I S show ?thesis by (auto simp: wm_inv_def consumer_main_def split: if_splits)
next
  case N_view
  with I S show ?thesis
    using producer_ok_shared [of f "prod_at s" "temp s" "shared s"] by (auto simp: wm_inv_def consumer_main_def split: if_splits)
next
  case N_unmap
  with I S show ?thesis
    using producer_ok_shared [of f "prod_at s" "temp s" "shared s"] by (auto simp: wm_inv_def consumer_main_def split: if_splits)
qed (use S in \<open>simp add: consumer_main_def\<close>)

interpretation wm: invariant_system wm_step "wm_init f" "wm_inv f" for f
proof
  show "wm_inv f (wm_init f)" by (simp add: wm_inv_def wm_init_def producer_ok_def)
  show "wm_inv f s'" if "wm_inv f s" "wm_step e s = Some s'" for s e s'
    using that wm_producer_inv [of f s _ s'] wm_consumer_inv [of f s _ s'] by (cases e) (simp_all split: if_splits)
qed

section \<open>Property\<close>

text \<open>However the producer and the consumer of chapter 9 interleave and whichever calls fail, and whatever \<open>temp.txt\<close> holds:
  no null pointer is used; the producer never ends but with an error, as the loop behind its write keeps it from unmapping the
  file; while it is in this loop the shared pages hold the message; and the consumer prints the message or what the file held
  before, but nothing at all when there was no such file or it was empty, for then the producer cannot map it.\<close>

theorem win_mapping_message:
  assumes "reachable wm_step (wm_init f) s"
  shows "failed s \<noteq> Some Bad_Pointer \<and> (\<forall>r. prod_at s = M_return r \<longrightarrow> r = -1) \<and>
    (prod_at s = M_loop \<longrightarrow> (\<exists>bs. shared s = Some bs \<and> c_string bs = Inr shared_message)) \<and>
    (\<forall>x. Message x \<in> set (out s) \<longrightarrow>
      (\<exists>c. f = Some c \<and> c \<noteq> [] \<and> (x = shared_message \<or> c_string (pages c) = Inr x)))"
proof -
  have I: "wm_inv f s" by (rule wm.reachable_inv [OF assms])
  moreover from I have "prod_at s = M_return r \<Longrightarrow> r = -1" for r by (simp add: wm_inv_def producer_ok_def)
  ultimately show ?thesis by (auto simp: wm_inv_def producer_ok_def contents_def printed_def)
qed

theorem win_mapping_message_witness:
  "\<exists>s. run wm_step (replicate 4 (Produce True) @ replicate 4 (Consume True)) (wm_init (Some ''x'')) = Some s \<and>
     prod_at s = M_loop \<and> cons_at s = N_return 0 \<and> out s = [Message shared_message] \<and> failed s \<noteq> Some Bad_Pointer"
proof -
  let ?es = "replicate 4 (Produce True) @ replicate 4 (Consume True)"
  obtain bs where bs: "put_string (pages ''x'') 0 shared_message = Inr bs" "c_string bs = Inr shared_message"
    using put_message [of "''x''"] by auto
  have r: "replicate 4 e = [e, e, e, e]" for e :: wm_event by (simp add: numeral_eq_Suc)
  let ?s = "\<lparr>temp = Some ''x'', shared = Some bs, prod_at = M_loop, cons_at = N_open, out = [], failed = None\<rparr>"
  have 1: "run wm_step (replicate 4 (Produce True)) (wm_init (Some ''x'')) = Some ?s"
    unfolding r by (simp add: bs(1) wm_init_def producer_main_def)
  have 2: "run wm_step (replicate 4 (Consume True)) ?s =
      Some (?s\<lparr>cons_at := N_return 0, out := [Message shared_message]\<rparr>)"
    unfolding r by (simp add: bs(2) consumer_main_def complain_def release_def)
  let ?t = "?s\<lparr>cons_at := N_return 0, out := [Message shared_message]\<rparr>"
  have s: "run wm_step ?es (wm_init (Some ''x'')) = Some ?t"
    by (simp only: run_append 1 2 option.case)
  from run_reachable [OF reachable.start s] have "reachable wm_step (wm_init (Some ''x'')) ?t" .
  from win_mapping_message [OF this] have "failed ?t \<noteq> Some Bad_Pointer" by (rule conjunct1)
  with s show ?thesis by (intro exI [of _ ?t]) simp
qed

end
