(* ===== verification/Semaphore_Examples.thy ===== *)
theory Semaphore_Examples
  imports Posix_Sync
begin

text \<open>
  The two semaphore examples of chapter 5: \<open>posix-named-sem.c\<close>, run by any number of processes,
  and \<open>posix-unnamed-sem.c\<close>. A named semaphore is an object that processes find by its name; an
  unlinked name can be given to a new object while the old one stays in use.
\<close>

section \<open>\<open>posix-named-sem.c\<close>\<close>

datatype ns_line = Error_Removing | Error_Creating | Error_Waiting | Error_Posting | Critical | Non_Critical

datatype ns_pc = NS_unlink | NS_open | NS_wait | NS_critical | NS_post | NS_non_critical | NS_exit | NS_crashed

text \<open>\<open>sem_value\<close> is indexed by the objects in the order of their creation, \<open>osc\<close> is the one with the name \<open>"OSC"\<close>.
  Of each process: where it is and its pointer \<open>sem\<close>, \<open>None\<close> for \<open>SEM_FAILED\<close>.\<close>

record ns_state =
  sem_value :: "nat \<Rightarrow> sem"
  next_sem :: nat
  osc :: "nat option"
  proc :: "tid \<Rightarrow> ns_pc \<times> nat option"
  out :: "(tid \<times> ns_line) list"

text \<open>\<open>old\<close>: the value of an older semaphore of that name, if there is one.\<close>

definition ns_init :: "sem option \<Rightarrow> ns_state" where
  "ns_init old = (case old of
     None \<Rightarrow> \<lparr>sem_value = (\<lambda>_. 0), next_sem = 0, osc = None, proc = (\<lambda>_. (NS_unlink, None)), out = []\<rparr>
   | Some v \<Rightarrow> \<lparr>sem_value = (\<lambda>_. v), next_sem = 1, osc = Some 0, proc = (\<lambda>_. (NS_unlink, None)), out = []\<rparr>)"

definition goto :: "tid \<Rightarrow> ns_pc \<Rightarrow> ns_state \<Rightarrow> ns_state" where
  "goto t p s = s\<lparr>proc := (proc s)(t := (p, snd (proc s t)))\<rparr>"

definition say :: "tid \<Rightarrow> ns_line \<Rightarrow> ns_state \<Rightarrow> ns_state" where
  "say t l s = s\<lparr>out := out s @ [(t, l)]\<rparr>"

definition sem_open :: "tid \<Rightarrow> ns_state \<Rightarrow> ns_state" where
  "sem_open t s = (case osc s of
     Some i \<Rightarrow> s\<lparr>proc := (proc s)(t := (NS_wait, Some i))\<rparr>
   | None \<Rightarrow> s\<lparr>sem_value := (sem_value s)(next_sem s := 1), osc := Some (next_sem s), next_sem := next_sem s + 1,
       proc := (proc s)(t := (NS_wait, Some (next_sem s)))\<rparr>)"

text \<open>
  \<open>main\<close>; \<open>ok\<close> says whether \<open>sem_unlink\<close> or \<open>sem_open\<close> succeeds. A failure is only printed, and the later calls then
  use the invalid pointer: they return an error (\<open>ok\<close>), which is only printed too, or end the
  process. The program installs no signal handler, so that \<open>sem_wait\<close> on a valid semaphore is not
  interrupted.
\<close>

definition named_main :: "bool \<Rightarrow> tid \<Rightarrow> ns_state \<Rightarrow> ns_state option" where
  "named_main ok t s = (case fst (proc s t) of
     NS_unlink \<Rightarrow> Some (goto t NS_open (if \<not> ok \<or> osc s = None then say t Error_Removing s else s\<lparr>osc := None\<rparr>))
   | NS_open \<Rightarrow> Some (if ok then sem_open t s
       else say t Error_Creating (s\<lparr>proc := (proc s)(t := (NS_wait, None))\<rparr>))
   | NS_wait \<Rightarrow> (case snd (proc s t) of
       None \<Rightarrow> Some (if ok then goto t NS_critical (say t Error_Waiting s) else goto t NS_crashed s)
     | Some i \<Rightarrow> (case sem_wait (sem_value s i) of
         None \<Rightarrow> None
       | Some n \<Rightarrow> Some (goto t NS_critical (s\<lparr>sem_value := (sem_value s)(i := n)\<rparr>))))
   | NS_critical \<Rightarrow> Some (goto t NS_post (say t Critical s))
   | NS_post \<Rightarrow> (case snd (proc s t) of
       None \<Rightarrow> Some (if ok then goto t NS_non_critical (say t Error_Posting s) else goto t NS_crashed s)
     | Some i \<Rightarrow> Some (goto t NS_non_critical (case sem_post (sem_value s i) of
         None \<Rightarrow> say t Error_Posting s
       | Some n \<Rightarrow> s\<lparr>sem_value := (sem_value s)(i := n)\<rparr>)))
   | NS_non_critical \<Rightarrow> Some (goto t NS_exit (say t Non_Critical s))
   | _ \<Rightarrow> None)"

datatype ns_event = Proc tid bool

fun ns_step :: "nat \<Rightarrow> ns_event \<Rightarrow> ns_state \<Rightarrow> ns_state option" where
  "ns_step N (Proc t ok) s = (if t < N then named_main ok t s else None)"

section \<open>\<open>posix-unnamed-sem.c\<close>\<close>

text \<open>\<open>rc k\<close> is the return code of the \<open>k\<close>-th call; an error is printed and ignored.\<close>

datatype us_line = Error | In_Critical | In_Non_Critical

definition unnamed_main :: "(nat \<Rightarrow> int) \<Rightarrow> us_line list" where
  "unnamed_main rc =
     (if rc 0 = -1 then [Error] else []) @ (if rc 1 \<noteq> 0 then [Error] else []) @ [In_Critical] @
     (if rc 2 \<noteq> 0 then [Error] else []) @ [In_Non_Critical] @ (if rc 3 \<noteq> 0 then [Error] else [])"

section \<open>Invariant\<close>

definition holds :: "nat \<Rightarrow> ns_pc \<times> nat option \<Rightarrow> int" where
  "holds i q = (if fst q \<in> {NS_critical, NS_post} \<and> snd q = Some i then 1 else 0)"

definition known_sems :: "ns_state \<Rightarrow> bool" where
  "known_sems s \<longleftrightarrow> (\<forall>t i. snd (proc s t) = Some i \<longrightarrow> i < next_sem s) \<and> (\<forall>i. osc s = Some i \<longrightarrow> i < next_sem s)"

text \<open>How many processes a semaphore lets in: one, unless it is the older one.\<close>

definition places :: "sem option \<Rightarrow> nat \<Rightarrow> int" where
  "places old i = (case old of None \<Rightarrow> 1 | Some v \<Rightarrow> if i = 0 then int v else 1)"

text \<open>The value of an older semaphore is in the range of POSIX.\<close>

definition sem_range :: "sem option \<Rightarrow> bool" where
  "sem_range old = (case old of None \<Rightarrow> True | Some v \<Rightarrow> int v \<le> SEM_VALUE_MAX)"

definition old_ok :: "sem option \<Rightarrow> ns_state \<Rightarrow> bool" where
  "old_ok old s \<longleftrightarrow> (old \<noteq> None \<longrightarrow> 0 < next_sem s) \<and> sem_range old"

definition counted :: "sem option \<Rightarrow> nat \<Rightarrow> ns_state \<Rightarrow> bool" where
  "counted old N s \<longleftrightarrow> (\<forall>i < next_sem s. int (sem_value s i) + tally N (holds i) (proc s) = places old i)"

definition ns_inv :: "sem option \<Rightarrow> nat \<Rightarrow> ns_state \<Rightarrow> bool" where
  "ns_inv old N s \<longleftrightarrow> known_sems s \<and> counted old N s \<and> old_ok old s"

lemma holds_nonneg: "0 \<le> holds i q"
  by (simp add: holds_def)

lemma holds_simps [simp]:
  "holds i (NS_critical, m) = (if m = Some i then 1 else 0)" "holds i (NS_post, m) = (if m = Some i then 1 else 0)"
  "p \<notin> {NS_critical, NS_post} \<Longrightarrow> holds i (p, m) = 0"
  by (simp_all add: holds_def)

lemma tally_unused: "known_sems s \<Longrightarrow> tally N (holds (next_sem s)) (proc s) = 0"
  unfolding tally_def known_sems_def by (intro sum.neutral) (auto simp: holds_def)

lemma known_goto: "known_sems s \<Longrightarrow> known_sems (goto t p s)"
  by (auto simp: known_sems_def goto_def)

lemma known_upd [simp]:
  "known_sems (say t l s) = known_sems s" "known_sems (s\<lparr>sem_value := v\<rparr>) = known_sems s"
  "known_sems s \<Longrightarrow> known_sems (s\<lparr>osc := None\<rparr>)"
  by (simp_all add: known_sems_def say_def)

lemma old_upd [simp]: "old_ok old (say t l s) = old_ok old s" "old_ok old (s\<lparr>osc := x\<rparr>) = old_ok old s"
    "old_ok old (s\<lparr>sem_value := v\<rparr>) = old_ok old s" "old_ok old (goto t p s) = old_ok old s"
    "old_ok old (s\<lparr>proc := q\<rparr>) = old_ok old s"
  by (simp_all add: old_ok_def say_def goto_def)

lemma places_new [simp]: "old_ok old s \<Longrightarrow> places old (next_sem s) = 1"
  by (cases old) (simp_all add: places_def old_ok_def)

lemma places_max: "old_ok old s \<Longrightarrow> places old i \<le> SEM_VALUE_MAX"
  by (cases old) (simp_all add: places_def old_ok_def sem_range_def SEM_VALUE_MAX_def)

lemma counted_upd [simp]: "counted old N (say t l s) = counted old N s" "counted old N (s\<lparr>osc := x\<rparr>) = counted old N s"
  by (simp_all add: counted_def say_def)

lemma counted_goto:
  assumes "t < N" "counted old N s" "\<And>i. holds i (p, snd (proc s t)) = holds i (proc s t)"
  shows "counted old N (goto t p s)"
  using assms by (simp add: counted_def goto_def)

lemma same_proc [simp]: "proc (say t l s) = proc s" "proc (s\<lparr>sem_value := v\<rparr>) = proc s" "proc (s\<lparr>osc := x\<rparr>) = proc s"
  by (simp_all add: say_def)

lemma named_open_inv:
  assumes t: "t < N" and I: "ns_inv old N s" and pm: "proc s t = (p, m)" and pc: "p = NS_open"
    and S: "named_main ok t s = Some s'"
  shows "ns_inv old N s'"
proof -
  have K: "known_sems s" and C: "counted old N s" and O: "old_ok old s" using I by (simp_all add: ns_inv_def)
  note D = named_main_def pm
  show ?thesis
  proof (cases "ok \<and> osc s = None")
    case True
    with S pc have s': "s' = s\<lparr>sem_value := (sem_value s)(next_sem s := 1), osc := Some (next_sem s),
        next_sem := next_sem s + 1, proc := (proc s)(t := (NS_wait, Some (next_sem s)))\<rparr>"
      by (simp add: D sem_open_def)
    have "known_sems s'" using K unfolding s' by (auto simp: known_sems_def less_Suc_eq)
    moreover have "counted old N s'"
      using C tally_unused [OF K, of N] t pm pc places_new [OF O] unfolding s' by (auto simp: counted_def less_Suc_eq)
    moreover have "old_ok old s'" using O unfolding s' by (simp add: old_ok_def)
    ultimately show ?thesis by (simp add: ns_inv_def)
  next
    case False
    with S pc K C O t pm show ?thesis
      by (auto simp: D sem_open_def say_def ns_inv_def known_sems_def counted_def old_ok_def split: option.splits if_splits)
  qed
qed

lemma named_wait_inv:
  assumes t: "t < N" and I: "ns_inv old N s" and pm: "proc s t = (p, m)" and pc: "p = NS_wait"
    and S: "named_main ok t s = Some s'"
  shows "ns_inv old N s'"
proof -
  have K: "known_sems s" and C: "counted old N s" and O: "old_ok old s" using I by (simp_all add: ns_inv_def)
  note D = named_main_def pm
  show ?thesis
  proof (cases m)
    case None
    with S pc K C O t pm show ?thesis
      by (auto simp: D ns_inv_def intro!: known_goto counted_goto)
  next
    case (Some i)
    with S pc obtain n where n: "sem_value s i = Suc n" "s' = goto t NS_critical (s\<lparr>sem_value := (sem_value s)(i := n)\<rparr>)"
      by (auto simp: D split: option.splits)
    have "known_sems s'" using K Some pm unfolding n(2) by (intro known_goto) simp_all
    moreover have "counted old N s'" using C n t pm pc Some by (auto simp: counted_def goto_def)
    ultimately show ?thesis using O n(2) by (simp add: ns_inv_def)
  qed
qed

lemma named_post_inv:
  assumes t: "t < N" and I: "ns_inv old N s" and pm: "proc s t = (p, m)" and pc: "p = NS_post"
    and S: "named_main ok t s = Some s'"
  shows "ns_inv old N s'"
proof -
  have K: "known_sems s" and C: "counted old N s" and O: "old_ok old s" using I by (simp_all add: ns_inv_def)
  note D = named_main_def pm
  show ?thesis
  proof (cases m)
    case None
    with S pc K C O t pm show ?thesis
      by (auto simp: D ns_inv_def intro!: known_goto counted_goto)
  next
    case (Some i)
    then have i: "m = Some i" "i < next_sem s" using K pm unfolding known_sems_def by (simp, metis snd_conv)
    have "holds i (proc s t) \<le> tally N (holds i) (proc s)" by (rule tally_ge_one [of "holds i" t N]) (simp_all add: holds_nonneg t)
    moreover have "int (sem_value s i) + tally N (holds i) (proc s) = places old i" using C i(2) by (simp add: counted_def)
    ultimately have z: "int (sem_value s i) < SEM_VALUE_MAX" using places_max [OF O, of i] pm pc i(1) by simp
    then have s': "s' = goto t NS_non_critical (s\<lparr>sem_value := (sem_value s)(i := Suc (sem_value s i))\<rparr>)"
      using S pc i by (auto simp: D sem_post_def)
    have "known_sems s'" using K unfolding s' by (intro known_goto) simp
    moreover have "counted old N s'" using C t pm pc i(1) unfolding s' by (auto simp: counted_def goto_def)
    ultimately show ?thesis using O s' by (simp add: ns_inv_def)
  qed
qed

lemma named_inv:
  assumes t: "t < N" and I: "ns_inv old N s" and S: "named_main ok t s = Some s'"
  shows "ns_inv old N s'"
proof -
  obtain p m where pm: "proc s t = (p, m)" by (cases "proc s t")
  have K: "known_sems s" and C: "counted old N s" and O: "old_ok old s" using I by (simp_all add: ns_inv_def)
  note D = named_main_def pm
  show ?thesis
  proof (cases p)
    case NS_unlink
    with S K C O t pm show ?thesis
      by (auto simp: D ns_inv_def intro!: known_goto counted_goto)
  next
    case NS_open
    then show ?thesis using named_open_inv [OF t I pm _ S] by blast
  next
    case NS_wait
    then show ?thesis using named_wait_inv [OF t I pm _ S] by blast
  next
    case NS_critical
    with S K C O t pm show ?thesis
      by (auto simp: D ns_inv_def intro!: known_goto counted_goto)
  next
    case NS_post
    then show ?thesis using named_post_inv [OF t I pm _ S] by blast
  next
    case NS_non_critical
    with S K C O t pm show ?thesis
      by (auto simp: D ns_inv_def intro!: known_goto counted_goto)
  qed (use S in \<open>simp_all add: D\<close>)
qed

text \<open>Every call takes its process one step further, so that a process makes at most six.\<close>

fun rank :: "ns_pc \<times> nat option \<Rightarrow> int" where
  "rank (NS_unlink, _) = 6"
| "rank (NS_open, _) = 5"
| "rank (NS_wait, _) = 4"
| "rank (NS_critical, _) = 3"
| "rank (NS_post, _) = 2"
| "rank (NS_non_critical, _) = 1"
| "rank (NS_exit, _) = 0"
| "rank (NS_crashed, _) = 0"

lemma rank_nonneg: "0 \<le> rank q"
  by (cases q rule: rank.cases) simp_all

definition ns_work :: "nat \<Rightarrow> ns_state \<Rightarrow> nat" where
  "ns_work N s = nat (tally N rank (proc s))"

lemma named_moves:
  assumes "named_main ok t s = Some s'"
  obtains q where "proc s' = (proc s)(t := q)" "rank q < rank (proc s t)"
  using assms by (cases "proc s t" rule: rank.cases)
    (auto simp: named_main_def goto_def say_def sem_open_def split: option.splits if_splits)

lemma named_work: "t < N \<Longrightarrow> named_main ok t s = Some s' \<Longrightarrow> ns_work N s' < ns_work N s"
  using tally_nonneg [of rank N "proc s'", OF rank_nonneg]
  by (elim named_moves) (simp add: ns_work_def zless_nat_conj)

lemma ns_inv_init: "sem_range old \<Longrightarrow> ns_inv old N (ns_init old)"
  by (cases old) (auto simp: ns_inv_def known_sems_def counted_def ns_init_def old_ok_def places_def tally_def)

interpretation ns: terminating_system "ns_step N" "ns_init old" "\<lambda>s. sem_range old \<longrightarrow> ns_inv old N s" "ns_work N" for old N
proof
  show "sem_range old \<longrightarrow> ns_inv old N (ns_init old)" using ns_inv_init by blast
  show "sem_range old \<longrightarrow> ns_inv old N s'" if "sem_range old \<longrightarrow> ns_inv old N s" "ns_step N e s = Some s'" for s e s'
    using that by (cases e) (auto intro: named_inv split: if_splits)
  show "ns_work N s' < ns_work N s" if "sem_range old \<longrightarrow> ns_inv old N s" "ns_step N e s = Some s'" for s e s'
    using that by (cases e) (auto intro: named_work split: if_splits)
qed

lemma ns_work_init [simp]: "ns_work N (ns_init old) = 6 * N"
  by (cases old) (simp_all add: ns_work_def ns_init_def tally_def)

lemma one_holder:
  assumes "ns_inv old N s" "t < N" "u < N" "t \<noteq> u" "holds i (proc s t) = 1" "places old i \<le> 1"
  shows "holds i (proc s u) = 0"
proof -
  from assms(5) have "snd (proc s t) = Some i" by (auto simp: holds_def split: if_splits)
  with assms(1) have "i < next_sem s" by (auto simp: ns_inv_def known_sems_def)
  with assms(1,6) have "tally N (holds i) (proc s) \<le> 1" by (auto simp: ns_inv_def counted_def)
  with tally_ge_two [of "holds i", OF holds_nonneg assms(2-4), of "proc s"] assms(5) holds_nonneg [of i "proc s u"]
  show ?thesis by simp
qed

text \<open>A process waits only while another one holds the semaphore it has opened.\<close>

lemma waiting_for_holder:
  assumes "ns_inv old N s" "proc s t = (NS_wait, Some i)" "sem_value s i = 0" "0 < places old i"
  obtains u where "u < N" "holds i (proc s u) = 1"
proof -
  have "i < next_sem s" using assms(1,2) unfolding ns_inv_def known_sems_def by (metis snd_conv)
  with assms have "0 < tally N (holds i) (proc s)" by (auto simp: ns_inv_def counted_def)
  then obtain u where "u < N" "0 < holds i (proc s u)" using tally_pos by blast
  then show thesis using that by (auto simp: holds_def split: if_splits)
qed

lemma named_enabled:
  assumes "fst (proc s t) \<notin> {NS_wait, NS_exit, NS_crashed}"
  shows "named_main ok t s \<noteq> None"
  using assms by (cases "proc s t" rule: rank.cases) (auto simp: named_main_def split: option.splits)

lemma named_blocked:
  assumes "named_main True t s = None" "fst (proc s t) \<notin> {NS_exit, NS_crashed}"
  obtains i where "proc s t = (NS_wait, Some i)" "sem_value s i = 0"
proof -
  have "fst (proc s t) = NS_wait" using assms named_enabled by blast
  then show thesis using assms(1) that
    by (cases "proc s t"; cases "snd (proc s t)") (auto simp: named_main_def sem_wait_def split: option.splits if_splits)
qed

section \<open>Properties\<close>

text \<open>C35: Of any number of processes that run \<open>posix-named-sem.c\<close>, each interleaved with the others after every call, with any
  of their calls of \<open>sem_unlink\<close> and \<open>sem_open\<close> failing: two are never together in the critical section with the same semaphore object,
  every execution ends within six calls per process, and where none can go on each one has returned from main or was ended by a
  call on the invalid pointer of a failed \<open>sem_open\<close>: a process never waits for a post that does not come. This holds if there was no
  semaphore of the name before, or one whose value is 1. With an older one of another value, the processes that could not remove it
  share it: the exclusion then holds for every object but it (number 0), and the last part unless its value is 0.\<close>

theorem named_sem_exclusive_and_live:
  assumes "sem_range old" and "run (ns_step N) es (ns_init old) = Some s"
  shows "(\<forall>t u i. t < N \<and> u < N \<and> t \<noteq> u \<and> (old = None \<or> old = Some 1 \<or> i \<noteq> 0) \<and> proc s t = (NS_critical, Some i) \<longrightarrow>
      proc s u \<noteq> (NS_critical, Some i)) \<and>
    length es \<le> 6 * N \<and>
    (old \<noteq> Some 0 \<and> stuck (ns_step N) s \<longrightarrow> (\<forall>t<N. fst (proc s t) \<in> {NS_exit, NS_crashed}))"
proof (intro conjI allI impI)
  have I: "ns_inv old N s" using ns.run_inv [OF assms(2)] assms(1) by simp
  show "length es \<le> 6 * N" using ns.run_bounded [OF assms(2)] by simp
  show "proc s u \<noteq> (NS_critical, Some i)"
    if "t < N \<and> u < N \<and> t \<noteq> u \<and> (old = None \<or> old = Some 1 \<or> i \<noteq> 0) \<and> proc s t = (NS_critical, Some i)" for t u i
  proof -
    have "places old i \<le> 1" using that by (cases old) (auto simp: places_def)
    then show ?thesis using one_holder [OF I, of t u i] that by auto
  qed
  show "fst (proc s t) \<in> {NS_exit, NS_crashed}" if st: "old \<noteq> Some 0 \<and> stuck (ns_step N) s" and t: "t < N" for t
  proof (rule ccontr)
    assume a: "fst (proc s t) \<notin> {NS_exit, NS_crashed}"
    have no: "named_main True u s = None" if "u < N" for u
      using st that unfolding stuck_def by (metis ns_step.simps)
    obtain i where i: "proc s t = (NS_wait, Some i)" "sem_value s i = 0" using named_blocked [OF no [OF t] a] .
    have "0 < places old i" using st by (cases old) (auto simp: places_def)
    then obtain u where u: "u < N" "holds i (proc s u) = 1" using waiting_for_holder [OF I i] by blast
    then have "fst (proc s u) \<in> {NS_critical, NS_post}" by (auto simp: holds_def split: if_splits)
    then show False using no [OF u(1)] named_enabled [of s u True] by auto
  qed
qed

text \<open>The two schedules: one process after the other, and both removing the name before both enter.\<close>

theorem named_sem_exclusive_and_live_witness:
  "\<exists>s. run (ns_step 2) (replicate 4 (Proc 0 True) @ replicate 3 (Proc 1 True)) (ns_init None) = Some s \<and>
     proc s 0 = (NS_post, Some 0) \<and> proc s 1 = (NS_critical, Some 1) \<and>
     (\<forall>t u i. t < 2 \<and> u < 2 \<and> t \<noteq> u \<and> proc s t = (NS_critical, Some i) \<longrightarrow> proc s u \<noteq> (NS_critical, Some i))"
proof -
  let ?es = "replicate 4 (Proc 0 True) @ replicate 3 (Proc 1 True)"
  obtain s where "run (ns_step 2) ?es (ns_init None) = Some s" "proc s 0 = (NS_post, Some 0)" "proc s 1 = (NS_critical, Some 1)"
    by (simp add: numeral_eq_Suc ns_init_def named_main_def goto_def say_def sem_open_def)
  moreover have "sem_range None" by (simp add: sem_range_def)
  ultimately show ?thesis using named_sem_exclusive_and_live [of None 2 ?es s] by blast
qed

text \<open>The example does not keep two processes apart, though: because main removes the name before it opens the semaphore,
  a process that starts while another is in its critical section gets a semaphore of its own, and both are in the critical
  section at once, each with a valid semaphore and without an error message but the first process's.\<close>

theorem named_sem_no_exclusion:
  "\<exists>es s. run (ns_step 2) es (ns_init None) = Some s \<and> out s = [(0, Error_Removing)] \<and>
     proc s 0 = (NS_critical, Some 0) \<and> proc s 1 = (NS_critical, Some 1)"
proof -
  let ?es = "replicate 3 (Proc 0 True) @ replicate 3 (Proc 1 True)"
  have "\<exists>s. run (ns_step 2) ?es (ns_init None) = Some s \<and> out s = [(0, Error_Removing)] \<and>
     proc s 0 = (NS_critical, Some 0) \<and> proc s 1 = (NS_critical, Some 1)"
    by (simp add: numeral_eq_Suc ns_init_def named_main_def goto_def say_def sem_open_def)
  then show ?thesis by blast
qed

end
