(* ===== verification/Scheduling_Examples.thy ===== *)
theory Scheduling_Examples
  imports OSC_Prelude
begin

text \<open>
  \<open>ch6/posix-rt.c\<close> and \<open>ch6/posix-sched.c\<close>: main reads an attribute of the threads it will create,
  prints it, sets it, creates five threads with these attributes and joins them. The results of the
  library calls are parameters and events of the model. A failed \<open>pthread_create\<close> is not noticed by
  the programs and leaves an identifier without a value, which the join then uses.
\<close>

section \<open>Creating and joining the threads\<close>

definition NUM_THREADS :: nat where
  "NUM_THREADS = 5"

datatype 'a thr = No_Thread | Running 'a | Ended 'a

datatype sx_pc = Start | Creating nat | Joining nat | Finished | Bad_Join

record 'a sx_state =
  attr :: 'a
  lines :: "string list"
  main_at :: sx_pc
  tid :: "nat \<Rightarrow> 'a thr"

definition create_and_join :: "bool \<Rightarrow> 'a sx_state \<Rightarrow> 'a sx_state option" where
  "create_and_join ok s = (case main_at s of
     Creating i \<Rightarrow> Some (if i < NUM_THREADS
       then s\<lparr>main_at := Creating (i + 1), tid := if ok then (tid s)(i := Running (attr s)) else tid s\<rparr>
       else s\<lparr>main_at := Joining 0\<rparr>)
   | Joining i \<Rightarrow> if i < NUM_THREADS
       then (case tid s i of
           No_Thread \<Rightarrow> Some (s\<lparr>main_at := Bad_Join\<rparr>)
         | Running _ \<Rightarrow> None
         | Ended _ \<Rightarrow> Some (s\<lparr>main_at := Joining (i + 1)\<rparr>))
       else Some (s\<lparr>main_at := Finished\<rparr>)
   | _ \<Rightarrow> None)"

text \<open>\<open>runner\<close> exits at once.\<close>

definition runner :: "nat \<Rightarrow> 'a sx_state \<Rightarrow> 'a sx_state option" where
  "runner i s = (case tid s i of Running a \<Rightarrow> Some (s\<lparr>tid := (tid s)(i := Ended a)\<rparr>) | _ \<Rightarrow> None)"

section \<open>\<open>posix-rt.c\<close>\<close>

datatype policy = SCHED_OTHER | SCHED_RR | SCHED_FIFO | Other_Policy

definition report_policy :: "policy option \<Rightarrow> string list" where
  "report_policy get = (case get of
     None \<Rightarrow> [''Unable to get policy.'']
   | Some p \<Rightarrow> if p = SCHED_OTHER then [''SCHED_OTHER'']
       else if p = SCHED_RR then [''SCHED_OTHER'']
       else if p = SCHED_FIFO then [''SCHED_FIFO'']
       else [])"

text \<open>The attribute at the start is the default one; \<open>get_ok\<close>, \<open>set_ok\<close> and \<open>ok\<close> say which calls succeed.\<close>

definition rt_main :: "bool \<Rightarrow> bool \<Rightarrow> bool \<Rightarrow> policy sx_state \<Rightarrow> policy sx_state option" where
  "rt_main get_ok set_ok ok s = (if main_at s = Start
     then Some (s\<lparr>lines := report_policy (if get_ok then Some (attr s) else None) @
         (if set_ok then [] else [''unable to set scheduling policy to SCHED_OTHER '']),
       attr := if set_ok then SCHED_OTHER else attr s, main_at := Creating 0\<rparr>)
     else create_and_join ok s)"

section \<open>\<open>posix-sched.c\<close>\<close>

datatype scope = PTHREAD_SCOPE_PROCESS | PTHREAD_SCOPE_SYSTEM | Other_Scope

definition report_scope :: "scope option \<Rightarrow> string list" where
  "report_scope get = (case get of
     None \<Rightarrow> [''Unable to get scheduling scope.'']
   | Some c \<Rightarrow> if c = PTHREAD_SCOPE_PROCESS then [''PTHREAD_SCOPE_PROCESS'']
       else if c = PTHREAD_SCOPE_SYSTEM then [''PTHREAD_SCOPE_SYSTEM'']
       else [''Illegal scope value.''])"

definition sched_main :: "bool \<Rightarrow> bool \<Rightarrow> bool \<Rightarrow> scope sx_state \<Rightarrow> scope sx_state option" where
  "sched_main get_ok set_ok ok s = (if main_at s = Start
     then Some (s\<lparr>lines := report_scope (if get_ok then Some (attr s) else None) @
         (if set_ok then [] else [''unable to set scheduling policy.'']),
       attr := if set_ok then PTHREAD_SCOPE_SYSTEM else attr s, main_at := Creating 0\<rparr>)
     else create_and_join ok s)"

section \<open>Schedules\<close>

text \<open>An event: main makes its next call, a \<open>pthread_create\<close> succeeding or not, or a thread runs.\<close>

datatype sx_event = Main_Call bool | Thread nat

definition sx_init :: "'a \<Rightarrow> 'a sx_state" where
  "sx_init a = \<lparr>attr = a, lines = [], main_at = Start, tid = (\<lambda>_. No_Thread)\<rparr>"

fun sx_step :: "(bool \<Rightarrow> 'a sx_state \<Rightarrow> 'a sx_state option) \<Rightarrow> (sx_event, 'a sx_state) system" where
  "sx_step main (Main_Call ok) s = main ok s"
| "sx_step main (Thread i) s = runner i s"

definition rt_step :: "bool \<Rightarrow> bool \<Rightarrow> (sx_event, policy sx_state) system" where
  "rt_step get_ok set_ok = sx_step (rt_main get_ok set_ok)"

definition sched_step :: "bool \<Rightarrow> bool \<Rightarrow> (sx_event, scope sx_state) system" where
  "sched_step get_ok set_ok = sx_step (sched_main get_ok set_ok)"

section \<open>What both programs share\<close>

text \<open>
  \<open>a1\<close> and \<open>out1\<close> are the attribute and the output after the first part of main. The invariant: threads
  below the creation counter have the attribute, and main has joined those below the join counter.
\<close>

definition created :: "'a \<Rightarrow> nat \<Rightarrow> (nat \<Rightarrow> 'a thr) \<Rightarrow> bool" where
  "created a n f \<longleftrightarrow> (\<forall>i. f i \<in> {No_Thread, Running a, Ended a}) \<and> (\<forall>i \<ge> n. f i = No_Thread)"

definition joined :: "'a \<Rightarrow> nat \<Rightarrow> (nat \<Rightarrow> 'a thr) \<Rightarrow> bool" where
  "joined a n f \<longleftrightarrow> (\<forall>i < n. f i = Ended a)"

inductive sx_inv :: "'a \<Rightarrow> string list \<Rightarrow> 'a sx_state \<Rightarrow> bool" for a1 out1 where
  before: "main_at s = Start \<Longrightarrow> tid s = (\<lambda>_. No_Thread) \<Longrightarrow> sx_inv a1 out1 s"
| creating: "main_at s = Creating i \<Longrightarrow> i \<le> NUM_THREADS \<Longrightarrow> attr s = a1 \<Longrightarrow> lines s = out1 \<Longrightarrow>
    created a1 i (tid s) \<Longrightarrow> sx_inv a1 out1 s"
| joining: "main_at s = Joining i \<Longrightarrow> i \<le> NUM_THREADS \<Longrightarrow> lines s = out1 \<Longrightarrow>
    created a1 NUM_THREADS (tid s) \<Longrightarrow> joined a1 i (tid s) \<Longrightarrow> sx_inv a1 out1 s"
| over: "main_at s = Finished \<Longrightarrow> lines s = out1 \<Longrightarrow> created a1 NUM_THREADS (tid s) \<Longrightarrow> joined a1 NUM_THREADS (tid s) \<Longrightarrow>
    sx_inv a1 out1 s"
| bad: "main_at s = Bad_Join \<Longrightarrow> lines s = out1 \<Longrightarrow> created a1 NUM_THREADS (tid s) \<Longrightarrow> i < NUM_THREADS \<Longrightarrow> tid s i = No_Thread \<Longrightarrow>
    sx_inv a1 out1 s"

lemma created_run: "created a n f \<Longrightarrow> created a (Suc n) (f(n := Running a))"
  by (auto simp: created_def)

lemma created_end: "created a n f \<Longrightarrow> i < n \<Longrightarrow> created a n (f(i := Ended a))"
  by (auto simp: created_def)

lemma created_Suc: "created a n f \<Longrightarrow> created a (Suc n) f"
  by (auto simp: created_def)

lemma joined_end: "joined a n f \<Longrightarrow> joined a n (f(i := Ended a))"
  by (auto simp: joined_def)

lemma running_created: "created a n f \<Longrightarrow> f i = Running b \<Longrightarrow> b = a \<and> i < n"
  unfolding created_def by (metis insertE leI singletonD thr.distinct(1,5) thr.inject(1))

lemma ended_created: "created a n f \<Longrightarrow> f i = Ended b \<Longrightarrow> b = a"
  unfolding created_def by (metis insertE singletonD thr.distinct(3,5) thr.inject(2))

lemma create_and_join_inv:
  assumes "sx_inv a1 out1 s" "create_and_join ok s = Some s'"
  shows "sx_inv a1 out1 s'"
  using assms(1)
proof cases
  case (creating i)
  show ?thesis
  proof (cases "i < NUM_THREADS")
    case True
    with creating assms(2) show ?thesis
      by (intro sx_inv.creating [of _ "i + 1"]) (auto simp: create_and_join_def intro: created_run created_Suc)
  next
    case False
    with creating assms(2) show ?thesis
      by (intro sx_inv.joining [of _ 0]) (auto simp: create_and_join_def joined_def)
  qed
next
  case (joining i)
  consider "i = NUM_THREADS" | "i < NUM_THREADS" "tid s i = No_Thread" | b where "i < NUM_THREADS" "tid s i = Ended b"
    using joining assms(2) by (cases "i < NUM_THREADS"; cases "tid s i") (auto simp: create_and_join_def)
  then show ?thesis
  proof cases
    case 1
    with joining assms(2) show ?thesis by (intro sx_inv.over) (auto simp: create_and_join_def)
  next
    case 2
    with joining assms(2) show ?thesis by (intro sx_inv.bad [of _ _ _ i]) (auto simp: create_and_join_def)
  next
    case 3
    with joining assms(2) ended_created [OF joining(4) 3(2)] show ?thesis
      by (intro sx_inv.joining [of _ "i + 1"]) (auto simp: create_and_join_def joined_def less_Suc_eq)
  qed
qed (use assms(2) in \<open>simp_all add: create_and_join_def\<close>)

lemma runner_inv:
  assumes "sx_inv a1 out1 s" "runner i s = Some s'"
  shows "sx_inv a1 out1 s'"
proof -
  obtain a where a: "tid s i = Running a" "s' = s\<lparr>tid := (tid s)(i := Ended a)\<rparr>"
    using assms(2) by (auto simp: runner_def split: thr.splits)
  from assms(1) show ?thesis
  proof cases
    case (creating n)
    with a running_created [OF creating(5) a(1)] show ?thesis by (intro sx_inv.creating [of _ n]) (auto intro: created_end)
  next
    case (joining n)
    with a running_created [OF joining(4) a(1)] show ?thesis
      by (intro sx_inv.joining [of _ n]) (auto intro: created_end joined_end)
  next
    case over
    with a running_created [OF over(3) a(1)] show ?thesis by (intro sx_inv.over) (auto intro: created_end joined_end)
  next
    case (bad n)
    with a running_created [OF bad(3) a(1)] show ?thesis by (intro sx_inv.bad [of _ _ _ n]) (auto intro: created_end)
  qed (use a in auto)
qed

fun pc_work :: "sx_pc \<Rightarrow> int" where
  "pc_work Start = 18"
| "pc_work (Creating i) = 17 - 2 * int i"
| "pc_work (Joining i) = 6 - int i"
| "pc_work Finished = 0"
| "pc_work Bad_Join = 0"

definition running :: "'a thr \<Rightarrow> int" where
  "running x = (case x of Running _ \<Rightarrow> 1 | _ \<Rightarrow> 0)"

definition sx_work :: "'a sx_state \<Rightarrow> nat" where
  "sx_work s = nat (pc_work (main_at s) + tally NUM_THREADS running (tid s))"

lemma running_simps [simp]: "running No_Thread = 0" "running (Running a) = 1" "running (Ended a) = 0"
  by (simp_all add: running_def)

lemma running_nonneg: "0 \<le> running x"
  by (simp add: running_def split: thr.split)

lemma sx_work_pos:
  assumes "sx_inv a1 out1 s"
  shows "0 \<le> pc_work (main_at s) + tally NUM_THREADS running (tid s)"
  using assms tally_nonneg [of running NUM_THREADS "tid s", OF running_nonneg]
  by cases (auto simp: NUM_THREADS_def)

lemma sx_work_less:
  assumes "sx_inv a1 out1 s'"
    and "pc_work (main_at s') + tally NUM_THREADS running (tid s') < pc_work (main_at s) + tally NUM_THREADS running (tid s)"
  shows "sx_work s' < sx_work s"
  using sx_work_pos [OF assms(1)] assms(2) by (simp add: sx_work_def zless_nat_conj)

lemma create_and_join_work:
  assumes "sx_inv a1 out1 s" "create_and_join ok s = Some s'"
  shows "sx_work s' < sx_work s"
proof (rule sx_work_less [OF create_and_join_inv [OF assms]])
  from assms(1) show "pc_work (main_at s') + tally NUM_THREADS running (tid s') < pc_work (main_at s) + tally NUM_THREADS running (tid s)"
  proof cases
    case (creating i)
    then have "tid s i = No_Thread" by (auto simp: created_def)
    with creating assms(2) show ?thesis by (auto simp: create_and_join_def NUM_THREADS_def split: if_splits)
  next
    case (joining i)
    with assms(2) show ?thesis
      by (auto simp: create_and_join_def NUM_THREADS_def split: if_splits thr.splits)
  qed (use assms(2) in \<open>simp_all add: create_and_join_def\<close>)
qed

lemma runner_work:
  assumes "sx_inv a1 out1 s" "runner i s = Some s'"
  shows "sx_work s' < sx_work s"
proof (rule sx_work_less [OF runner_inv [OF assms]])
  obtain a where a: "tid s i = Running a" "s' = s\<lparr>tid := (tid s)(i := Ended a)\<rparr>"
    using assms(2) by (auto simp: runner_def split: thr.splits)
  have "i < NUM_THREADS" using assms(1)
  proof cases
    case (creating n)
    then show ?thesis using running_created [OF creating(5) a(1)] by simp
  qed (use a in \<open>auto dest: running_created\<close>)
  then show "pc_work (main_at s') + tally NUM_THREADS running (tid s') < pc_work (main_at s) + tally NUM_THREADS running (tid s)"
    using a by simp
qed

lemma runner_same: "runner i s = Some s' \<Longrightarrow> main_at s' = main_at s \<and> attr s' = attr s"
  by (auto simp: runner_def split: thr.splits)

text \<open>
  The contract of the first part of main, which both programs fulfil: from the start it goes to the
  creation of the threads with attribute \<open>a1\<close> and output \<open>out1\<close>; afterwards main creates and joins.
\<close>

locale attribute_program =
  fixes main :: "bool \<Rightarrow> 'a sx_state \<Rightarrow> 'a sx_state option" and a0 a1 :: 'a and out1 :: "string list"
  assumes first: "main_at s = Start \<Longrightarrow> attr s = a0 \<Longrightarrow> main ok s = Some (s\<lparr>lines := out1, attr := a1, main_at := Creating 0\<rparr>)"
    and rest: "main_at s \<noteq> Start \<Longrightarrow> main ok s = create_and_join ok s"
begin

definition inv :: "'a sx_state \<Rightarrow> bool" where
  "inv s \<longleftrightarrow> sx_inv a1 out1 s \<and> (main_at s = Start \<longrightarrow> attr s = a0)"

lemma create_and_join_leaves: "create_and_join ok s = Some s' \<Longrightarrow> main_at s' \<noteq> Start"
  by (auto simp: create_and_join_def split: sx_pc.splits if_splits thr.splits)

lemma main_inv:
  assumes "inv s" "main ok s = Some s'"
  shows "inv s'" "sx_work s' < sx_work s"
proof -
  show I: "inv s'"
  proof (cases "main_at s = Start")
    case True
    then have "created a1 0 (tid s)" using assms(1) by (auto simp: inv_def created_def elim: sx_inv.cases)
    then show ?thesis using first [OF True] assms True
      by (auto simp: inv_def intro: sx_inv.creating [of _ 0])
  next
    case False
    then show ?thesis using assms rest create_and_join_inv create_and_join_leaves unfolding inv_def by metis
  qed
  show "sx_work s' < sx_work s"
  proof (cases "main_at s = Start")
    case True
    then show ?thesis using I first [OF True] assms by (intro sx_work_less) (auto simp: inv_def)
  next
    case False
    then show ?thesis using assms rest create_and_join_work unfolding inv_def by metis
  qed
qed

lemma thread_inv:
  assumes "inv s" "runner i s = Some s'"
  shows "inv s'" "sx_work s' < sx_work s"
  using runner_inv [of a1 out1 s i s'] runner_work [of a1 out1 s i s'] runner_same [OF assms(2)] assms
  by (simp_all add: inv_def)

lemma step_inv:
  assumes "inv s" "sx_step main e s = Some s'"
  shows "inv s'" "sx_work s' < sx_work s"
  using assms main_inv [of s _ s'] thread_inv [of s _ s'] by (cases e; simp)+

lemma start_inv: "inv (sx_init a0)"
  by (simp add: inv_def sx_init_def sx_inv.before)

sublocale terminating_system "sx_step main" "sx_init a0" inv sx_work
  using start_inv step_inv by unfold_locales

lemma stuck_end:
  assumes "inv s" "stuck (sx_step main) s"
  shows "lines s = out1 \<and> (main_at s = Finished \<and> (\<forall>i < NUM_THREADS. tid s i = Ended a1) \<or>
    main_at s = Bad_Join \<and> (\<exists>i < NUM_THREADS. tid s i = No_Thread))"
proof -
  have m: "main True s = None" and r: "runner i s = None" for i
    using assms(2) unfolding stuck_def by (metis sx_step.simps)+
  have ns: "main_at s \<noteq> Start" using first [of s True] assms(1) m by (auto simp: inv_def)
  then have cj: "create_and_join True s = None" using rest m by metis
  from assms(1) have "sx_inv a1 out1 s" by (simp add: inv_def)
  then show ?thesis
  proof cases
    case (joining i)
    then obtain a where "tid s i = Running a" using cj
      by (auto simp: create_and_join_def split: thr.splits if_splits)
    then show ?thesis using r [of i] by (simp add: runner_def)
  qed (use ns cj in \<open>auto simp: create_and_join_def joined_def\<close>)
qed

text \<open>Without a failed creation no identifier is missing.\<close>

definition full :: "'a sx_state \<Rightarrow> bool" where
  "full s \<longleftrightarrow> (\<forall>j < (case main_at s of Start \<Rightarrow> 0 | Creating i \<Rightarrow> min i NUM_THREADS | _ \<Rightarrow> NUM_THREADS). tid s j \<noteq> No_Thread)"

lemma full_step: "full s \<Longrightarrow> sx_step main e s = Some s' \<Longrightarrow> e \<noteq> Main_Call False \<Longrightarrow> inv s \<Longrightarrow> full s'"
proof (cases e)
  case (Main_Call ok)
  assume a: "full s" "sx_step main e s = Some s'" "e \<noteq> Main_Call False" "inv s"
  then have ok: "main True s = Some s'" using Main_Call by (cases ok) auto
  show ?thesis
  proof (cases "main_at s = Start")
    case True
    then show ?thesis using ok first [OF True] a(4) by (auto simp: inv_def full_def)
  next
    case False
    then have "create_and_join True s = Some s'" using ok rest by metis
    then show ?thesis using a(1)
      by (auto simp: create_and_join_def full_def less_Suc_eq min_def split: sx_pc.splits if_splits thr.splits)
  qed
next
  case (Thread i)
  assume "full s" "sx_step main e s = Some s'"
  then show ?thesis using Thread by (auto simp: full_def runner_def split: thr.splits if_splits)
qed

lemma full_run: "run (sx_step main) es (sx_init a0) = Some s \<Longrightarrow> Main_Call False \<notin> set es \<Longrightarrow> full s"
proof (induction es arbitrary: s rule: rev_induct)
  case Nil
  then show ?case by (auto simp: full_def sx_init_def)
next
  case (snoc e es)
  then obtain s0 where "run (sx_step main) es (sx_init a0) = Some s0" "sx_step main e s0 = Some s"
    by (auto simp: run_append split: option.splits)
  then show ?case using snoc full_step run_inv by (metis UnCI insertCI list.set(2) set_append)
qed

lemma program_result:
  assumes "run (sx_step main) es (sx_init a0) = Some s"
  shows "length es \<le> 18 \<and> (stuck (sx_step main) s \<longrightarrow>
    lines s = out1 \<and> (main_at s = Finished \<and> (\<forall>i < NUM_THREADS. tid s i = Ended a1) \<or>
      main_at s = Bad_Join \<and> Main_Call False \<in> set es))"
proof -
  have "sx_work (sx_init a0) = 18" by (simp add: sx_work_def sx_init_def tally_def)
  then have "length es \<le> 18" using run_bounded [OF assms] by simp
  moreover have "main_at s = Bad_Join \<Longrightarrow> i < NUM_THREADS \<Longrightarrow> tid s i = No_Thread \<Longrightarrow> Main_Call False \<in> set es" for i
    using full_run [OF assms] by (auto simp: full_def)
  ultimately show ?thesis using stuck_end [OF run_inv [OF assms]] by blast
qed

end

interpretation rt: attribute_program "rt_main get_ok set_ok" pol "if set_ok then SCHED_OTHER else pol"
    "report_policy (if get_ok then Some pol else None) @
      (if set_ok then [] else [''unable to set scheduling policy to SCHED_OTHER ''])" for get_ok set_ok pol
  by unfold_locales (auto simp: rt_main_def)

interpretation sched: attribute_program "sched_main get_ok set_ok" sco "if set_ok then PTHREAD_SCOPE_SYSTEM else sco"
    "report_scope (if get_ok then Some sco else None) @
      (if set_ok then [] else [''unable to set scheduling policy.''])" for get_ok set_ok sco
  by unfold_locales (auto simp: sched_main_def)

section \<open>Properties\<close>

text \<open>Every execution of \<open>posix-sched.c\<close> ends within 18 steps. At its end main has printed the scope that \<open>pthread_attr_getscope\<close>
  reported, or that it could not get it, and a complaint when it could not set it; and it has returned after all five threads,
  created with the scope it set, have ended, unless a \<open>pthread_create\<close> failed, in which case it may have joined an identifier
  that has no value.\<close>

theorem sched_main_ends:
  assumes "run (sched_step get_ok set_ok) es (sx_init sco) = Some s"
  shows "length es \<le> 18 \<and> (stuck (sched_step get_ok set_ok) s \<longrightarrow>
    lines s = report_scope (if get_ok then Some sco else None) @ (if set_ok then [] else [''unable to set scheduling policy.'']) \<and>
    (main_at s = Finished \<and> (\<forall>i < NUM_THREADS. tid s i = Ended (if set_ok then PTHREAD_SCOPE_SYSTEM else sco)) \<or>
      main_at s = Bad_Join \<and> Main_Call False \<in> set es))"
  using assms unfolding sched_step_def by (rule sched.program_result)

theorem sched_main_ends_witness:
  "let es = replicate 6 (Main_Call True) @ map Thread [0..<5] @ replicate 7 (Main_Call True) in
   \<exists>s. run (sched_step True True) es (sx_init PTHREAD_SCOPE_PROCESS) = Some s \<and>
     lines s = [''PTHREAD_SCOPE_PROCESS''] \<and> main_at s = Finished \<and> length es \<le> 18"
proof -
  let ?es = "replicate 6 (Main_Call True) @ map Thread [0..<5] @ replicate 7 (Main_Call True)"
  have "\<exists>s. run (sched_step True True) ?es (sx_init PTHREAD_SCOPE_PROCESS) = Some s \<and>
     lines s = [''PTHREAD_SCOPE_PROCESS''] \<and> main_at s = Finished"
    by (simp add: numeral_eq_Suc upt_conv_Cons sched_step_def sched_main_def create_and_join_def runner_def sx_init_def report_scope_def NUM_THREADS_def)
  then obtain s where "run (sched_step True True) ?es (sx_init PTHREAD_SCOPE_PROCESS) = Some s"
    "lines s = [''PTHREAD_SCOPE_PROCESS'']" "main_at s = Finished" by blast
  with sched_main_ends [of True True ?es PTHREAD_SCOPE_PROCESS s] show ?thesis unfolding Let_def by blast
qed

text \<open>\<open>posix-rt.c\<close> likewise; the name it prints is that of the policy except for \<open>SCHED_RR\<close>.\<close>

lemma rt_main_ends:
  assumes "run (rt_step get_ok set_ok) es (sx_init pol) = Some s"
  shows "length es \<le> 18 \<and> (stuck (rt_step get_ok set_ok) s \<longrightarrow>
    lines s = report_policy (if get_ok then Some pol else None) @
      (if set_ok then [] else [''unable to set scheduling policy to SCHED_OTHER '']) \<and>
    (main_at s = Finished \<and> (\<forall>i < NUM_THREADS. tid s i = Ended (if set_ok then SCHED_OTHER else pol)) \<or>
      main_at s = Bad_Join \<and> Main_Call False \<in> set es))"
  using assms unfolding rt_step_def by (rule rt.program_result)

text \<open>A report that names the policy would differ for different policies; this one does not.\<close>

lemma report_policy_ambiguous:
  "report_policy (Some p) = report_policy (Some q) \<longleftrightarrow> p = q \<or> {p, q} = {SCHED_OTHER, SCHED_RR}"
  by (cases p; cases q) (auto simp: report_policy_def)

lemma report_scope_inj: "report_scope x = report_scope y \<longleftrightarrow> x = y"
  by (auto simp: report_scope_def split: option.splits if_splits scope.splits)
    (metis scope.exhaust)+

end
