(* ===== verification/Windows_Thread.thy ===== *)
theory Windows_Thread
  imports OSC_Prelude "HOL-Library.Word"
begin

text \<open>
  \<open>ch4/thrd-win32.c\<close>: a thread adds the numbers up to the argument to the global \<open>Sum\<close>. Unlike the
  POSIX version the counter and the sum are \<open>DWORD\<close>, 32-bit unsigned words, so that the sum wraps
  around and the loop does not end for the largest bound. \<open>main\<close> waits for the thread before it reads
  \<open>Sum\<close>, so the thread runs as a function call; \<open>CreateThread\<close> succeeds or not as its parameter says.
\<close>

section \<open>Model\<close>

text \<open>The global \<open>Sum\<close> is the argument and the result \<open>acc\<close> of the loop.\<close>

type_synonym DWORD = "32 word"

partial_function (option) summation_loop :: "DWORD \<Rightarrow> DWORD \<Rightarrow> DWORD \<Rightarrow> DWORD option" where
  "summation_loop Upper i acc = (if i \<le> Upper then summation_loop Upper (i + 1) (acc + i) else Some acc)"

declare summation_loop.simps [code]

definition Summation :: "DWORD \<Rightarrow> DWORD \<Rightarrow> DWORD option" where
  "Summation Param acc = summation_loop Param 0 acc"

datatype win_outcome = Parameter_Required | Negative_Parameter | No_Thread | Sum_Printed int

text \<open>\<open>Inr None\<close>: main waits for a thread that never ends. \<open>%d\<close> prints the word as a signed number.\<close>

definition win_main :: "bool \<Rightarrow> string list \<Rightarrow> win_outcome option c_result" where
  "win_main created argv =
     (if length argv \<noteq> 2 then Inr (Some Parameter_Required)
      else c_bind (c_atoi (argv ! 1)) (\<lambda>Param.
        if Param < 0 then Inr (Some Negative_Parameter)
        else if \<not> created then Inr (Some No_Thread)
        else Inr (map_option (\<lambda>acc. Sum_Printed (sint acc)) (Summation (word_of_int Param) 0))))"

section \<open>The loop\<close>

lemma of_nat_le_DWORD: "m < 2 ^ 32 \<Longrightarrow> n < 2 ^ 32 \<Longrightarrow> (of_nat m :: DWORD) \<le> of_nat n \<longleftrightarrow> m \<le> n"
  by (simp add: word_le_nat_alt unat_of_nat)

lemma summation_loop_result:
  assumes "U < 2 ^ 32 - 1" "i \<le> U + 1"
  shows "summation_loop (of_nat U) (of_nat i) s = Some (s + of_nat (\<Sum>k = i..U. k))"
  using assms
proof (induction "U + 1 - i" arbitrary: i s)
  case 0
  then have "\<not> (of_nat i :: DWORD) \<le> of_nat U" by (subst of_nat_le_DWORD) auto
  moreover have "U < i" using 0 by simp
  ultimately show ?case by (subst summation_loop.simps) simp
next
  case (Suc d)
  then have "(of_nat i :: DWORD) \<le> of_nat U" by (subst of_nat_le_DWORD) auto
  moreover have "summation_loop (of_nat U) (of_nat (Suc i)) (s + of_nat i) = Some (s + of_nat i + of_nat (\<Sum>k = Suc i..U. k))"
    using Suc by (intro Suc.hyps(1)) simp_all
  moreover have "(\<Sum>k = i..U. k) = i + (\<Sum>k = Suc i..U. k)" using Suc by (intro sum.atLeast_Suc_atMost) simp
  ultimately show ?case by (subst summation_loop.simps) (simp add: add.commute add.left_commute)
qed

lemma summation_loop_bound:
  assumes "summation_loop U i s = Some r"
  shows "U \<noteq> - 1"
proof (rule summation_loop.raw_induct [of "\<lambda>U i s r. U \<noteq> - 1", OF _ assms])
  fix f :: "DWORD \<Rightarrow> DWORD \<Rightarrow> DWORD \<Rightarrow> DWORD option" and U i s r
  assume "\<And>U i s r. f U i s = Some r \<Longrightarrow> U \<noteq> - 1" "(if i \<le> U then f U (i + 1) (s + i) else Some s) = Some r"
  then show "U \<noteq> - 1" by (cases "i \<le> U") auto
qed

text \<open>With the largest bound every \<open>i\<close> passes the test, and the loop never returns.\<close>

lemma Summation_diverges: "Summation (- 1) s = None"
  using summation_loop_bound by (fastforce simp: Summation_def)

lemma gauss: "2 * (\<Sum>k = 0..n. k) = n * (n + 1)" for n :: nat
  by (induction n) simp_all

lemma gauss_int: "0 \<le> n \<Longrightarrow> (\<Sum>k = 0..n. k) = n * (n + 1) div 2" for n :: int
proof (induction n rule: int_ge_induct)
  case (step n)
  have "{0..n + 1} = insert (n + 1) {0..n}" using step.hyps by auto
  then show ?case using step.IH by (simp add: algebra_simps)
qed simp

lemma c_atoi_le: "c_atoi a = Inr n \<Longrightarrow> n \<le> INT_MAX"
  by (auto simp: c_atoi_def c_int_def INT_MAX_def split: list.splits if_splits)

lemma Summation_result:
  assumes "0 \<le> n" "n \<le> INT_MAX"
  shows "Summation (word_of_int n) 0 = Some (word_of_int (n * (n + 1) div 2))"
proof -
  obtain U where U: "n = int U" using assms(1) nonneg_int_cases by blast
  have "int (\<Sum>k = 0..U. k) = n * (n + 1) div 2"
    using gauss [of U] unfolding U by (metis int_ops(2,7) nonzero_mult_div_cancel_left of_nat_add of_nat_numeral zero_neq_numeral)
  then have "of_nat (\<Sum>k = 0..U. k) = (word_of_int (n * (n + 1) div 2) :: DWORD)" using of_int_of_nat_eq [where 'a = DWORD, of "\<Sum>k = 0..U. k"] by (simp only: of_int_eq_id id_apply)
  then show ?thesis using summation_loop_result [of U 0 0] assms U by (simp add: Summation_def INT_MAX_def)
qed

lemma sint_exact: "sint (word_of_int x :: DWORD) = x \<longleftrightarrow> INT_MIN \<le> x \<and> x \<le> INT_MAX"
  using sint_range_size [of "word_of_int x :: DWORD"]
  by (auto simp: INT_MIN_def INT_MAX_def word_size signed_of_int signed_take_bit_int_eq_self_iff)

lemma triangle_fits: "0 \<le> n \<Longrightarrow> n * (n + 1) div 2 \<le> INT_MAX \<longleftrightarrow> n \<le> 65535" for n :: int
proof
  assume "0 \<le> n" "n * (n + 1) div 2 \<le> INT_MAX"
  show "n \<le> 65535"
  proof (rule ccontr)
    assume "\<not> n \<le> 65535"
    then have "65536 * 65537 \<le> n * (n + 1)" by (intro mult_mono) simp_all
    then show False using \<open>n * (n + 1) div 2 \<le> INT_MAX\<close> by (simp add: INT_MAX_def)
  qed
next
  assume "0 \<le> n" "n \<le> 65535"
  then have "n * (n + 1) \<le> 65535 * 65536" by (intro mult_mono) simp_all
  then show "n * (n + 1) div 2 \<le> INT_MAX" by (simp add: INT_MAX_def)
qed

section \<open>Properties\<close>

text \<open>C36: For every argument that \<open>thrd-win32.c\<close> accepts its thread ends, though its loop would not for the bound -1, and main
  prints the sum of the numbers up to the argument reduced to 32 bits and read as a signed number; what is printed is the sum
  itself exactly for arguments up to 65535. When \<open>CreateThread\<close> fails nothing is printed, and a negative argument is refused.\<close>

theorem win_main_sum:
  assumes "c_atoi a = Inr n"
  shows "if n < 0 then win_main created [p, a] = Inr (Some Negative_Parameter)
    else if \<not> created then win_main created [p, a] = Inr (Some No_Thread)
    else \<exists>v. win_main created [p, a] = Inr (Some (Sum_Printed v)) \<and>
      v = sint (word_of_int (\<Sum>k = 0..n. k) :: DWORD) \<and> (v = (\<Sum>k = 0..n. k) \<longleftrightarrow> n \<le> 65535)"
proof (cases "n < 0 \<or> \<not> created")
  case True
  then show ?thesis using assms by (auto simp: win_main_def)
next
  case False
  then have n: "0 \<le> n" "n \<le> INT_MAX" using c_atoi_le [OF assms] by simp_all
  have "INT_MIN \<le> n * (n + 1) div 2" using n pos_imp_zdiv_nonneg_iff [of 2 "n * (n + 1)"] mult_nonneg_nonneg [of n "n + 1"] unfolding INT_MIN_def by linarith
  then have "sint (word_of_int (n * (n + 1) div 2) :: DWORD) = n * (n + 1) div 2 \<longleftrightarrow> n \<le> 65535"
    using sint_exact triangle_fits [OF n(1)] by blast
  then show ?thesis using False assms Summation_result [OF n] gauss_int [OF n(1)] by (simp add: win_main_def)
qed

theorem win_main_sum_witness:
  "\<exists>v. win_main True [''sum'', ''65536''] = Inr (Some (Sum_Printed v)) \<and>
     v = sint (word_of_int (\<Sum>k = 0..65536. k) :: DWORD) \<and> v \<noteq> (\<Sum>k = 0..65536. k)"
proof -
  have "c_atoi ''65536'' = Inr 65536" by code_simp
  from win_main_sum [OF this, of True "''sum''"] show ?thesis by simp
qed

end
