(* ===== verification/Spec2Isabelle.thy ===== *)
theory Spec2Isabelle
  imports Pid_Manager Pid_Threads Bounded_Queue Philosophers Licenses Barrier Number_Threads Pid_Race Teaching_Assistant Monte_Carlo Deadlock TA_First_Try Kernel_List Kernel_Modules Kernel_HList Kernel_Traversal Processes Unix_Pipe Windows_Pipe Shared_Memory Windows_Mapping Semaphore_Examples Scheduling_Examples Windows_Thread 
begin

text \<open>
  Verification of the C programs of the repository: solutions of the programming problems and projects of the
  operating-systems textbook, most of them multithreaded POSIX programs, its example programs on processes, pipes, shared memory,
  semaphores and threads, and kernel modules with the kernel lists they use. Each program is
  independent of the others; what they share are the POSIX primitives and, for the PID managers, one data structure in three
  stages (sequential, unlocked, with a mutex).

  \<^bold>\<open>How the programs are modelled.\<close> A sequential function is a HOL function; \<open>assert\<close>, an access outside an
  array, a signed overflow and a bad pointer are values of \<open>c_abort\<close> (\<open>OSC_Prelude\<close>). A
  multithreaded program is a function \<open>step\<close> from an event (which thread moves, what \<open>rand()\<close> returns) and a
  state to the next state, \<open>None\<close> when the thread is blocked; a thread's position is a constructor of a
  program-point type, and one step is one C statement on shared data or one call of the pthread library. The interleavings of the model
  are therefore all the interleavings of those statements. Where code runs without a lock, \<open>x++\<close> is a read
  and a write. A program stops for good at its first failed assertion. Several processes are treated like threads, each with its own
  variables; which calls of the operating system fail is part of the events.

  \<^bold>\<open>Theories.\<close>
  \<^item> \<open>OSC_Prelude\<close>: aborted runs, checked array accesses, \<open>int\<close> ranges and \<open>atoi\<close>, schedules and reachable states, sums over threads,
    and the locales \<open>invariant_system\<close> (an invariant kept by every event), \<open>terminating_system\<close> (a measure that every event decreases),
    \<open>refined_system\<close> (a simulation of an abstract system), \<open>traced_system\<close> (one that preserves what is observed) and \<open>implements\<close> (fallible operations that implement abstract ones), each interpreted by the components below.
  \<^item> \<open>Posix_Sync\<close>: mutexes, semaphores and sequences of checked calls, with the locale \<open>initialised_system\<close>: a program that initialises its
    objects first runs as if no call could fail or stops before a thread exists, and \<open>late_identifiers\<close>: a program whose threads look for
    their identifiers runs, when these are stored late, like the one where they are stored first until a thread looks too early.
  \<^item> \<open>Pid_Manager\<close>: \<open>ch3/.../pp3_20/pid_manager.c\<close> and \<open>pp3.20.c\<close>. The allocator is next-fit over 201 identifiers; it satisfies the locale
    \<open>id_allocator\<close>: fresh identifiers, refusal exactly when full, release of exactly the identifiers in use.
  \<^item> \<open>Pid_Threads\<close>: \<open>ch5/problems/pp5_36\<close>, the allocator under a mutex with 500 workers: no two workers hold the same identifier, every run ends,
    and the program refines a table of slots.
  \<^item> \<open>Pid_Race\<close>: \<open>ch4/.../pp4_20\<close>, the allocator without a lock: uninterrupted calls behave as the sequential functions, interleaved ones
    hand out duplicates and fail assertions.
  \<^item> \<open>Bounded_Buffer\<close>: \<open>ch5/projects/proj3/ch5_pp3_pcp.c\<close>: producers and consumers take the items in order, without deadlock, whatever calls fail;
    \<open>Bounded_Queue\<close>: their calls with the results are a history of a sequential first-in-first-out queue of five places.
  \<^item> \<open>Philosophers\<close>: \<open>ch5/projects/proj2/ch5_pp2_dpp.c\<close>: neighbours never eat together, no deadlock, no lost wake-up.
  \<^item> \<open>Licenses\<close>: \<open>ch5/problems/pp5_37/pp5.37.c\<close>: licences are conserved, requests are never refused, no deadlock.
  \<^item> \<open>Barrier\<close>: \<open>ch5/problems/pp5_41\<close>: the barrier separates rounds and does not deadlock.
  \<^item> \<open>Teaching_Assistant\<close> and \<open>TA_First_Try\<close>: \<open>ch5/projects/proj1\<close>, the sleeping TA in its final and in its first version: what the TA teaches,
    that no request is lost, which assertions can fail and why.
  \<^item> \<open>Monte_Carlo\<close>: \<open>pp4.22.c\<close>, \<open>pp4.23.c\<close> and \<open>pp5.39.c\<close>: the rounded circle test, the lost update without and the exact total with a mutex.
  \<^item> \<open>Number_Threads\<close>: \<open>thrd-posix.c\<close>, \<open>pp4.21.c\<close>, \<open>pp4.24.c\<close>, \<open>pp4.26.c\<close>: what the programs print for which arguments, and where \<open>int\<close> overflows.
  \<^item> \<open>Deadlock\<close>: \<open>ch7/deadlock.c\<close>: every run ends, with main done or in the one deadlock.
  \<^item> \<open>Kernel_List\<close>: the doubly linked lists of \<open>linux_headers/include/linux/list.h\<close> on an explicit heap: every operation refines one on sequences of
    entries (locale \<open>implements\<close>), traversals return the entries, cutting and splicing back restores the memory.
  \<^item> \<open>Kernel_Modules\<close>: \<open>ch2/simple.c\<close> and the process-listing modules of \<open>ch3/programming_projects\<close>, clients of \<open>Kernel_List\<close> and \<open>Kernel_Traversal\<close>: the birthdays are
    printed in order and all freed, the depth-first walk prints the process tree in preorder, the linear one every listed process once.
  \<^item> \<open>Kernel_HList\<close>: the hash lists of \<open>list.h\<close>, with their pointers back to pointers, likewise: every operation refines one on sequences of nodes.
  \<^item> \<open>Kernel_Traversal\<close>: the traversal macros of both kinds of list with their bodies, over the locales \<open>cursor\<close> and \<open>safe_cursor\<close> (what following
    a pointer promises), interpreted forwards, backwards and on hash lists: what each visits, and that entries may be taken off during the safe ones only.
  \<^item> \<open>Processes\<close>: \<open>fork-question-1.c\<close>, \<open>fork-question-2.c\<close>, \<open>newproc-posix.c\<close> and \<open>pp3.19.c\<close> over a model of \<open>fork\<close>, \<open>wait\<close>, \<open>exec\<close> and
    \<open>exit\<close>: how many processes and lines there are, what the parent prints, that it waits, when the child is a zombie.
  \<^item> \<open>Unix_Pipe\<close> and \<open>Windows_Pipe\<close>: \<open>ch3/unix_pipe.c\<close>, \<open>win32-pipe-parent.c\<close> with \<open>win32-pipe-child.c\<close>, and \<open>newproc-win32.c\<close>: the child prints
    the parent's message and both end; what happens after failed calls, and where the Windows version waits for ever after unnoticed ones.
  \<^item> \<open>Shared_Memory\<close> and \<open>Windows_Mapping\<close>: \<open>ch3/shm-posix-producer.c\<close> and \<open>shm-posix-consumer.c\<close>, and \<open>ch9/windows-programs\<close>: what the consumer can
    read before, while and after the producer writes.
  \<^item> \<open>Semaphore_Examples\<close>: \<open>ch5/posix-named-sem.c\<close> run by several processes (exclusion per semaphore object, but none between processes, since
    each removes the name first) and \<open>posix-unnamed-sem.c\<close>.
  \<^item> \<open>Scheduling_Examples\<close>: \<open>ch6/posix-rt.c\<close> and \<open>posix-sched.c\<close> as two instances of one locale: what is printed, and that all threads have ended
    with the attribute that was set.
  \<^item> \<open>Windows_Thread\<close>: \<open>ch4/thrd-win32.c\<close> on 32-bit words: the loop ends for every accepted argument, and for which ones the sum is right.

  \<^bold>\<open>Assumptions.\<close> What the checked calls that initialise mutexes, semaphores, condition variables and attributes return is a parameter
  (\<open>rc\<close>), and the properties of these programs hold for all return codes: a call that fails stops the program at its assertion. Unchecked
  calls, creating threads among them, succeed unless their outcome is a parameter of the model or part of its events (the bounded buffer, the
  locked PID manager and the programs of several processes). Whether a thread finds its identifier
  already stored when it starts is a parameter (\<open>store_first\<close>) where the program looks for it; the properties hold for both orders, and
  those about assertions name the ones that fail in a thread that looks too early; that they do fail is proved. Condition variables may wake spuriously. Memory is sequentially
  consistent. No fuel is used: loops are structural recursion, recursion with a termination proof or \<open>partial_function\<close>
  with a proof that it returns.

  \<^bold>\<open>Not modelled.\<close> The text of most output; the unit-test examples under \<open>tests\<close>, which exercise a framework that is not in the
  repository; the Java programs; the textbook's own copies under \<open>final-src-osc9e\<close>; \<open>ch3/simple-shell.c\<close> and \<open>ch4/openmp.c\<close>, which
  only print in a loop or a parallel region; the file copy of chapter 2, which prints one line; the outline
  \<open>ch5/projects/proj3/buffer.c\<close>, whose functions are empty; the rest of the Linux headers, which the modules here do not use.
\<close>

end
